(* ===== verification/Prelude.thy ===== *)
theory Prelude
  imports "HOL-Library.Word" "HOL-Library.Monad_Syntax" "HOL-Library.Code_Target_Nat"
begin

text \<open>
  The vocabulary every component shares: the machine integers and byte strings of the
  Rust sources, slice accesses that make an out-of-range index visible, the big- and
  little-endian integer conversions of the standard library, and the ASCII case folding
  used on names.

  A value of type \<open>'a run\<close> is the result of code that can panic: \<open>None\<close> stands for the
  panic (an index or a slice out of range), \<open>Some r\<close> for a normal return with \<open>r\<close>. Rust's
  own \<open>Option\<close> and \<open>Result\<close> values sit inside \<open>r\<close>. Offsets and lengths (\<open>usize\<close>) are
  \<open>nat\<close>: every offset the code computes is bounded by a buffer length plus a 16-bit field,
  far below the wrap-around of a 64-bit \<open>usize\<close>.
\<close>

unbundle bit_operations_syntax

section \<open>Types\<close>

type_synonym u8 = "8 word"
type_synonym u16 = "16 word"
type_synonym u32 = "32 word"
type_synonym u64 = "64 word"
type_synonym u128 = "128 word"
type_synonym bytes = "u8 list"
type_synonym 'a run = "'a option"

text \<open>An \<open>anyhow\<close> error carries its message only; the message is a literal of the source.\<close>

type_synonym err = string
type_synonym 'a res = "err + 'a"

text \<open>\<open>std::net::IpAddr\<close>: an address is its numeric value; \<open>octets()\<close> is big-endian.\<close>

datatype IpAddr = V4 u32 | V6 u128

named_theorems wire_simps \<open>evaluation of in-range slice accesses and integer conversions\<close>

text \<open>
  The \<open>?\<close> operator on a fallible call that can also panic: an error is returned at once.
\<close>

definition try_res :: "'a res run \<Rightarrow> ('a \<Rightarrow> 'b res run) \<Rightarrow> 'b res run" where
  "try_res r f = do { x \<leftarrow> r; case x of Inl e \<Rightarrow> Some (Inl e) | Inr v \<Rightarrow> f v }"

definition try_opt :: "'a option run \<Rightarrow> ('a \<Rightarrow> 'b option run) \<Rightarrow> 'b option run" where
  "try_opt r f = do { x \<leftarrow> r; case x of None \<Rightarrow> Some None | Some v \<Rightarrow> f v }"

lemma try_res_simps [simp]:
  "try_res (Some (Inr v)) f = f v" "try_res (Some (Inl e)) f = Some (Inl e)" "try_res None f = None"
  by (simp_all add: try_res_def)

lemma try_opt_simps [simp]:
  "try_opt (Some (Some v)) f = f v" "try_opt (Some None) f = Some None" "try_opt None f = None"
  by (simp_all add: try_opt_def)

lemma bind_case_Inr:
  "do { r \<leftarrow> m; case r of Inl e \<Rightarrow> Some (Inl (g e)) | Inr v \<Rightarrow> f v } = Some (Inr x) \<longleftrightarrow>
     (\<exists>v. m = Some (Inr v) \<and> f v = Some (Inr x))"
  by (cases m) (auto split: sum.splits)

lemma try_res_Inr: "try_res m f = Some (Inr x) \<longleftrightarrow> (\<exists>v. m = Some (Inr v) \<and> f v = Some (Inr x))"
  unfolding try_res_def by (rule bind_case_Inr)

section \<open>Slices\<close>

definition idx :: "'a list \<Rightarrow> nat \<Rightarrow> 'a run" where
  "idx p i = (if i < length p then Some (p ! i) else None)"

definition slice :: "'a list \<Rightarrow> nat \<Rightarrow> nat \<Rightarrow> 'a list run" where
  "slice p a b = (if a \<le> b \<and> b \<le> length p then Some (take (b - a) (drop a p)) else None)"

definition store :: "'a list \<Rightarrow> nat \<Rightarrow> 'a \<Rightarrow> 'a list run" where
  "store p i v = (if i < length p then Some (p[i := v]) else None)"

definition store_slice :: "'a list \<Rightarrow> nat \<Rightarrow> nat \<Rightarrow> 'a list \<Rightarrow> 'a list run" where
  "store_slice p a b src =
     (if a \<le> b \<and> b \<le> length p \<and> length src = b - a
      then Some (take a p @ src @ drop b p) else None)"

lemma idx_in [wire_simps]: "i < length p \<Longrightarrow> idx p i = Some (p ! i)"
  by (simp add: idx_def)

lemma idx_eq_Some [simp]: "idx p i = Some b \<longleftrightarrow> i < length p \<and> b = p ! i"
  by (auto simp: idx_def)

lemma idx_eq_None [simp]: "idx p i = None \<longleftrightarrow> length p \<le> i"
  by (simp add: idx_def not_less)

lemma slice_in [wire_simps]:
  "a \<le> b \<Longrightarrow> b \<le> length p \<Longrightarrow> slice p a b = Some (take (b - a) (drop a p))"
  by (simp add: slice_def)

lemma slice_eq_None: "slice p a b = None \<longleftrightarrow> b < a \<or> length p < b"
  by (auto simp: slice_def)

lemma length_slice: "slice p a b = Some s \<Longrightarrow> length s = b - a"
  by (auto simp: slice_def split: if_splits)

lemma store_in [wire_simps]: "i < length p \<Longrightarrow> store p i v = Some (p[i := v])"
  by (simp add: store_def)

lemma store_slice_in [wire_simps]:
  "a \<le> b \<Longrightarrow> b \<le> length p \<Longrightarrow> length src = b - a \<Longrightarrow>
   store_slice p a b src = Some (take a p @ src @ drop b p)"
  by (simp add: store_slice_def)

lemma length_store_slice: "store_slice p a b src = Some q \<Longrightarrow> length q = length p"
  by (auto simp: store_slice_def split: if_splits)

lemma nth_store_slice:
  assumes "store_slice p a b src = Some q" and "i < length p"
  shows "q ! i = (if a \<le> i \<and> i < b then src ! (i - a) else p ! i)"
  using assms by (auto simp: store_slice_def nth_append split: if_splits)

section \<open>Endian conversions\<close>

lemma unat_bound: "unat (w :: 'w::len word) < 2 ^ LENGTH('w)"
  by (rule unsigned_less)

fun of_le_nat :: "bytes \<Rightarrow> nat" where
  "of_le_nat [] = 0"
| "of_le_nat (b # bs) = unat b + 256 * of_le_nat bs"

primrec to_le_nat :: "nat \<Rightarrow> nat \<Rightarrow> bytes" where
  "to_le_nat 0 k = []"
| "to_le_nat (Suc n) k = of_nat k # to_le_nat n (k div 256)"

definition of_le :: "bytes \<Rightarrow> 'w::len word" where
  "of_le bs = of_nat (of_le_nat bs)"

definition of_be :: "bytes \<Rightarrow> 'w::len word" where
  "of_be bs = of_nat (of_le_nat (rev bs))"

definition to_le :: "nat \<Rightarrow> 'w::len word \<Rightarrow> bytes" where
  "to_le n w = to_le_nat n (unat w)"

definition to_be :: "nat \<Rightarrow> 'w::len word \<Rightarrow> bytes" where
  "to_be n w = rev (to_le_nat n (unat w))"

lemma length_to_le_nat [simp]: "length (to_le_nat n k) = n"
  by (induction n arbitrary: k) auto

lemma length_to_le [simp]: "length (to_le n w) = n"
  by (simp add: to_le_def)

lemma length_to_be [simp]: "length (to_be n w) = n"
  by (simp add: to_be_def)

lemma of_le_nat_less: "of_le_nat bs < 256 ^ length bs"
proof (induction bs)
  case (Cons b bs)
  have "unat b < 256" using unat_bound [of b] by simp
  with Cons show ?case by simp
qed simp

lemma of_to_le_nat: "of_le_nat (to_le_nat n k) = k mod 256 ^ n"
proof (induction n arbitrary: k)
  case (Suc n)
  then show ?case
    by (simp add: unat_of_nat mod_mult2_eq)
qed simp

lemma word_256: "(256 :: u8) = 0"
  by simp

lemma to_of_le_nat: "to_le_nat (length bs) (of_le_nat bs) = bs"
proof (induction bs)
  case (Cons b bs)
  have b: "unat b < 256" using unat_bound [of b] by simp
  have "(of_nat (unat b + 256 * of_le_nat bs) :: u8) = b"
    by (simp add: word_256)
  with Cons b show ?case by simp
qed simp

lemma pow_256: "(256::nat) ^ n = 2 ^ (8 * n)"
  by (simp add: power_mult)

lemma of_be_to_be [wire_simps]:
  fixes w :: "'w::len word"
  assumes "LENGTH('w) \<le> 8 * n"
  shows "of_be (to_be n w) = w"
proof -
  have "unat w < 2 ^ (8 * n)"
    using unat_bound [of w] assms by (meson less_le_trans one_le_numeral power_increasing)
  then show ?thesis
    by (simp add: of_be_def to_be_def of_to_le_nat pow_256)
qed

lemma of_le_to_le [wire_simps]:
  fixes w :: "'w::len word"
  assumes "LENGTH('w) \<le> 8 * n"
  shows "of_le (to_le n w) = w"
proof -
  have "unat w < 2 ^ (8 * n)"
    using unat_bound [of w] assms by (meson less_le_trans one_le_numeral power_increasing)
  then show ?thesis
    by (simp add: of_le_def to_le_def of_to_le_nat pow_256)
qed

lemma unat_of_be:
  assumes "8 * length bs \<le> LENGTH('w)"
  shows "unat (of_be bs :: 'w::len word) = of_le_nat (rev bs)"
proof -
  have "of_le_nat (rev bs) < 2 ^ LENGTH('w)"
    using of_le_nat_less [of "rev bs"] assms
    by (simp add: pow_256) (meson less_le_trans one_le_numeral power_increasing)
  then show ?thesis by (simp add: of_be_def unat_of_nat)
qed

lemma to_be_of_be:
  assumes "length bs = n" and "8 * n \<le> LENGTH('w)"
  shows "to_be n (of_be bs :: 'w::len word) = bs"
  using assms to_of_le_nat [of "rev bs"] by (simp add: to_be_def unat_of_be)

text \<open>Code equations that stay at word level.\<close>

primrec to_le_word :: "nat \<Rightarrow> 'w::len word \<Rightarrow> bytes" where
  "to_le_word 0 w = []"
| "to_le_word (Suc n) w = ucast w # to_le_word n (drop_bit 8 w)"

lemma to_le_nat_word: "to_le_nat n (unat w) = to_le_word n w"
proof (induction n arbitrary: w)
  case (Suc n)
  have "unat (drop_bit 8 w) = drop_bit 8 (unat w)"
    by (simp add: unsigned_drop_bit_eq take_bit_nat_eq_self [OF unat_bound])
  then have "unat w div 256 = unat (drop_bit 8 w)" by (simp add: drop_bit_eq_div)
  with Suc [of "drop_bit 8 w"] show ?case by simp
qed simp

lemma to_le_code [code]: "to_le n w = to_le_word n w"
  by (simp add: to_le_def to_le_nat_word)

lemma to_be_code [code]: "to_be n w = rev (to_le_word n w)"
  by (simp add: to_be_def to_le_nat_word)

lemma of_le_code [code]: "of_le bs = foldr (\<lambda>b a. ucast b + 256 * a) bs 0"
  by (induction bs) (simp_all add: of_le_def)

lemma of_be_code [code]: "of_be bs = foldr (\<lambda>b a. ucast b + 256 * a) (rev bs) 0"
  using of_le_code [of "rev bs"] by (simp add: of_be_def of_le_def)

definition be16 :: "u8 \<Rightarrow> u8 \<Rightarrow> u16" where
  "be16 a b = of_be [a, b]"

definition be32 :: "u8 \<Rightarrow> u8 \<Rightarrow> u8 \<Rightarrow> u8 \<Rightarrow> u32" where
  "be32 a b c d = of_be [a, b, c, d]"

lemma to_be_2: "to_be 2 w = [of_nat (unat w div 256), ucast w]"
  by (simp add: to_be_def numeral_2_eq_2)

lemma to_le_nat_4:
  "to_le_nat 4 k = [of_nat k, of_nat (k div 256), of_nat (k div 65536), of_nat (k div 16777216)]"
proof -
  have "k div 256 div 256 = k div 65536" and "k div 65536 div 256 = k div 16777216"
    by (simp_all flip: div_mult2_eq)
  moreover have "(4::nat) = Suc (Suc (Suc (Suc 0)))" by simp
  ultimately show ?thesis by (simp only: to_le_nat.simps)
qed

lemma to_be_4:
  "to_be 4 w = [of_nat (unat w div 16777216), of_nat (unat w div 65536),
                of_nat (unat w div 256), ucast w]"
  by (simp add: to_be_def to_le_nat_4)

lemma be16_split [simp]: "be16 (of_nat (unat w div 256)) (ucast w) = w"
  using of_be_to_be [of 2 w] by (simp add: be16_def to_be_2)

lemma be32_split [simp]:
  "be32 (of_nat (unat w div 16777216)) (of_nat (unat w div 65536))
        (of_nat (unat w div 256)) (ucast w) = w"
  using of_be_to_be [of 4 w] by (simp add: be32_def to_be_4)

lemma unat_be16: "unat (be16 a b) = 256 * unat a + unat b"
  by (simp add: be16_def unat_of_be)

lemma be16_bound: "unat (be16 a b) < 65536"
  using unat_bound [of "be16 a b"] by simp

text \<open>The two- and four-byte big-endian reads \<open>u16::from_be_bytes([p[i], p[i + 1]])\<close>.\<close>

definition be16_at :: "bytes \<Rightarrow> nat \<Rightarrow> u16 run" where
  "be16_at p i = do { a \<leftarrow> idx p i; b \<leftarrow> idx p (i + 1); Some (be16 a b) }"

definition be32_at :: "bytes \<Rightarrow> nat \<Rightarrow> u32 run" where
  "be32_at p i =
     do { a \<leftarrow> idx p i; b \<leftarrow> idx p (i + 1); c \<leftarrow> idx p (i + 2); d \<leftarrow> idx p (i + 3);
          Some (be32 a b c d) }"

definition u16_of :: "bytes \<Rightarrow> nat \<Rightarrow> u16" where
  "u16_of p i = be16 (p ! i) (p ! (i + 1))"

definition u32_of :: "bytes \<Rightarrow> nat \<Rightarrow> u32" where
  "u32_of p i = be32 (p ! i) (p ! (i + 1)) (p ! (i + 2)) (p ! (i + 3))"

lemma be16_at_in [wire_simps]: "i + 1 < length p \<Longrightarrow> be16_at p i = Some (u16_of p i)"
  by (simp add: be16_at_def idx_in u16_of_def)

lemma be32_at_in [wire_simps]: "i + 3 < length p \<Longrightarrow> be32_at p i = Some (u32_of p i)"
  by (simp add: be32_at_def idx_in u32_of_def)

lemma unat_u16_of: "unat (u16_of p i) < 65536"
  using unat_bound [of "u16_of p i"] by simp

lemma u16_of_cong: "p ! i = q ! i \<Longrightarrow> p ! (i + 1) = q ! (i + 1) \<Longrightarrow> u16_of p i = u16_of q i"
  by (simp add: u16_of_def)

section \<open>ASCII\<close>

definition to_ascii_lowercase :: "u8 \<Rightarrow> u8" where
  "to_ascii_lowercase b = (if 65 \<le> b \<and> b \<le> 90 then b OR 0x20 else b)"

definition eq_ignore_ascii_case :: "u8 \<Rightarrow> u8 \<Rightarrow> bool" where
  "eq_ignore_ascii_case a b \<longleftrightarrow> to_ascii_lowercase a = to_ascii_lowercase b"

definition is_ascii :: "bytes \<Rightarrow> bool" where
  "is_ascii bs \<longleftrightarrow> list_all (\<lambda>b. b < 128) bs"

definition str :: "string \<Rightarrow> bytes" where
  "str s = map of_char s"

lemma to_ascii_lowercase_idem [simp]:
  "to_ascii_lowercase (to_ascii_lowercase b) = to_ascii_lowercase b"
  by (auto simp: to_ascii_lowercase_def or.assoc)

section \<open>Arithmetic\<close>

definition saturating_sub :: "'w::len word \<Rightarrow> 'w word \<Rightarrow> 'w word" where
  "saturating_sub a b = (if a < b then 0 else a - b)"

definition saturating_add :: "'w::len word \<Rightarrow> 'w word \<Rightarrow> 'w word" where
  "saturating_add a b = (if unat a + unat b < 2 ^ LENGTH('w) then a + b else - 1)"

lemma unat_saturating_sub: "unat (saturating_sub a b) = unat a - unat b"
  by (auto simp: saturating_sub_def word_less_nat_alt not_less unat_sub word_le_nat_alt)

lemma saturating_sub_le: "saturating_sub a b \<le> a"
  by (simp add: word_le_nat_alt unat_saturating_sub)

lemma le_saturating_add_1: "a \<le> saturating_add b 1 \<longleftrightarrow> unat a \<le> unat b + 1" for a :: "'w::len word"
proof (cases "unat b + 1 < 2 ^ LENGTH('w)")
  case True
  then have "unat (b + 1) = unat b + 1" by (simp add: unat_word_ariths)
  with True show ?thesis by (simp add: saturating_add_def word_le_nat_alt)
next
  case False
  then have "unat a \<le> unat b + 1" using unat_bound [of a] by linarith
  with False show ?thesis by (simp add: saturating_add_def)
qed

section \<open>Lists\<close>

text \<open>
  \<open>slice::partition_point\<close>, on a slice in which the elements with the property come first.
\<close>

definition partition_point :: "('a \<Rightarrow> bool) \<Rightarrow> 'a list \<Rightarrow> nat" where
  "partition_point P xs = length (takeWhile P xs)"

lemma partition_point_le: "partition_point P xs \<le> length xs"
  by (simp add: partition_point_def length_takeWhile_le)

lemma take_drop_nth: "i < k \<Longrightarrow> n + i < length p \<Longrightarrow> take k (drop n p) ! i = p ! (n + i)"
  by simp

end
