(* ===== verification/Hasher.thy ===== *)
theory Hasher
  imports Prelude
begin

text \<open>
  \<open>src/hasher.rs\<close>: the FNV-1a hash used for cache keys and the configuration fingerprint.
  The hash state \<open>Fnv1a(u64)\<close> is a 64-bit word; \<open>wrapping_mul\<close> is word multiplication.
\<close>

type_synonym fnv1a = u64

definition OFFSET :: u64 where
  "OFFSET = 14695981039346656037"

definition PRIME :: u64 where
  "PRIME = 1099511628211"

definition fnv_new :: fnv1a where
  "fnv_new = OFFSET"

definition write_byte :: "fnv1a \<Rightarrow> u8 \<Rightarrow> fnv1a" where
  "write_byte h b = (h XOR ucast b) * PRIME"

primrec fnv_write :: "fnv1a \<Rightarrow> bytes \<Rightarrow> fnv1a" where
  "fnv_write h [] = h"
| "fnv_write h (b # bs) = fnv_write (write_byte h b) bs"

definition write_sep :: "fnv1a \<Rightarrow> fnv1a" where
  "write_sep h = (h XOR 0x00FFFF00) * PRIME"

definition finish :: "fnv1a \<Rightarrow> u64" where
  "finish h = h"

text \<open>
  The reference walk over a wire-format name: \<open>pos\<close> advances label by label, and the result
  pairs the hash with the offset just past the terminating empty label. The end of a label
  is capped at the end of the buffer, so the label slice is always in range.
\<close>

function write_qname_wire_from :: "fnv1a \<Rightarrow> bytes \<Rightarrow> nat \<Rightarrow> fnv1a \<times> nat" where
  "write_qname_wire_from h question pos =
     (if pos < length question then
        let len = question ! pos;
            h = write_byte h len;
            pos = pos + 1
        in if len = 0 then (h, pos)
           else let e = min (pos + unat len) (length question)
                in write_qname_wire_from
                     (fnv_write h (map to_ascii_lowercase (take (e - pos) (drop pos question))))
                     question e
      else (h, pos))"
  by pat_completeness auto
termination
  by (relation "measure (\<lambda>(h, q, pos). length q - pos)") auto

declare write_qname_wire_from.simps [simp del]

definition write_qname_wire :: "fnv1a \<Rightarrow> bytes \<Rightarrow> fnv1a \<times> nat" where
  "write_qname_wire h question = write_qname_wire_from h question 0"

lemma write_append: "fnv_write h (xs @ ys) = fnv_write (fnv_write h xs) ys"
  by (induction xs arbitrary: h) auto

text \<open>
  One step of FNV-1a is injective in the state and in the byte: the multiplier is odd, so
  two byte strings of the same length that differ in their last byte never collide.
\<close>

definition PRIME_INV :: u64 where
  "PRIME_INV = 0xce965057aff6957b"

lemma PRIME_inverse: "PRIME * PRIME_INV = 1"
  by (simp add: PRIME_def PRIME_INV_def)

lemma mult_PRIME_inject: "x * PRIME = y * PRIME \<longleftrightarrow> x = y"
proof
  assume "x * PRIME = y * PRIME"
  then have "x * (PRIME * PRIME_INV) = y * (PRIME * PRIME_INV)"
    by (simp only: mult.assoc [symmetric])
  then show "x = y" by (simp add: PRIME_inverse)
qed simp

lemma xor_right_inject: "(h::u64) XOR a = h XOR b \<longleftrightarrow> a = b"
proof
  assume "h XOR a = h XOR b"
  then have "(h XOR h) XOR a = (h XOR h) XOR b" by (simp only: xor.assoc)
  then show "a = b" by simp
qed simp

lemma xor_left_inject: "(a::u64) XOR h = b XOR h \<longleftrightarrow> a = b"
  by (simp add: xor.commute [of _ h] xor_right_inject)

lemma ucast_u8_u64_inject: "(ucast (a::u8) :: u64) = ucast b \<longleftrightarrow> a = b"
proof
  assume "(ucast a :: u64) = ucast b"
  then have "(ucast (ucast a :: u64) :: u8) = ucast (ucast b :: u64)" by (rule arg_cong)
  then show "a = b" by (simp add: ucast_up_ucast_id is_up)
qed simp

lemma write_byte_state_inject: "write_byte h b = write_byte h' b \<longleftrightarrow> h = h'"
  by (simp add: write_byte_def mult_PRIME_inject xor_left_inject)

lemma write_byte_byte_inject: "write_byte h b = write_byte h b' \<longleftrightarrow> b = b'"
  by (simp add: write_byte_def mult_PRIME_inject xor_right_inject ucast_u8_u64_inject)

lemma write_state_inject: "fnv_write h bs = fnv_write h' bs \<longleftrightarrow> h = h'"
  by (induction bs arbitrary: h h') (auto simp: write_byte_state_inject)

end
