(* ===== verification/Dns_Query.thy ===== *)
theory Dns_Query
  imports Hasher
begin

text \<open>
  \<open>src/dns/query.rs\<close> and the name walk \<open>skip_name\<close> and \<open>question_end\<close> of \<open>src/dns/mod.rs\<close>:
  recognising and validating a query, hashing its name in the same pass, and rendering
  the name as text. Every function that indexes the packet returns a \<open>run\<close>; the lemmas
  show that none of them panics on any byte string.
\<close>

section \<open>Walking names\<close>

function skip_name :: "bytes \<Rightarrow> nat \<Rightarrow> nat option" where
  "skip_name packet pos =
     (if pos < length packet then
        let len = packet ! pos;
            pos = pos + 1
        in if len = 0 then Some pos
           else if len AND 0xc0 = 0xc0 then
             (if pos < length packet then Some (pos + 1) else None)
           else if len AND 0xc0 \<noteq> 0 then None
           else let pos = pos + unat len
                in if length packet < pos then None else skip_name packet pos
      else None)"
  by pat_completeness auto
termination
  by (relation "measure (\<lambda>(p, pos). length p - pos)") auto

declare skip_name.simps [simp del]

definition question_end :: "bytes \<Rightarrow> nat option" where
  "question_end packet =
     (if length packet < 12 then None
      else case skip_name packet 12 of
        None \<Rightarrow> None
      | Some e \<Rightarrow> if length packet < e + 4 then None else Some (e + 4))"

lemma skip_name_bounds: "skip_name p pos = Some e \<Longrightarrow> pos < e \<and> e \<le> length p"
proof (induction p pos rule: skip_name.induct)
  case (1 p pos)
  let ?len = "p ! pos" and ?pos = "pos + 1 + unat (p ! pos)"
  show ?case
  proof (cases "pos < length p \<and> ?len \<noteq> 0 \<and> ?len AND 0xc0 = 0 \<and> ?pos \<le> length p")
    case True
    with "1.prems" have "skip_name p ?pos = Some e"
      by (simp add: skip_name.simps [of p pos])
    with True "1.IH" show ?thesis by force
  next
    case False
    with "1.prems" show ?thesis
      by (auto simp: skip_name.simps [of p pos] Let_def not_less split: if_splits)
  qed
qed

lemma question_end_bounds: "question_end p = Some e \<Longrightarrow> 17 \<le> e \<and> e \<le> length p"
  by (auto simp: question_end_def not_less split: if_splits option.splits
      dest!: skip_name_bounds)

section \<open>Header accessors\<close>

definition get_id :: "bytes \<Rightarrow> u16 res" where
  "get_id packet =
     (if length packet < 2 then Inl ''invalid dns packet: too short''
      else Inr (be16 (packet ! 0) (packet ! 1)))"

definition set_id :: "bytes \<Rightarrow> u16 \<Rightarrow> bytes res" where
  "set_id packet i =
     (if length packet < 2 then Inl ''invalid dns packet: too short''
      else let b = to_be 2 i in Inr (packet[0 := b ! 0, 1 := b ! 1]))"

definition is_query :: "bytes \<Rightarrow> bool" where
  "is_query packet \<longleftrightarrow> 12 \<le> length packet \<and> packet ! 2 AND 0x80 = 0"

definition is_reply :: "bytes \<Rightarrow> bool" where
  "is_reply packet \<longleftrightarrow> 12 \<le> length packet \<and> packet ! 2 AND 0x80 \<noteq> 0"

definition is_truncated :: "bytes \<Rightarrow> bool" where
  "is_truncated packet \<longleftrightarrow> 4 \<le> length packet \<and> packet ! 2 AND 0x02 \<noteq> 0"

lemma length_set_id: "set_id p i = Inr q \<Longrightarrow> length q = length p"
  by (auto simp: set_id_def Let_def split: if_splits)

lemma get_set_id: "set_id p i = Inr q \<Longrightarrow> get_id q = Inr i"
  by (cases p; cases "tl p") (auto simp: set_id_def get_id_def to_be_2 split: if_splits)

section \<open>Parsing a query\<close>

record FastQueryInfo =
  fast_id :: u16
  fast_qtype :: u16
  fast_question_end :: nat
  fast_qname_wire_hash :: fnv1a
  fast_qname_wire_hash_end :: nat

function skip_query_loop ::
  "bytes \<Rightarrow> nat \<Rightarrow> nat \<Rightarrow> fnv1a \<Rightarrow> (nat \<times> fnv1a) res run" where
  "skip_query_loop packet start pos h =
     (if pos < length packet then do {
        len \<leftarrow> idx packet pos;
        let h = write_byte h len;
        let pos = pos + 1;
        if len = 0 then Some (Inr (pos, h))
        else if len AND 0xc0 \<noteq> 0 then
          Some (Inl ''compressed qname is invalid in query question'')
        else if 63 < len \<or> length packet < pos + unat len then
          Some (Inl ''invalid dns query question'')
        else do {
          label \<leftarrow> slice packet pos (pos + unat len);
          let h = fnv_write h (map to_ascii_lowercase label);
          let pos = pos + unat len;
          if 255 < (pos - start) + 1 then Some (Inl ''qname exceeds 255-byte wire limit'')
          else skip_query_loop packet start pos h
        }
      } else Some (Inr (pos, h)))"
  by pat_completeness auto
termination
  by (relation "measure (\<lambda>(p, start, pos, h). length p - pos)") auto

declare skip_query_loop.simps [simp del]

definition question_tail :: "bytes \<Rightarrow> nat \<Rightarrow> nat res" where
  "question_tail packet pos =
     (if length packet < pos + 4 then Inl ''failed to parse dns query question''
      else Inr (pos + 4))"

definition skip_query_question :: "bytes \<Rightarrow> nat \<Rightarrow> (nat \<times> fnv1a \<times> nat) res run" where
  "skip_query_question packet start = do {
     r \<leftarrow> skip_query_loop packet start start fnv_new;
     Some (case r of
         Inl e \<Rightarrow> Inl e
       | Inr (pos, h) \<Rightarrow>
           (case question_tail packet pos of
              Inl e \<Rightarrow> Inl e
            | Inr qend \<Rightarrow> Inr (qend, h, pos - start)))
   }"

definition parse_query_fast :: "bytes \<Rightarrow> FastQueryInfo res run" where
  "parse_query_fast packet =
     (if \<not> is_query packet then Some (Inl ''not a dns query'')
      else do {
        flags \<leftarrow> idx packet 2;
        if drop_bit 3 flags AND 0x0f \<noteq> 0 then Some (Inl ''non-QUERY opcode'')
        else do {
          qdcount \<leftarrow> be16_at packet 4;
          if qdcount \<noteq> 1 then Some (Inl ''QDCOUNT must be 1'')
          else do {
            q \<leftarrow> skip_query_question packet 12;
            case q of
              Inl e \<Rightarrow> Some (Inl e)
            | Inr (qend, h, hend) \<Rightarrow> do {
                qtype \<leftarrow> be16_at packet (qend - 4);
                Some (case get_id packet of
                    Inl e \<Rightarrow> Inl e
                  | Inr i \<Rightarrow> Inr \<lparr>fast_id = i, fast_qtype = qtype, fast_question_end = qend,
                                fast_qname_wire_hash = h, fast_qname_wire_hash_end = hend\<rparr>)
              }
          }
        }
      })"

section \<open>The name as text\<close>

text \<open>
  \<open>String::from_utf8_lossy\<close>: \<open>utf8_char\<close> reads one character of a non-empty byte string
  and returns whether it is well formed and how many bytes it spans; an ill-formed prefix
  (the longest one that could start a character, at least one byte) is replaced by U+FFFD.
\<close>

definition utf8_cont :: "bytes \<Rightarrow> nat \<Rightarrow> bool" where
  "utf8_cont bs i \<longleftrightarrow> i < length bs \<and> bs ! i AND 0xc0 = 0x80"

definition utf8_second :: "bytes \<Rightarrow> u8 \<Rightarrow> u8 \<Rightarrow> bool" where
  "utf8_second bs lo hi \<longleftrightarrow> 1 < length bs \<and> lo \<le> bs ! 1 \<and> bs ! 1 \<le> hi"

definition utf8_char :: "bytes \<Rightarrow> bool \<times> nat" where
  "utf8_char bs =
     (let b = bs ! 0 in
      if b < 0x80 then (True, 1)
      else if 0xc2 \<le> b \<and> b \<le> 0xdf then
        (if utf8_cont bs 1 then (True, 2) else (False, 1))
      else if 0xe0 \<le> b \<and> b \<le> 0xef then
        (if \<not> (if b = 0xe0 then utf8_second bs 0xa0 0xbf
               else if b = 0xed then utf8_second bs 0x80 0x9f
               else utf8_second bs 0x80 0xbf) then (False, 1)
         else if \<not> utf8_cont bs 2 then (False, 2) else (True, 3))
      else if 0xf0 \<le> b \<and> b \<le> 0xf4 then
        (if \<not> (if b = 0xf0 then utf8_second bs 0x90 0xbf
               else if b = 0xf4 then utf8_second bs 0x80 0x8f
               else utf8_second bs 0x80 0xbf) then (False, 1)
         else if \<not> utf8_cont bs 2 then (False, 2)
         else if \<not> utf8_cont bs 3 then (False, 3) else (True, 4))
      else (False, 1))"

lemma utf8_char_pos: "0 < snd (utf8_char bs)"
  by (simp add: utf8_char_def Let_def)

function from_utf8_lossy :: "bytes \<Rightarrow> bytes" where
  "from_utf8_lossy bs =
     (if bs = [] then []
      else (let (ok, n) = utf8_char bs
            in (if ok then take n bs else [0xef, 0xbf, 0xbd]) @ from_utf8_lossy (drop n bs)))"
  by pat_completeness auto
termination
proof (relation "measure length", goal_cases)
  case (2 bs x ok n)
  then have "0 < n" using utf8_char_pos [of bs] by (metis snd_conv)
  with 2 show ?case by simp
qed simp

declare from_utf8_lossy.simps [simp del]

function utf8_valid :: "bytes \<Rightarrow> bool" where
  "utf8_valid bs \<longleftrightarrow>
     (if bs = [] then True
      else (let (ok, n) = utf8_char bs in ok \<and> utf8_valid (drop n bs)))"
  by pat_completeness auto
termination
proof (relation "measure length", goal_cases)
  case (2 bs x ok n)
  then have "0 < n" using utf8_char_pos [of bs] by (metis snd_conv)
  with 2 show ?case by simp
qed simp

declare utf8_valid.simps [simp del]

definition label_text :: "bytes \<Rightarrow> bytes" where
  "label_text label =
     (if is_ascii label then map to_ascii_lowercase label
      else map to_ascii_lowercase (from_utf8_lossy label))"

function qname_loop :: "bytes \<Rightarrow> nat \<Rightarrow> nat \<Rightarrow> bytes \<Rightarrow> bytes res run" where
  "qname_loop packet qe pos qname =
     (if pos < length packet \<and> pos < qe then do {
        len \<leftarrow> idx packet pos;
        let pos = pos + 1;
        if len = 0 then Some (Inr qname)
        else if len AND 0xc0 \<noteq> 0 then
          Some (Inl ''compressed qname is invalid in query question'')
        else if 63 < len \<or> qe < pos + unat len then
          Some (Inl ''invalid dns query question'')
        else do {
          let qname = (if qname \<noteq> [] then qname @ [46] else qname);
          label \<leftarrow> slice packet pos (pos + unat len);
          qname_loop packet qe (pos + unat len) (qname @ label_text label)
        }
      } else Some (Inr qname))"
  by pat_completeness auto
termination
  by (relation "measure (\<lambda>(p, qe, pos, q). length p - pos)") auto

declare qname_loop.simps [simp del]

definition qname_from_question :: "bytes \<Rightarrow> nat \<Rightarrow> bytes res run" where
  "qname_from_question packet qe =
     (if \<not> is_query packet \<or> length packet < qe then Some (Inl ''invalid dns query'')
      else qname_loop packet qe 12 [])"

section \<open>Wire names as label lists\<close>

text \<open>
  The abstract value of a wire-format name is its list of labels. \<open>enc_labels\<close> is the
  encoding of RFC 1035: each label behind its length, an empty label at the end. The
  walks over a packet are characterised once each on \<open>pre @ enc_labels ls @ rest\<close>; the
  properties below only use these characterisations.
\<close>

fun enc_labels :: "bytes list \<Rightarrow> bytes" where
  "enc_labels [] = [0]"
| "enc_labels (l # ls) = of_nat (length l) # l @ enc_labels ls"

definition label_ok :: "bytes \<Rightarrow> bool" where
  "label_ok l \<longleftrightarrow> l \<noteq> [] \<and> length l \<le> 63"

definition labels_ok :: "bytes list \<Rightarrow> bool" where
  "labels_ok ls \<longleftrightarrow> list_all label_ok ls"

definition wire_name_ok :: "bytes list \<Rightarrow> bool" where
  "wire_name_ok ls \<longleftrightarrow> labels_ok ls \<and> length (enc_labels ls) \<le> 255"

abbreviation lower_labels :: "bytes list \<Rightarrow> bytes list" where
  "lower_labels \<equiv> map (map to_ascii_lowercase)"

lemma labels_ok_simps [simp]:
  "labels_ok []" "labels_ok (l # ls) \<longleftrightarrow> label_ok l \<and> labels_ok ls"
  by (auto simp: labels_ok_def)

lemma enc_labels_pos: "0 < length (enc_labels ls)"
  by (cases ls) auto

lemma length_enc_lower [simp]: "length (enc_labels (lower_labels ls)) = length (enc_labels ls)"
  by (induction ls) auto

lemma unat_length_byte: "length l \<le> 63 \<Longrightarrow> unat (of_nat (length l) :: u8) = length l"
  by (simp add: unat_of_nat)

lemma and_c0_small: "b \<le> 63 \<Longrightarrow> (b::u8) AND 0xc0 = 0"
proof -
  assume "b \<le> 63"
  then have "take_bit 6 b = b"
    by (simp add: word_unat_eq_iff unsigned_take_bit_eq take_bit_eq_mod word_le_nat_alt unat_mod)
  then have "b AND 0xc0 = (b AND mask 6) AND 0xc0"
    by (simp add: take_bit_eq_mask)
  also have "\<dots> = b AND (mask 6 AND 0xc0)" by (simp only: and.assoc)
  also have "mask 6 AND (0xc0 :: u8) = 0" by (simp add: mask_eq_exp_minus_1)
  finally show ?thesis by simp
qed

lemma small_and_c0: "(b::u8) AND 0xc0 = 0 \<Longrightarrow> b \<le> 63"
proof -
  assume *: "b AND 0xc0 = 0"
  have "(0xc0 :: u8) = NOT (mask 6)" by (simp add: mask_eq_exp_minus_1)
  with * have "b AND NOT (mask 6) = 0" by simp
  moreover have "b = b AND (mask 6 OR NOT (mask 6))" by simp
  ultimately have "b = b AND mask 6" by (simp only: bit.conj_disj_distrib or.right_neutral)
  then have "b = take_bit 6 b" by (simp add: take_bit_eq_mask)
  moreover have "unat (take_bit 6 b) < 2 ^ 6"
    by (simp add: unsigned_take_bit_eq take_bit_eq_mod unat_mod)
  ultimately have "unat b < 64" by simp
  then show ?thesis by (simp add: word_le_nat_alt)
qed

lemma label_byte:
  assumes "label_ok l"
  shows "unat (of_nat (length l) :: u8) = length l" "(of_nat (length l) :: u8) \<noteq> 0"
    "(of_nat (length l) :: u8) AND 0xc0 = 0" "(of_nat (length l) :: u8) \<le> 63"
proof -
  show u: "unat (of_nat (length l) :: u8) = length l"
    using assms by (simp add: label_ok_def unat_length_byte)
  with assms show "(of_nat (length l) :: u8) \<noteq> 0"
    by (auto simp: label_ok_def)
  from u assms show le: "(of_nat (length l) :: u8) \<le> 63"
    by (simp add: label_ok_def word_le_nat_alt)
  then show "(of_nat (length l) :: u8) AND 0xc0 = 0" by (rule and_c0_small)
qed

section \<open>The walks on encoded names\<close>

lemma skip_name_enc:
  "labels_ok ls \<Longrightarrow>
   skip_name (pre @ enc_labels ls @ rest) (length pre) = Some (length pre + length (enc_labels ls))"
proof (induction ls arbitrary: pre)
  case Nil
  then show ?case by (simp add: skip_name.simps)
next
  case (Cons l ls)
  let ?b = "of_nat (length l) :: u8"
  from Cons.prems have l: "label_ok l" and ls: "labels_ok ls" by auto
  have "skip_name (pre @ enc_labels (l # ls) @ rest) (length pre)
      = skip_name ((pre @ ?b # l) @ enc_labels ls @ rest) (length (pre @ ?b # l))"
    using label_byte [OF l] by (subst skip_name.simps) (simp add: nth_append)
  also have "\<dots> = Some (length (pre @ ?b # l) + length (enc_labels ls))"
    by (rule Cons.IH [OF ls])
  finally show ?case by simp
qed

lemma skip_query_loop_no_panic: "skip_query_loop p s pos h \<noteq> None"
proof (induction p s pos h rule: skip_query_loop.induct)
  case (1 p s pos h)
  then show ?case
    by (auto simp: skip_query_loop.simps [of p s pos h] Let_def slice_in idx_in not_less
        simp del: not_None_eq)
qed

lemma skip_query_loop_ge: "skip_query_loop p s pos h = Some (Inr (e, h')) \<Longrightarrow> pos \<le> e"
proof (induction p s pos h rule: skip_query_loop.induct)
  case (1 p s pos h)
  from "1.prems" show ?case
    by (auto simp: skip_query_loop.simps [of p s pos h] Let_def slice_in idx_in not_less
        split: if_splits dest!: "1.IH" [rotated -1])
qed

lemma write_qname_wire_from_enc:
  "labels_ok ls \<Longrightarrow>
   write_qname_wire_from h (pre @ enc_labels ls @ rest) (length pre) =
     (fnv_write h (enc_labels (lower_labels ls)), length pre + length (enc_labels ls))"
proof (induction ls arbitrary: pre h)
  case Nil
  then show ?case by (simp add: write_qname_wire_from.simps nth_append)
next
  case (Cons l ls)
  let ?b = "of_nat (length l) :: u8"
  from Cons.prems have l: "label_ok l" and ls: "labels_ok ls" by auto
  have "write_qname_wire_from h (pre @ enc_labels (l # ls) @ rest) (length pre)
      = write_qname_wire_from (fnv_write (write_byte h ?b) (map to_ascii_lowercase l))
          ((pre @ ?b # l) @ enc_labels ls @ rest) (length (pre @ ?b # l))"
    using label_byte [OF l] by (subst write_qname_wire_from.simps) (simp add: nth_append Let_def)
  also have "\<dots> = (fnv_write (fnv_write (write_byte h ?b) (map to_ascii_lowercase l))
      (enc_labels (lower_labels ls)), length (pre @ ?b # l) + length (enc_labels ls))"
    by (rule Cons.IH [OF ls])
  finally show ?case by (simp add: write_append)
qed

lemma skip_query_loop_enc:
  "labels_ok ls \<Longrightarrow> start \<le> length pre \<Longrightarrow>
   length pre - start + length (enc_labels ls) \<le> 255 \<Longrightarrow>
   skip_query_loop (pre @ enc_labels ls @ rest) start (length pre) h =
     Some (Inr (length pre + length (enc_labels ls), fnv_write h (enc_labels (lower_labels ls))))"
proof (induction ls arbitrary: pre h)
  case Nil
  then show ?case by (simp add: skip_query_loop.simps idx_in nth_append)
next
  case (Cons l ls)
  let ?b = "of_nat (length l) :: u8"
  from Cons.prems have l: "label_ok l" and ls: "labels_ok ls" by auto
  have len: "length (pre @ ?b # l) - start + length (enc_labels ls) \<le> 255"
    using Cons.prems by simp
  then have "\<not> 254 < Suc (length pre + length l) - start"
    using enc_labels_pos [of ls] unfolding length_append list.size by linarith
  then have "skip_query_loop (pre @ enc_labels (l # ls) @ rest) start (length pre) h
      = skip_query_loop ((pre @ ?b # l) @ enc_labels ls @ rest) start (length (pre @ ?b # l))
          (fnv_write (write_byte h ?b) (map to_ascii_lowercase l))"
    using label_byte [OF l] Cons.prems
    by (subst skip_query_loop.simps) (simp add: nth_append idx_in slice_in not_less [symmetric])
  also have "\<dots> = Some (Inr (length (pre @ ?b # l) + length (enc_labels ls),
      fnv_write (fnv_write (write_byte h ?b) (map to_ascii_lowercase l))
        (enc_labels (lower_labels ls))))"
    using Cons.prems(2) by (intro Cons.IH [OF ls _ len]) simp
  finally show ?case by (simp add: write_append)
qed

text \<open>Conversely, a walk that stops inside the packet has read an encoded name.\<close>

lemma skip_query_loop_decode:
  "skip_query_loop p start pos h = Some (Inr (e, h')) \<Longrightarrow> e < length p \<Longrightarrow>
   start \<le> pos \<Longrightarrow> pos - start + 1 \<le> 255 \<Longrightarrow>
   \<exists>ls. labels_ok ls \<and> p = take pos p @ enc_labels ls @ drop e p \<and>
        e = pos + length (enc_labels ls) \<and> e - start \<le> 255"
proof (induction p start pos h rule: skip_query_loop.induct)
  case (1 p start pos h)
  let ?len = "p ! pos" and ?pos = "pos + 1 + unat (p ! pos)"
  let ?l = "take (unat (p ! pos)) (drop (pos + 1) p)"
  have pos: "pos < length p"
    using "1.prems"(1,2) by (auto simp: skip_query_loop.simps [of p start pos h] split: if_splits)
  show ?case
  proof (cases "?len = 0")
    case True
    then have "e = pos + 1"
      using "1.prems"(1) pos by (simp add: skip_query_loop.simps [of p start pos h] idx_in)
    moreover have "p = take pos p @ [0] @ drop (pos + 1) p"
      using True pos id_take_nth_drop by fastforce
    ultimately show ?thesis
      using "1.prems"(3,4) by (intro exI [of _ "[]"]) simp
  next
    case False
    have ok: "?len AND 0xc0 = 0" "?len \<le> 63" "?pos \<le> length p" "?pos - start + 1 \<le> 255"
      and rec: "skip_query_loop p start ?pos
        (fnv_write (write_byte h ?len) (map to_ascii_lowercase ?l)) = Some (Inr (e, h'))"
      using "1.prems"(1) pos False
      by (auto simp: skip_query_loop.simps [of p start pos h] idx_in slice_in Let_def not_less
          split: if_splits)
    obtain ls where ls: "labels_ok ls" "p = take ?pos p @ enc_labels ls @ drop e p"
      "e = ?pos + length (enc_labels ls)" "e - start \<le> 255"
      using "1.IH" [OF pos, of ?len] rec pos False ok "1.prems"(2,3)
      by (force simp: idx_in slice_in not_less)
    have l: "label_ok ?l" "length ?l = unat ?len"
    proof -
      show len: "length ?l = unat ?len" using ok(3) by simp
      have "0 < unat ?len" using False by (simp add: unat_gt_0)
      with len ok(2) show "label_ok ?l"
        unfolding label_ok_def by (auto simp: word_le_nat_alt simp del: length_take length_drop)
    qed
    have "take ?pos p = take pos p @ ?len # ?l"
      using pos take_add [of "Suc pos" "unat ?len" p] by (simp add: take_Suc_conv_app_nth)
    with ls l show ?thesis
      by (intro exI [of _ "?l # ls"]) auto
  qed
qed

fun join_dots :: "bytes list \<Rightarrow> bytes" where
  "join_dots [] = []"
| "join_dots [l] = l"
| "join_dots (l # m # ls) = l @ 46 # join_dots (m # ls)"

lemma from_utf8_lossy_nonempty: "bs \<noteq> [] \<Longrightarrow> from_utf8_lossy bs \<noteq> []"
  using utf8_char_pos [of bs]
  by (subst from_utf8_lossy.simps) (auto simp: Let_def split: prod.splits)

lemma label_text_nonempty: "label_ok l \<Longrightarrow> label_text l \<noteq> []"
  by (auto simp: label_text_def label_ok_def from_utf8_lossy_nonempty)

lemma qname_loop_no_panic: "qe \<le> length p \<Longrightarrow> qname_loop p qe pos q \<noteq> None"
proof (induction p qe pos q rule: qname_loop.induct)
  case (1 p qe pos q)
  then show ?case
    by (auto simp: qname_loop.simps [of p qe pos q] Let_def slice_in idx_in not_less
        simp del: not_None_eq)
qed

lemma qname_loop_enc:
  "labels_ok ls \<Longrightarrow> length pre + length (enc_labels ls) \<le> qe \<Longrightarrow>
   qname_loop (pre @ enc_labels ls @ rest) qe (length pre) q =
     Some (Inr (if q \<noteq> [] \<and> ls \<noteq> [] then q @ 46 # join_dots (map label_text ls)
                else q @ join_dots (map label_text ls)))"
proof (induction ls arbitrary: pre q)
  case Nil
  then show ?case by (simp add: qname_loop.simps idx_in)
next
  case (Cons l ls)
  let ?b = "of_nat (length l) :: u8"
  let ?q = "(if q \<noteq> [] then q @ [46] else q) @ label_text l"
  from Cons.prems have l: "label_ok l" and ls: "labels_ok ls" by auto
  have ne: "?q \<noteq> []" using label_text_nonempty [OF l] by simp
  have "qname_loop (pre @ enc_labels (l # ls) @ rest) qe (length pre) q
      = qname_loop ((pre @ ?b # l) @ enc_labels ls @ rest) qe (length (pre @ ?b # l)) ?q"
    using label_byte [OF l] Cons.prems
    by (subst qname_loop.simps) (simp add: nth_append idx_in slice_in not_less [symmetric])
  also have "\<dots> = Some (Inr (if ?q \<noteq> [] \<and> ls \<noteq> [] then ?q @ 46 # join_dots (map label_text ls)
      else ?q @ join_dots (map label_text ls)))"
    using Cons.prems(2) by (intro Cons.IH [OF ls]) simp
  also have "\<dots> = Some (Inr (if q \<noteq> [] \<and> l # ls \<noteq> []
      then q @ 46 # join_dots (map label_text (l # ls))
      else q @ join_dots (map label_text (l # ls))))"
    using ne by (cases ls) simp_all
  finally show ?case .
qed

section \<open>What the parser accepts\<close>

text \<open>
  The accepted packets: a twelve-byte header with QR and OPCODE zero and QDCOUNT one, a
  well-formed name of at most 255 bytes, four bytes of type and class, anything behind.
\<close>

definition query_shape :: "bytes \<Rightarrow> bytes list \<Rightarrow> bytes \<Rightarrow> bytes \<Rightarrow> bytes \<Rightarrow> bool" where
  "query_shape hdr ls tail rest p \<longleftrightarrow>
     p = hdr @ enc_labels ls @ tail @ rest \<and> length hdr = 12 \<and> length tail = 4 \<and>
     hdr ! 2 AND 0x80 = 0 \<and> drop_bit 3 (hdr ! 2) AND 0x0f = 0 \<and>
     be16 (hdr ! 4) (hdr ! 5) = 1 \<and> wire_name_ok ls"

definition query_info :: "bytes \<Rightarrow> bytes list \<Rightarrow> bytes \<Rightarrow> FastQueryInfo" where
  "query_info hdr ls tail =
     \<lparr>fast_id = be16 (hdr ! 0) (hdr ! 1), fast_qtype = be16 (tail ! 0) (tail ! 1),
      fast_question_end = 12 + length (enc_labels ls) + 4,
      fast_qname_wire_hash = fnv_write fnv_new (enc_labels (lower_labels ls)),
      fast_qname_wire_hash_end = length (enc_labels ls)\<rparr>"

lemma parse_query_fast_shape:
  assumes "query_shape hdr ls tail rest p"
  shows "parse_query_fast p = Some (Inr (query_info hdr ls tail))"
proof -
  from assms have p: "p = hdr @ enc_labels ls @ tail @ rest" and hdr: "length hdr = 12"
    and tl: "length tail = 4" and ls: "labels_ok ls" "length (enc_labels ls) \<le> 255"
    by (auto simp: query_shape_def wire_name_ok_def)
  have "skip_query_loop p 12 12 fnv_new =
      Some (Inr (12 + length (enc_labels ls), fnv_write fnv_new (enc_labels (lower_labels ls))))"
    using skip_query_loop_enc [of ls 12 hdr "tail @ rest" fnv_new] ls hdr p by simp
  then have "skip_query_question p 12 = Some (Inr (12 + length (enc_labels ls) + 4,
      fnv_write fnv_new (enc_labels (lower_labels ls)), length (enc_labels ls)))"
    using p hdr tl by (simp add: skip_query_question_def question_tail_def)
  then show ?thesis
    using assms p hdr tl
    by (simp add: parse_query_fast_def is_query_def query_shape_def query_info_def idx_in
        be16_at_in u16_of_def get_id_def nth_append)
qed

lemma parse_query_fast_decode:
  assumes "parse_query_fast p = Some (Inr info)"
  shows "\<exists>hdr ls tail rest. query_shape hdr ls tail rest p \<and> info = query_info hdr ls tail"
proof -
  from assms have q: "is_query p" "drop_bit 3 (p ! 2) AND 0x0f = 0" "be16 (p ! 4) (p ! 5) = 1"
    by (auto simp: parse_query_fast_def is_query_def idx_in be16_at_in u16_of_def split: if_splits)
  from assms obtain e h where loop: "skip_query_loop p 12 12 fnv_new = Some (Inr (e, h))"
    and e: "e + 4 \<le> length p"
    by (auto simp: parse_query_fast_def skip_query_question_def question_tail_def not_less
        split: if_splits sum.splits option.splits bind_splits)
  from skip_query_loop_decode [OF loop] e obtain ls where ls: "labels_ok ls"
    "p = take 12 p @ enc_labels ls @ drop e p" "e = 12 + length (enc_labels ls)" "e - 12 \<le> 255"
    by auto
  let ?hdr = "take 12 p" and ?tail = "take 4 (drop e p)" and ?rest = "drop (e + 4) p"
  have "p = ?hdr @ enc_labels ls @ ?tail @ ?rest"
    using ls(2) by (metis append_take_drop_id drop_drop add.commute)
  then have "query_shape ?hdr ls ?tail ?rest p"
    using q e ls by (simp add: query_shape_def wire_name_ok_def is_query_def)
  with parse_query_fast_shape [OF this] assms show ?thesis by auto
qed

lemma parse_query_fast_total: "\<exists>r. parse_query_fast p = Some r"
proof -
  have "skip_query_question p 12 \<noteq> None"
    using skip_query_loop_no_panic [of p 12 12 fnv_new]
    by (auto simp: skip_query_question_def)
  moreover have "12 \<le> e \<and> e \<le> length p \<and> 4 \<le> e"
    if "skip_query_question p 12 = Some (Inr (e, h, n))" for e h n
    using that by (auto simp: skip_query_question_def question_tail_def
        split: if_splits sum.splits bind_splits dest: skip_query_loop_ge)
  ultimately show ?thesis
    by (force simp: parse_query_fast_def is_query_def idx_in be16_at_in u16_of_def
        split: if_splits sum.splits)
qed

lemma question_end_shape:
  assumes "query_shape hdr ls tail rest p"
  shows "question_end p = Some (12 + length (enc_labels ls) + 4)"
proof -
  from assms have p: "p = hdr @ enc_labels ls @ tail @ rest" and hdr: "length hdr = 12"
    and tl: "length tail = 4" and ls: "labels_ok ls"
    by (auto simp: query_shape_def wire_name_ok_def)
  have "skip_name p 12 = Some (12 + length (enc_labels ls))"
    using skip_name_enc [OF ls, of hdr "tail @ rest"] p hdr by simp
  then show ?thesis using p hdr tl by (simp add: question_end_def)
qed

lemma qname_from_question_shape:
  assumes "query_shape hdr ls tail rest p"
  shows "qname_from_question p (12 + length (enc_labels ls) + 4) =
         Some (Inr (join_dots (map label_text ls)))"
proof -
  from assms have p: "p = hdr @ enc_labels ls @ tail @ rest" and hdr: "length hdr = 12"
    and tl: "length tail = 4" and ls: "labels_ok ls" and q: "is_query p"
    by (auto simp: query_shape_def wire_name_ok_def is_query_def nth_append)
  have "qname_loop p (12 + length (enc_labels ls) + 4) 12 [] =
      Some (Inr (join_dots (map label_text ls)))"
    using qname_loop_enc [OF ls, of hdr "12 + length (enc_labels ls) + 4" "tail @ rest" "[]"] p hdr
    by simp
  then show ?thesis using p hdr tl q by (simp add: qname_from_question_def)
qed

section \<open>Properties\<close>

text \<open>
  (C7) The query parser is total and exact: it never panics, and it accepts precisely the
  packets made of a header with QR and OPCODE zero and QDCOUNT one, an uncompressed name
  of labels of 1 to 63 bytes and at most 255 bytes in all, a type and a class, followed by
  anything. What it returns is the id, the type, the end of the question, and the hash of
  the lower-cased name.
\<close>

theorem parse_query_fast_exact:
  "(\<exists>r. parse_query_fast p = Some r) \<and>
   (parse_query_fast p = Some (Inr info) \<longleftrightarrow>
     (\<exists>hdr ls tail rest. query_shape hdr ls tail rest p \<and> info = query_info hdr ls tail))"
  using parse_query_fast_total parse_query_fast_decode parse_query_fast_shape by metis

text \<open>
  (C19) One name, three readers: on every accepted query the general walker \<open>question_end\<close>
  agrees with the fused parser on where the question ends, the hash computed while parsing
  is the one \<open>write_qname_wire\<close> computes from the packet, and the textual name is the
  dot-joined labels. The end of the question lies between bytes 17 and 271 and within the
  packet.
\<close>

theorem accepted_query_readers_agree:
  assumes "parse_query_fast p = Some (Inr info)"
  shows "question_end p = Some (fast_question_end info) \<and>
    17 \<le> fast_question_end info \<and> fast_question_end info \<le> 271 \<and>
    fast_question_end info \<le> length p \<and>
    fast_qname_wire_hash_end info = fast_question_end info - 16 \<and>
    write_qname_wire fnv_new (drop 12 p) =
      (fast_qname_wire_hash info, fast_qname_wire_hash_end info) \<and>
    (\<exists>ls. take (fast_qname_wire_hash_end info) (drop 12 p) = enc_labels ls \<and> wire_name_ok ls \<and>
       qname_from_question p (fast_question_end info) = Some (Inr (join_dots (map label_text ls))))"
proof -
  from parse_query_fast_decode [OF assms] obtain hdr ls tail rest
    where sh: "query_shape hdr ls tail rest p" and info: "info = query_info hdr ls tail"
    by blast
  then have p: "p = hdr @ enc_labels ls @ tail @ rest" and hdr: "length hdr = 12"
    and tl: "length tail = 4" and ls: "labels_ok ls" "length (enc_labels ls) \<le> 255"
      "wire_name_ok ls"
    by (auto simp: query_shape_def wire_name_ok_def)
  have d: "drop 12 p = [] @ enc_labels ls @ tail @ rest" using p hdr by simp
  have "write_qname_wire fnv_new (drop 12 p) =
      (fnv_write fnv_new (enc_labels (lower_labels ls)), length (enc_labels ls))"
    using write_qname_wire_from_enc [OF ls(1), of fnv_new "[]" "tail @ rest"] d
    by (simp add: write_qname_wire_def)
  moreover have "0 < length (enc_labels ls)" by (rule enc_labels_pos)
  moreover have "take (length (enc_labels ls)) (drop 12 p) = enc_labels ls" using d by simp
  moreover have "length p = 12 + length (enc_labels ls) + 4 + length rest" using p hdr tl by simp
  ultimately show ?thesis
    using question_end_shape [OF sh] qname_from_question_shape [OF sh] ls
    unfolding info query_info_def by (simp del: length_greater_0_conv) blast
qed

definition sample_query :: bytes where
  "sample_query = [0x12, 0x34, 1, 0, 0, 1, 0, 0, 0, 0, 0, 0, 1, 65, 2, 98, 99, 0, 0, 28, 0, 1]"

definition sample_query_info :: FastQueryInfo where
  "sample_query_info = query_info (take 12 sample_query) [[65], [98, 99]] [0, 28, 0, 1]"

theorem accepted_query_readers_agree_witness:
  "question_end sample_query = Some 22 \<and>
   qname_from_question sample_query 22 = Some (Inr [97, 46, 98, 99]) \<and>
   write_qname_wire fnv_new (drop 12 sample_query) = (fast_qname_wire_hash sample_query_info, 6)"
proof -
  have acc: "parse_query_fast sample_query = Some (Inr sample_query_info)"
    and e: "fast_question_end sample_query_info = 22" "fast_qname_wire_hash_end sample_query_info = 6"
    and q: "qname_from_question sample_query 22 = Some (Inr [97, 46, 98, 99])"
    by code_simp+
  from accepted_query_readers_agree [OF acc] e q show ?thesis by simp
qed

end
