(* ===== verification/Dns_Builder.thy ===== *)
theory Dns_Builder
  imports Dns_Query
begin

text \<open>
  \<open>src/dns/builder.rs\<close>: construction of local replies and of synthetic queries. The
  \<open>ResponseBuilder\<close> struct has the single field \<open>buf\<close>, so its methods are functions on the
  buffer.
\<close>

section \<open>ResponseBuilder\<close>

definition from_query :: "bytes \<Rightarrow> nat \<Rightarrow> bytes res run" where
  "from_query query qe =
     (if length query < 12 \<or> qe < 12 \<or> length query < qe then Some (Inl ''invalid dns query'')
      else do {
        buf \<leftarrow> slice query 0 qe;
        flags \<leftarrow> idx query 2;
        buf \<leftarrow> store buf 2 (0x80 OR (flags AND 0x01));
        buf \<leftarrow> store buf 3 0x00;
        buf \<leftarrow> store buf 4 0x00;
        buf \<leftarrow> store buf 5 0x01;
        buf \<leftarrow> store buf 6 0x00;
        buf \<leftarrow> store buf 7 0x00;
        buf \<leftarrow> store buf 8 0x00;
        buf \<leftarrow> store buf 9 0x00;
        buf \<leftarrow> store buf 10 0x00;
        buf \<leftarrow> store buf 11 0x00;
        Some (Inr buf)
      })"

definition set_ra :: "bytes \<Rightarrow> bytes run" where
  "set_ra buf = do { b \<leftarrow> idx buf 3; store buf 3 (b OR 0x80) }"

definition set_rcode :: "bytes \<Rightarrow> u8 \<Rightarrow> bytes run" where
  "set_rcode buf rc = do { b \<leftarrow> idx buf 3; store buf 3 ((b AND 0xf0) OR (rc AND 0x0f)) }"

section \<open>Replies\<close>

definition empty_reply :: "bytes \<Rightarrow> nat \<Rightarrow> bytes res run" where
  "empty_reply query qe =
     try_res (from_query query qe) (\<lambda>b. do { b \<leftarrow> set_ra b; Some (Inr b) })"

definition rcode_reply :: "bytes \<Rightarrow> nat \<Rightarrow> u8 \<Rightarrow> bytes res run" where
  "rcode_reply query qe rc =
     try_res (from_query query qe) (\<lambda>b. do { b \<leftarrow> set_ra b; b \<leftarrow> set_rcode b rc; Some (Inr b) })"

definition servfail_reply :: "bytes \<Rightarrow> nat \<Rightarrow> bytes res run" where
  "servfail_reply query qe =
     try_res (from_query query qe) (\<lambda>b. do { b \<leftarrow> set_ra b; b \<leftarrow> set_rcode b 2; Some (Inr b) })"

definition notimp_reply :: "bytes \<Rightarrow> nat \<Rightarrow> bytes res run" where
  "notimp_reply query qe =
     try_res (from_query query qe) (\<lambda>b. do { b \<leftarrow> set_ra b; b \<leftarrow> set_rcode b 4; Some (Inr b) })"

definition notimp_opcode_reply :: "bytes \<Rightarrow> bytes run" where
  "notimp_opcode_reply query =
     (if length query < 12 then Some []
      else do {
        let buf = replicate 12 0;
        q0 \<leftarrow> idx query 0;
        buf \<leftarrow> store buf 0 q0;
        q1 \<leftarrow> idx query 1;
        buf \<leftarrow> store buf 1 q1;
        q2 \<leftarrow> idx query 2;
        buf \<leftarrow> store buf 2 (0x80 OR (q2 AND 0x79));
        buf \<leftarrow> store buf 3 0x84;
        Some buf
      })"

definition a_reply :: "bytes \<Rightarrow> nat \<Rightarrow> u32 \<Rightarrow> u32 \<Rightarrow> bytes res run" where
  "a_reply query qe addr ttl =
     try_res (from_query query qe) (\<lambda>b. do {
       b \<leftarrow> set_ra b;
       b \<leftarrow> store b 7 1;
       Some (Inr (b @ [0xC0, 0x0C] @ [0x00, 0x01] @ [0x00, 0x01] @ to_be 4 ttl
                    @ [0x00, 0x04] @ to_be 4 addr))
     })"

definition aaaa_reply :: "bytes \<Rightarrow> nat \<Rightarrow> u128 \<Rightarrow> u32 \<Rightarrow> bytes res run" where
  "aaaa_reply query qe addr ttl =
     try_res (from_query query qe) (\<lambda>b. do {
       b \<leftarrow> set_ra b;
       b \<leftarrow> store b 7 1;
       Some (Inr (b @ [0xC0, 0x0C] @ [0x00, 0x1C] @ [0x00, 0x01] @ to_be 4 ttl
                    @ [0x00, 0x10] @ to_be 16 addr))
     })"

section \<open>Synthetic queries\<close>

text \<open>\<open>trim_end_matches('.')\<close> and \<open>split('.')\<close> on the bytes of a string.\<close>

definition trim_end_dots :: "bytes \<Rightarrow> bytes" where
  "trim_end_dots s = rev (dropWhile (\<lambda>b. b = 46) (rev s))"

fun split_dots :: "bytes \<Rightarrow> bytes list" where
  "split_dots [] = [[]]"
| "split_dots (b # bs) =
     (if b = 46 then [] # split_dots bs
      else case split_dots bs of [] \<Rightarrow> [[b]] | l # ls \<Rightarrow> (b # l) # ls)"

fun encode_labels_loop :: "nat \<Rightarrow> bytes list \<Rightarrow> bytes \<Rightarrow> bytes res" where
  "encode_labels_loop tot [] out = Inr out"
| "encode_labels_loop tot (label # ls) out =
     (let len = length label in
      if len = 0 then Inl ''DNS name contains an empty label''
      else if 63 < len then Inl ''DNS label too long''
      else let tot = tot + 1 + len in
        if 255 < tot then Inl ''DNS name exceeds 255-byte wire limit''
        else encode_labels_loop tot ls (out @ of_nat len # label))"

definition encode_dns_name :: "bytes \<Rightarrow> bytes res" where
  "encode_dns_name name =
     (let name = trim_end_dots name in
      if name = [] then Inr [0]
      else case encode_labels_loop 1 (split_dots name) [] of
        Inl e \<Rightarrow> Inl e
      | Inr out \<Rightarrow> Inr (out @ [0]))"

definition synthetic_query :: "bytes \<Rightarrow> u16 \<Rightarrow> (bytes \<times> nat) res" where
  "synthetic_query name qtype =
     (case encode_dns_name name of
        Inl e \<Rightarrow> Inl e
      | Inr n \<Rightarrow>
          let buf = [0x00, 0x00, 0x01, 0x00, 0x00, 0x01, 0x00, 0x00, 0x00, 0x00, 0x00, 0x00]
                    @ n @ to_be 2 qtype @ [0x00, 0x01]
          in Inr (buf, length buf))"

section \<open>Encoding names\<close>

lemma split_dots_nonempty: "split_dots s \<noteq> []"
  by (induction s) (auto split: list.splits)

lemma join_split_dots: "join_dots (split_dots s) = s"
proof (induction s)
  case (Cons b s)
  obtain l ls where "split_dots s = l # ls"
    using split_dots_nonempty [of s] by (cases "split_dots s") auto
  with Cons show ?case by (cases ls) auto
qed simp

lemma encode_labels_loop_Inr:
  "encode_labels_loop tot ls out = Inr w \<Longrightarrow> tot \<le> 255 \<Longrightarrow>
   labels_ok ls \<and> w @ [0] = out @ enc_labels ls \<and> tot + length (enc_labels ls) \<le> 256"
  by (induction ls arbitrary: tot out)
     (fastforce simp: Let_def label_ok_def not_less split: if_splits)+

lemma encode_labels_loop_ok:
  "labels_ok ls \<Longrightarrow> tot + length (enc_labels ls) \<le> 256 \<Longrightarrow>
   \<exists>w. encode_labels_loop tot ls out = Inr w"
proof (induction ls arbitrary: tot out)
  case (Cons l ls)
  moreover have "0 < length (enc_labels ls)" by (rule enc_labels_pos)
  ultimately show ?case
    by (auto simp: Let_def label_ok_def simp del: length_greater_0_conv)
qed simp

definition name_labels :: "bytes \<Rightarrow> bytes list" where
  "name_labels name = (if trim_end_dots name = [] then [] else split_dots (trim_end_dots name))"

lemma encode_dns_name_Inr:
  assumes "encode_dns_name name = Inr w"
  shows "wire_name_ok (name_labels name) \<and> w = enc_labels (name_labels name)"
proof (cases "trim_end_dots name = []")
  case True
  with assms show ?thesis
    by (auto simp: encode_dns_name_def name_labels_def wire_name_ok_def)
next
  case False
  then obtain out where out: "encode_labels_loop 1 (split_dots (trim_end_dots name)) [] = Inr out"
    and w: "w = out @ [0]"
    using assms by (auto simp: encode_dns_name_def Let_def split: sum.splits)
  from encode_labels_loop_Inr [OF out] w False show ?thesis
    by (simp add: name_labels_def wire_name_ok_def)
qed

lemma encode_dns_name_ok:
  assumes "wire_name_ok (name_labels name)"
  shows "encode_dns_name name = Inr (enc_labels (name_labels name))"
proof (cases "trim_end_dots name = []")
  case True
  then show ?thesis by (simp add: encode_dns_name_def name_labels_def)
next
  case False
  then obtain out where out: "encode_labels_loop 1 (split_dots (trim_end_dots name)) [] = Inr out"
    using assms encode_labels_loop_ok [of "split_dots (trim_end_dots name)" 1 "[]"]
    by (auto simp: name_labels_def wire_name_ok_def)
  from encode_labels_loop_Inr [OF out] out False show ?thesis
    by (simp add: encode_dns_name_def name_labels_def)
qed

section \<open>The shape of local replies\<close>

text \<open>
  A local reply is a fresh header (id and RD of the query, QR and RA set, one question, an
  answer count) in front of the query's question bytes.
\<close>

definition reply_packet :: "bytes \<Rightarrow> nat \<Rightarrow> u8 \<Rightarrow> u8 \<Rightarrow> bytes" where
  "reply_packet query qe rc an =
     [query ! 0, query ! 1, 0x80 OR (query ! 2 AND 0x01), 0x80 OR (rc AND 0x0f), 0, 1, 0, an, 0, 0, 0, 0]
     @ drop 12 (take qe query)"

lemma header_split:
  assumes "12 \<le> length p"
  obtains a0 a1 a2 a3 a4 a5 a6 a7 a8 a9 a10 a11 r
  where "p = [a0, a1, a2, a3, a4, a5, a6, a7, a8, a9, a10, a11] @ r"
  using assms by (auto simp: numeral_eq_Suc Suc_le_length_iff)

lemma from_query_eq:
  assumes "12 \<le> qe" and "qe \<le> length query"
  shows "from_query query qe =
    Some (Inr ([query ! 0, query ! 1, 0x80 OR (query ! 2 AND 0x01), 0, 0, 1, 0, 0, 0, 0, 0, 0]
               @ drop 12 (take qe query)))"
proof -
  from assms have "12 \<le> length query" by simp
  then obtain a0 a1 a2 a3 a4 a5 a6 a7 a8 a9 a10 a11 r
    where q: "query = [a0, a1, a2, a3, a4, a5, a6, a7, a8, a9, a10, a11] @ r"
    by (rule header_split)
  obtain k where k: "qe = 12 + k" using assms(1) le_Suc_ex by blast
  let ?h = "[a0, a1, a2, a3, a4, a5, a6, a7, a8, a9, a10, a11]"
  have "length ?h = 12" by simp
  then have t: "take qe query = ?h @ take k r"
    unfolding q k by (simp only: take_append) simp
  have "slice query 0 qe = Some (take qe query)" using assms by (simp add: slice_in)
  then show ?thesis
    using assms unfolding from_query_def by (simp add: t idx_in store_in) (simp add: q)
qed

lemma reply_eqs:
  assumes "12 \<le> qe" and "qe \<le> length query"
  shows "rcode_reply query qe rc = Some (Inr (reply_packet query qe rc 0))"
    "empty_reply query qe = Some (Inr (reply_packet query qe 0 0))"
    "servfail_reply query qe = Some (Inr (reply_packet query qe 2 0))"
    "notimp_reply query qe = Some (Inr (reply_packet query qe 4 0))"
    "a_reply query qe addr ttl = Some (Inr (reply_packet query qe 0 1
       @ [0xC0, 0x0C, 0, 1, 0, 1] @ to_be 4 ttl @ [0, 4] @ to_be 4 addr))"
    "aaaa_reply query qe addr6 ttl = Some (Inr (reply_packet query qe 0 1
       @ [0xC0, 0x0C, 0, 0x1C, 0, 1] @ to_be 4 ttl @ [0, 0x10] @ to_be 16 addr6))"
  by (simp_all add: rcode_reply_def empty_reply_def servfail_reply_def notimp_reply_def
      a_reply_def aaaa_reply_def from_query_eq [OF assms] set_ra_def set_rcode_def
      reply_packet_def idx_in store_in)

lemma length_reply_packet: "12 \<le> qe \<Longrightarrow> qe \<le> length q \<Longrightarrow> length (reply_packet q qe rc an) = qe"
  by (simp add: reply_packet_def)

section \<open>Properties\<close>

lemma be16_lits [simp]: "be16 0 0 = 0" "be16 0 1 = 1" "be16 0 4 = 4" "be16 0 16 = 16" "be16 0 28 = 28"
  by code_simp+

lemma label_text_ascii: "is_ascii l \<Longrightarrow> label_text l = map to_ascii_lowercase l"
  by (simp add: label_text_def)

lemma split_dots_ascii: "is_ascii s \<Longrightarrow> l \<in> set (split_dots s) \<Longrightarrow> is_ascii l"
  by (induction s arbitrary: l) (auto simp: is_ascii_def split: if_splits list.splits)

lemma trim_end_dots_ascii: "is_ascii s \<Longrightarrow> is_ascii (trim_end_dots s)"
  by (auto simp: trim_end_dots_def is_ascii_def list_all_iff dest: set_dropWhileD)

lemma lower_join_dots: "map to_ascii_lowercase (join_dots ls) = join_dots (lower_labels ls)"
  by (induction ls rule: join_dots.induct) (auto simp: to_ascii_lowercase_def)

lemma join_name_labels: "join_dots (name_labels name) = trim_end_dots name"
  by (simp add: name_labels_def join_split_dots)

text \<open>
  (C20) Round trip of the health-probe and prefetch queries: the query synthesised for an
  ASCII name is accepted by the server's own parser with id zero and the requested type,
  the returned question end is the one the parser finds (the whole packet), and reading
  the name back gives the original name in lower case without its trailing dots.
\<close>

theorem synthetic_query_round_trip:
  assumes syn: "synthetic_query name qtype = Inr (p, qe)" and asc: "is_ascii name"
  shows "\<exists>info. parse_query_fast p = Some (Inr info) \<and> fast_id info = 0 \<and>
    fast_qtype info = qtype \<and> fast_question_end info = qe \<and> qe = length p \<and>
    qname_from_question p qe = Some (Inr (map to_ascii_lowercase (trim_end_dots name)))"
proof -
  let ?ls = "name_labels name"
  let ?hdr = "[0, 0, 1, 0, 0, 1, 0, 0, 0, 0, 0, 0] :: bytes"
  let ?tail = "to_be 2 qtype @ [0, 1]"
  from syn obtain w where w: "encode_dns_name name = Inr w"
    by (auto simp: synthetic_query_def split: sum.splits)
  from encode_dns_name_Inr [OF w] have ok: "wire_name_ok ?ls" and w_eq: "w = enc_labels ?ls" by auto
  have p: "p = ?hdr @ enc_labels ?ls @ ?tail @ []" and qe: "qe = length p"
    using syn by (auto simp: synthetic_query_def w w_eq Let_def)
  have sh: "query_shape ?hdr ?ls ?tail [] p"
    using ok p by (simp add: query_shape_def to_be_2)
  have len: "qe = 12 + length (enc_labels ?ls) + 4" using p qe by (simp add: to_be_2)
  have "map label_text ?ls = lower_labels ?ls"
    using split_dots_ascii [OF trim_end_dots_ascii [OF asc]]
    by (auto simp: name_labels_def label_text_ascii)
  then have "join_dots (map label_text ?ls) = map to_ascii_lowercase (trim_end_dots name)"
    by (simp only: lower_join_dots [symmetric] join_name_labels)
  then have "qname_from_question p qe = Some (Inr (map to_ascii_lowercase (trim_end_dots name)))"
    using qname_from_question_shape [OF sh] len by (simp only:)
  moreover have "fast_id (query_info ?hdr ?ls ?tail) = 0"
    "fast_qtype (query_info ?hdr ?ls ?tail) = qtype"
    "fast_question_end (query_info ?hdr ?ls ?tail) = qe"
    using len be16_split [of qtype] by (simp_all add: query_info_def to_be_2)
  ultimately show ?thesis using parse_query_fast_shape [OF sh] qe by blast
qed

theorem synthetic_query_round_trip_witness:
  "\<exists>info. parse_query_fast (fst (projr (synthetic_query (str ''Ex.org.'') 28))) = Some (Inr info) \<and>
    fast_id info = 0 \<and> fast_qtype info = 28 \<and> fast_question_end info = 24"
proof -
  have "synthetic_query (str ''Ex.org.'') 28 =
      Inr ([0, 0, 1, 0, 0, 1, 0, 0, 0, 0, 0, 0, 2, 69, 120, 3, 111, 114, 103, 0, 0, 28, 0, 1], 24)"
    and "is_ascii (str ''Ex.org.'')"
    by code_simp+
  from synthetic_query_round_trip [OF this] this(1) show ?thesis by auto
qed

text \<open>
  (C26) Which names can be queried: encoding succeeds exactly on the names whose labels
  (after dropping trailing dots) are 1 to 63 bytes long and fit in 255 bytes, and then
  yields the standard wire encoding.
\<close>

theorem encode_dns_name_exact:
  "encode_dns_name name = Inr w \<longleftrightarrow>
     wire_name_ok (name_labels name) \<and> w = enc_labels (name_labels name)"
  using encode_dns_name_Inr encode_dns_name_ok by (metis sum.inject(2))

end
