(* ===== verification/Dns_Ttl.thy ===== *)
theory Dns_Ttl
  imports Dns_Builder
begin

text \<open>
  \<open>src/dns/ttl.rs\<close> and \<open>extract_answer_records\<close> of \<open>src/dns/mod.rs\<close>: walking the resource
  records of a response, the TTL a response is cached for, and the rewriting of TTL fields
  when a cached response is served. A TTL offset is the \<open>u32\<close> the code stores.
\<close>

section \<open>Response codes\<close>

definition rcode :: "bytes \<Rightarrow> u8" where
  "rcode packet = (if length packet < 4 then 0 else packet ! 3 AND 0x0f)"

definition is_good_reply :: "bytes \<Rightarrow> bool" where
  "is_good_reply packet \<longleftrightarrow>
     \<not> (\<not> is_reply packet \<or> length packet < 12) \<and> (rcode packet = 0 \<or> rcode packet = 3)"

section \<open>Resource records\<close>

definition parse_rr :: "bytes \<Rightarrow> nat \<Rightarrow> (u16 \<times> u16 \<times> u32 \<times> nat \<times> nat) option run" where
  "parse_rr packet pos =
     try_opt (Some (skip_name packet pos)) (\<lambda>name_end.
       if length packet < name_end + 10 then Some None
       else do {
         rr_type \<leftarrow> be16_at packet name_end;
         cls \<leftarrow> be16_at packet (name_end + 2);
         ttl \<leftarrow> be32_at packet (name_end + 4);
         rdlen \<leftarrow> be16_at packet (name_end + 8);
         let rdata_start = name_end + 10;
         let rr_end = rdata_start + unat rdlen;
         if length packet < rr_end then Some None
         else Some (Some (rr_type, cls, ttl, rdata_start, rr_end))
       })"

fun answer_ips_loop :: "bytes \<Rightarrow> nat \<Rightarrow> nat \<Rightarrow> IpAddr list \<Rightarrow> IpAddr list run" where
  "answer_ips_loop packet 0 pos ips = Some ips"
| "answer_ips_loop packet (Suc n) pos ips = do {
     rr \<leftarrow> parse_rr packet pos;
     case rr of
       None \<Rightarrow> Some ips
     | Some (rr_type, cls, ttl, rdata, rr_end) \<Rightarrow>
         if rr_type = 1 \<and> rr_end - rdata = 4 then do {
           a \<leftarrow> idx packet rdata;
           b \<leftarrow> idx packet (rdata + 1);
           c \<leftarrow> idx packet (rdata + 2);
           d \<leftarrow> idx packet (rdata + 3);
           answer_ips_loop packet n rr_end (ips @ [V4 (of_be [a, b, c, d])])
         }
         else if rr_type = 28 \<and> rr_end - rdata = 16 then do {
           octets \<leftarrow> slice packet rdata rr_end;
           answer_ips_loop packet n rr_end (ips @ [V6 (of_be octets)])
         }
         else answer_ips_loop packet n rr_end ips
   }"

definition answer_ips :: "bytes \<Rightarrow> nat \<Rightarrow> IpAddr list run" where
  "answer_ips packet qe =
     (if length packet < 12 \<or> length packet < qe then Some []
      else do {
        an \<leftarrow> be16_at packet 6;
        answer_ips_loop packet (unat an) qe []
      })"

fun answer_rr_types_loop :: "bytes \<Rightarrow> nat \<Rightarrow> nat \<Rightarrow> u16 list \<Rightarrow> u16 list run" where
  "answer_rr_types_loop packet 0 pos types = Some types"
| "answer_rr_types_loop packet (Suc n) pos types = do {
     rr \<leftarrow> parse_rr packet pos;
     case rr of
       None \<Rightarrow> Some types
     | Some (rr_type, cls, ttl, rdata, rr_end) \<Rightarrow>
         answer_rr_types_loop packet n rr_end
           (if rr_type \<in> set types then types else types @ [rr_type])
   }"

definition answer_rr_types :: "bytes \<Rightarrow> nat \<Rightarrow> u16 list run" where
  "answer_rr_types packet qe =
     (if length packet < 12 \<or> length packet < qe then Some []
      else do {
        an \<leftarrow> be16_at packet 6;
        answer_rr_types_loop packet (unat an) qe []
      })"

definition question_qclass :: "bytes \<Rightarrow> nat \<Rightarrow> u16 option run" where
  "question_qclass packet qe =
     (if qe < 2 \<or> length packet < qe then Some None
      else do { c \<leftarrow> be16_at packet (qe - 2); Some (Some c) })"

fun extract_answer_records_loop ::
  "bytes \<Rightarrow> nat \<Rightarrow> nat \<Rightarrow> (u16 \<times> u32 \<times> bytes) list \<Rightarrow> (u16 \<times> u32 \<times> bytes) list run" where
  "extract_answer_records_loop resp 0 pos results = Some results"
| "extract_answer_records_loop resp (Suc n) pos results = do {
     rr \<leftarrow> parse_rr resp pos;
     case rr of
       None \<Rightarrow> Some results
     | Some (rtype, cls, ttl, rdata_start, rr_end) \<Rightarrow> do {
         rdata \<leftarrow> slice resp rdata_start rr_end;
         extract_answer_records_loop resp n rr_end (results @ [(rtype, ttl, rdata)])
       }
   }"

definition extract_answer_records :: "bytes \<Rightarrow> nat \<Rightarrow> (u16 \<times> u32 \<times> bytes) list run" where
  "extract_answer_records resp qe =
     (if length resp < 12 \<or> length resp < qe then Some []
      else do {
        an \<leftarrow> be16_at resp 6;
        extract_answer_records_loop resp (unat an) qe []
      })"

section \<open>TTLs\<close>

type_synonym ttl_offsets = "(u32 \<times> u32) list"

definition extract_soa_minimum :: "bytes \<Rightarrow> nat \<Rightarrow> nat \<Rightarrow> u32 option run" where
  "extract_soa_minimum packet rdata rdata_end =
     try_opt (Some (skip_name packet rdata)) (\<lambda>p.
     try_opt (Some (skip_name packet p)) (\<lambda>p.
       if rdata_end < p + 20 then Some None
       else do { m \<leftarrow> be32_at packet (p + 16); Some (Some m) }))"

text \<open>
  The loop over all records: \<open>i\<close> counts up from zero, \<open>n\<close> is what is left of
  \<open>0..total\<close>; the accumulated triple is returned once every record has been read.
\<close>

fun ttl_offsets_loop ::
  "bytes \<Rightarrow> nat \<Rightarrow> nat \<Rightarrow> nat \<Rightarrow> nat \<Rightarrow> nat \<Rightarrow> ttl_offsets \<Rightarrow> nat \<Rightarrow> u32 option
    \<Rightarrow> (ttl_offsets \<times> nat \<times> u32 option) option run" where
  "ttl_offsets_loop packet an ns 0 i pos offsets an_offsets soa_ttl =
     Some (Some (offsets, an_offsets, soa_ttl))"
| "ttl_offsets_loop packet an ns (Suc n) i pos offsets an_offsets soa_ttl =
     try_opt (Some (skip_name packet pos)) (\<lambda>fixed.
       if length packet < fixed + 10 then Some None
       else do {
         rr_type \<leftarrow> be16_at packet fixed;
         rr_ttl \<leftarrow> be32_at packet (fixed + 4);
         rdlen \<leftarrow> be16_at packet (fixed + 8);
         let rdata = fixed + 10;
         let rdata_end = rdata + unat rdlen;
         if length packet < rdata_end then Some None
         else do {
           let offsets' = (if rr_type \<noteq> 41 then offsets @ [(of_nat (fixed + 4), rr_ttl)]
                           else offsets);
           let an_offsets' = (if rr_type \<noteq> 41 \<and> i < an then an_offsets + 1 else an_offsets);
           soa_ttl' \<leftarrow>
             (if rr_type = 6 \<and> soa_ttl = None \<and> an \<le> i \<and> i < an + ns then do {
                m \<leftarrow> extract_soa_minimum packet rdata rdata_end;
                Some (case m of Some minimum \<Rightarrow> Some (min rr_ttl minimum) | None \<Rightarrow> soa_ttl)
              } else Some soa_ttl);
           ttl_offsets_loop packet an ns n (i + 1) rdata_end offsets' an_offsets' soa_ttl'
         }
       })"

definition ttl_offsets_and_soa ::
  "bytes \<Rightarrow> nat \<Rightarrow> nat \<Rightarrow> nat \<Rightarrow> nat \<Rightarrow> (ttl_offsets \<times> nat \<times> u32 option) option run" where
  "ttl_offsets_and_soa packet qe an ns ar =
     (if length packet < 12 \<or> length packet < qe then Some None
      else ttl_offsets_loop packet an ns (an + ns + ar) 0 qe [] 0 None)"

definition clamp_ttl :: "u32 \<Rightarrow> u32 \<Rightarrow> u32 \<Rightarrow> u32" where
  "clamp_ttl min_ttl max_ttl raw =
     (let v = max raw min_ttl in if 0 < max_ttl then min v max_ttl else v)"

fun iter_min :: "u32 list \<Rightarrow> u32 option" where
  "iter_min [] = None"
| "iter_min (x # xs) = (case iter_min xs of None \<Rightarrow> Some x | Some m \<Rightarrow> Some (min x m))"

definition effective_ttl_and_offsets ::
  "bytes \<Rightarrow> nat \<Rightarrow> u32 \<Rightarrow> u32 \<Rightarrow> u32 \<Rightarrow> (u32 \<times> ttl_offsets) option run" where
  "effective_ttl_and_offsets packet qe nodata_ttl min_ttl max_ttl =
     (if \<not> is_good_reply packet then Some None
      else do {
        an \<leftarrow> be16_at packet 6;
        ns \<leftarrow> be16_at packet 8;
        ar \<leftarrow> be16_at packet 10;
        try_opt (ttl_offsets_and_soa packet qe (unat an) (unat ns) (unat ar))
          (\<lambda>(pairs, an_offsets, soa_ttl).
             if unat an = 0 then
               let soa = min (case soa_ttl of Some t \<Rightarrow> t | None \<Rightarrow> nodata_ttl) 10800;
                   effective = clamp_ttl min_ttl max_ttl soa
               in Some (Some (effective, map (\<lambda>(off, _). (off, effective)) pairs))
             else do {
               let offsets = map (\<lambda>(off, raw). (off, clamp_ttl min_ttl max_ttl raw)) pairs;
               answers \<leftarrow> slice offsets 0 an_offsets;
               let entry_ttl = (case iter_min (map snd answers) of Some m \<Rightarrow> m | None \<Rightarrow> nodata_ttl);
               Some (Some (entry_ttl, offsets))
             })
      })"

fun patch_ttls_at :: "bytes \<Rightarrow> ttl_offsets \<Rightarrow> u32 \<Rightarrow> bytes run" where
  "patch_ttls_at packet [] elapsed = Some packet"
| "patch_ttls_at packet ((off, original_ttl) # offsets) elapsed =
     (let remaining = saturating_sub original_ttl elapsed;
          off = unat off
      in if off + 4 \<le> length packet then do {
           packet \<leftarrow> store_slice packet off (off + 4) (to_be 4 remaining);
           patch_ttls_at packet offsets elapsed
         } else patch_ttls_at packet offsets elapsed)"

section \<open>Records as lists\<close>

text \<open>
  The abstract value of a record section is the list of its parsed records, in the order of
  the packet. \<open>read_rrs p n pos\<close> reads exactly \<open>n\<close> records, or fails if one of them is
  malformed or truncated. Every walk below is characterised by it.
\<close>

type_synonym rr = "u16 \<times> u16 \<times> u32 \<times> nat \<times> nat"

definition rr_type :: "rr \<Rightarrow> u16" where "rr_type r = fst r"
definition rr_ttl :: "rr \<Rightarrow> u32" where "rr_ttl r = fst (snd (snd r))"
definition rr_rdata :: "rr \<Rightarrow> nat" where "rr_rdata r = fst (snd (snd (snd r)))"
definition rr_end :: "rr \<Rightarrow> nat" where "rr_end r = snd (snd (snd (snd r)))"

lemma rr_sel [simp]:
  "rr_type (t, c, l, s, e) = t" "rr_ttl (t, c, l, s, e) = l"
  "rr_rdata (t, c, l, s, e) = s" "rr_end (t, c, l, s, e) = e"
  by (simp_all add: rr_type_def rr_ttl_def rr_rdata_def rr_end_def)

fun read_rrs :: "bytes \<Rightarrow> nat \<Rightarrow> nat \<Rightarrow> rr list option" where
  "read_rrs p 0 pos = Some []"
| "read_rrs p (Suc n) pos =
     (case parse_rr p pos of
        Some (Some r) \<Rightarrow> map_option ((#) r) (read_rrs p n (rr_end r))
      | _ \<Rightarrow> None)"

lemma parse_rr_total: "\<exists>r. parse_rr p pos = Some r"
  by (cases "skip_name p pos") (auto simp: parse_rr_def Let_def wire_simps)

lemma parse_rr_bounds:
  assumes "parse_rr p pos = Some (Some r)"
  shows "pos + 10 < rr_rdata r \<and> rr_rdata r \<le> rr_end r \<and> rr_end r \<le> length p \<and>
         be32_at p (rr_rdata r - 6) = Some (rr_ttl r)"
  using assms
  by (cases "skip_name p pos")
     (auto simp: parse_rr_def Let_def wire_simps not_less add.commute dest: skip_name_bounds
       split: if_splits)

lemma read_rrs_length: "read_rrs p n pos = Some rrs \<Longrightarrow> length rrs = n"
  by (induction n arbitrary: pos rrs) (auto split: option.splits)

lemma read_rrs_ends: "read_rrs p n pos = Some rrs \<Longrightarrow> r \<in> set rrs \<Longrightarrow>
  pos + 10 < rr_rdata r \<and> rr_rdata r \<le> rr_end r \<and> rr_end r \<le> length p \<and>
  be32_at p (rr_rdata r - 6) = Some (rr_ttl r)"
proof (induction n arbitrary: pos rrs)
  case (Suc n)
  then obtain r' rrs' where r': "parse_rr p pos = Some (Some r')" and rrs: "rrs = r' # rrs'"
    and rec: "read_rrs p n (rr_end r') = Some rrs'"
    by (auto split: option.splits)
  note b = parse_rr_bounds [OF r']
  show ?case
  proof (cases "r = r'")
    case False
    with Suc.prems rrs have "r \<in> set rrs'" by simp
    from Suc.IH [OF rec this] b show ?thesis by auto
  qed (use b in simp)
qed simp

text \<open>The records follow one another: each starts where its predecessor ends.\<close>

lemma read_rrs_sorted:
  "read_rrs p n pos = Some rrs \<Longrightarrow> sorted_wrt (\<lambda>r s. rr_end r + 10 < rr_rdata s) rrs"
proof (induction n arbitrary: pos rrs)
  case (Suc n)
  then show ?case by (auto split: option.splits dest: read_rrs_ends)
qed simp

lemma read_rrs_apart:
  assumes "read_rrs p n pos = Some rrs" and "r \<in> set rrs" and "s \<in> set rrs" and "r \<noteq> s"
  shows "rr_end r + 10 < rr_rdata s \<or> rr_end s + 10 < rr_rdata r"
proof -
  obtain i j where ij: "i < length rrs" "rrs ! i = r" "j < length rrs" "rrs ! j = s"
    using assms(2,3) by (auto simp: in_set_conv_nth)
  with assms(4) consider "i < j" | "j < i" by (metis nat_neq_iff)
  then show ?thesis
    using ij sorted_wrt_nth_less [OF read_rrs_sorted [OF assms(1)]] by cases blast+
qed

section \<open>The walks on record lists\<close>

lemma answer_ips_loop_total: "\<exists>r. answer_ips_loop p n pos ips = Some r"
proof (induction n arbitrary: pos ips)
  case (Suc n)
  obtain r where r: "parse_rr p pos = Some r" using parse_rr_total by blast
  show ?case
  proof (cases r)
    case (Some rr)
    obtain t c l s e where rr: "rr = (t, c, l, s, e)" by (metis prod.exhaust)
    with parse_rr_bounds [of p pos rr] r Some Suc show ?thesis
      by (auto simp: wire_simps)
  qed (use r in simp)
qed simp

lemma answer_rr_types_loop_total: "\<exists>r. answer_rr_types_loop p n pos ts = Some r"
proof (induction n arbitrary: pos ts)
  case (Suc n)
  obtain r where "parse_rr p pos = Some r" using parse_rr_total by blast
  with Suc show ?case by (auto split: option.splits)
qed simp

lemma extract_answer_records_loop_total: "\<exists>r. extract_answer_records_loop p n pos rs = Some r"
proof (induction n arbitrary: pos rs)
  case (Suc n)
  obtain r where r: "parse_rr p pos = Some r" using parse_rr_total by blast
  show ?case
  proof (cases r)
    case (Some rr)
    obtain t c l s e where rr: "rr = (t, c, l, s, e)" by (metis prod.exhaust)
    with parse_rr_bounds [of p pos rr] r Some Suc show ?thesis
      by (auto simp: wire_simps)
  qed (use r in simp)
qed simp

lemma extract_soa_minimum_total: "e \<le> length p \<Longrightarrow> \<exists>r. extract_soa_minimum p s e = Some r"
  by (cases "skip_name p s"; cases "skip_name p (the (skip_name p s))")
     (auto simp: extract_soa_minimum_def wire_simps)

definition rr_offsets :: "rr list \<Rightarrow> ttl_offsets" where
  "rr_offsets rrs = map (\<lambda>r. (of_nat (rr_rdata r - 6), rr_ttl r)) (filter (\<lambda>r. rr_type r \<noteq> 41) rrs)"

text \<open>
  The negative TTL of RFC 2308: the first SOA of the authority section whose MINIMUM field
  can be read.
\<close>

fun soa_scan :: "bytes \<Rightarrow> nat \<Rightarrow> nat \<Rightarrow> nat \<Rightarrow> u32 option \<Rightarrow> rr list \<Rightarrow> u32 option" where
  "soa_scan p an ns i soa [] = soa"
| "soa_scan p an ns i soa (r # rrs) =
     soa_scan p an ns (i + 1)
       (if rr_type r = 6 \<and> soa = None \<and> an \<le> i \<and> i < an + ns
        then (case extract_soa_minimum p (rr_rdata r) (rr_end r) of
                Some (Some m) \<Rightarrow> Some (min (rr_ttl r) m) | _ \<Rightarrow> soa)
        else soa) rrs"

lemma ttl_offsets_step:
  "ttl_offsets_loop p an ns (Suc n) i pos offs ano soa =
     (case parse_rr p pos of
        Some (Some r) \<Rightarrow>
          ttl_offsets_loop p an ns n (i + 1) (rr_end r) (offs @ rr_offsets [r])
            (ano + (if i < an then length (rr_offsets [r]) else 0))
            (soa_scan p an ns i soa [r])
      | _ \<Rightarrow> Some None)"
proof (cases "skip_name p pos")
  case (Some f)
  show ?thesis
  proof (cases "f + 10 \<le> length p \<and> f + 10 + unat (u16_of p (f + 8)) \<le> length p")
    case True
    let ?e = "f + 10 + unat (u16_of p (f + 8))"
    obtain m where "extract_soa_minimum p (f + 10) ?e = Some m"
      using extract_soa_minimum_total True by blast
    with True Some show ?thesis
      by (auto simp: parse_rr_def Let_def wire_simps rr_offsets_def not_less add.commute
          split: option.splits)
  qed (use Some in \<open>auto simp: parse_rr_def Let_def wire_simps not_less\<close>)
qed (simp add: parse_rr_def)

lemma ttl_offsets_loop_eq:
  "ttl_offsets_loop p an ns n i pos offs ano soa =
     Some (map_option (\<lambda>rrs. (offs @ rr_offsets rrs, ano + length (rr_offsets (take (an - i) rrs)),
                              soa_scan p an ns i soa rrs)) (read_rrs p n pos))"
proof (induction n arbitrary: i pos offs ano soa)
  case 0
  then show ?case by (simp add: rr_offsets_def)
next
  case (Suc n)
  show ?case
    using parse_rr_total [of p pos]
    by (auto simp: ttl_offsets_step Suc option.map_comp comp_def rr_offsets_def take_Cons'
        simp del: ttl_offsets_loop.simps split: option.splits)
qed

lemma ttl_offsets_and_soa_eq:
  "qe \<le> length p \<Longrightarrow> 12 \<le> length p \<Longrightarrow>
   ttl_offsets_and_soa p qe an ns ar =
     Some (map_option (\<lambda>rrs. (rr_offsets rrs, length (rr_offsets (take an rrs)),
                              soa_scan p an ns 0 None rrs)) (read_rrs p (an + ns + ar) qe))"
  by (simp add: ttl_offsets_and_soa_def ttl_offsets_loop_eq not_less)

lemma rr_offsets_append: "rr_offsets (xs @ ys) = rr_offsets xs @ rr_offsets ys"
  by (simp add: rr_offsets_def)

lemma take_rr_offsets: "take (length (rr_offsets (take an rrs))) (rr_offsets rrs) = rr_offsets (take an rrs)"
  using rr_offsets_append [of "take an rrs" "drop an rrs"] by simp

section \<open>The caching TTL of a response\<close>

abbreviation ancount :: "bytes \<Rightarrow> nat" where "ancount p \<equiv> unat (u16_of p 6)"
abbreviation nscount :: "bytes \<Rightarrow> nat" where "nscount p \<equiv> unat (u16_of p 8)"
abbreviation arcount :: "bytes \<Rightarrow> nat" where "arcount p \<equiv> unat (u16_of p 10)"

definition section_rrs :: "bytes \<Rightarrow> nat \<Rightarrow> rr list option" where
  "section_rrs p qe =
     (if length p < 12 \<or> length p < qe then None
      else read_rrs p (ancount p + nscount p + arcount p) qe)"

definition clamp_pairs :: "u32 \<Rightarrow> u32 \<Rightarrow> ttl_offsets \<Rightarrow> ttl_offsets" where
  "clamp_pairs lo hi = map (\<lambda>(off, raw). (off, clamp_ttl lo hi raw))"

lemma is_good_reply_length: "is_good_reply p \<Longrightarrow> 12 \<le> length p"
  by (simp add: is_good_reply_def)

text \<open>
  The whole function in one equation over the parsed records: nothing for a response that
  is not a NOERROR or NXDOMAIN reply or has a malformed record; the SOA-derived TTL for a
  response without answers; otherwise the smallest clamped TTL of the answer section.
\<close>

lemma effective_ttl_and_offsets_eq:
  "effective_ttl_and_offsets p qe nodata lo hi =
     Some (if \<not> is_good_reply p then None
           else map_option (\<lambda>rrs.
             if ancount p = 0 then
               (let t = clamp_ttl lo hi
                  (min (case soa_scan p 0 (nscount p) 0 None rrs of Some t \<Rightarrow> t | None \<Rightarrow> nodata) 10800)
                in (t, map (\<lambda>(off, _). (off, t)) (rr_offsets rrs)))
             else
               (case iter_min (map (clamp_ttl lo hi \<circ> snd) (rr_offsets (take (ancount p) rrs))) of
                  Some m \<Rightarrow> m | None \<Rightarrow> nodata,
                clamp_pairs lo hi (rr_offsets rrs)))
             (section_rrs p qe))"
proof (cases "is_good_reply p")
  case True
  then have len: "12 \<le> length p" by (rule is_good_reply_length)
  show ?thesis
  proof (cases "qe \<le> length p")
    case qe: True
    have sl: "slice (map f (rr_offsets rrs)) 0 (length (rr_offsets (take an rrs)))
        = Some (map f (rr_offsets (take an rrs)))" for f :: "u32 \<times> u32 \<Rightarrow> u32 \<times> u32" and an rrs
    proof -
      have "length (rr_offsets (take an rrs)) \<le> length (rr_offsets rrs)"
        using arg_cong [OF take_rr_offsets [of an rrs], of length] by simp
      then show ?thesis by (simp add: slice_in take_map take_rr_offsets)
    qed
    show ?thesis
      using True len qe
      by (cases "read_rrs p (ancount p + nscount p + arcount p) qe")
         (auto simp: effective_ttl_and_offsets_def wire_simps ttl_offsets_and_soa_eq
            section_rrs_def clamp_pairs_def sl Let_def comp_def case_prod_unfold split: option.splits)
  next
    case False
    with True len show ?thesis
      by (simp add: effective_ttl_and_offsets_def wire_simps ttl_offsets_and_soa_def section_rrs_def)
  qed
qed (simp add: effective_ttl_and_offsets_def)

lemma clamp_ttl_le: "0 < hi \<Longrightarrow> clamp_ttl lo hi t \<le> hi"
  by (simp add: clamp_ttl_def)

lemma clamp_ttl_ge: "hi = 0 \<or> lo \<le> hi \<Longrightarrow> lo \<le> clamp_ttl lo hi t"
  by (auto simp: clamp_ttl_def Let_def)

lemma iter_min_None: "iter_min xs = None \<longleftrightarrow> xs = []"
  by (cases xs) (auto split: option.splits)

lemma iter_min_le: "iter_min xs = Some m \<Longrightarrow> x \<in> set xs \<Longrightarrow> m \<le> x"
  by (induction xs arbitrary: m) (auto split: option.splits simp: min.coboundedI2 iter_min_None)

lemma iter_min_in: "iter_min xs = Some m \<Longrightarrow> m \<in> set xs"
  by (induction xs arbitrary: m) (auto split: option.splits simp: min_def)

section \<open>Serving: rewriting TTL fields\<close>

lemma patch_ttls_at_total: "\<exists>q. patch_ttls_at p offs e = Some q \<and> length q = length p"
proof (induction offs arbitrary: p)
  case (Cons x offs)
  obtain off t where x: "x = (off, t)" by fastforce
  show ?case
  proof (cases "unat off + 4 \<le> length p")
    case True
    then obtain q where q: "store_slice p (unat off) (unat off + 4) (to_be 4 (saturating_sub t e)) = Some q"
      by (simp add: store_slice_in)
    from Cons [of q] length_store_slice [OF q] show ?thesis
      using True by (simp add: x q)
  qed (use x Cons in simp)
qed simp

lemma patch_ttls_at_frame:
  "patch_ttls_at p offs e = Some q \<Longrightarrow> i < length p \<Longrightarrow>
   (\<And>off t. (off, t) \<in> set offs \<Longrightarrow> \<not> (unat off \<le> i \<and> i < unat off + 4)) \<Longrightarrow> q ! i = p ! i"
proof (induction offs arbitrary: p)
  case (Cons x offs)
  obtain off t where x: "x = (off, t)" by fastforce
  show ?case
  proof (cases "unat off + 4 \<le> length p")
    case True
    then obtain p' where p': "store_slice p (unat off) (unat off + 4) (to_be 4 (saturating_sub t e)) = Some p'"
      by (simp add: store_slice_in)
    have "q ! i = p' ! i"
      using Cons.prems True x p' length_store_slice [OF p']
      by (intro Cons.IH) (auto simp: Let_def)
    also have "\<dots> = p ! i"
      using nth_store_slice [OF p' Cons.prems(2)] Cons.prems(3) [of off t] x by auto
    finally show ?thesis .
  next
    case False
    with Cons x show ?thesis by (auto simp: Let_def)
  qed
qed simp

definition spaced :: "ttl_offsets \<Rightarrow> bool" where
  "spaced offs \<longleftrightarrow> sorted_wrt (\<lambda>a b. unat (fst a) + 4 \<le> unat (fst b)) offs"

lemma u32_of_to_be:
  assumes "store_slice p i (i + 4) (to_be 4 w) = Some q"
  shows "u32_of q i = w"
proof -
  have len: "i + 4 \<le> length p"
    using assms by (auto simp: store_slice_def split: if_splits)
  then have "q ! (i + k) = to_be 4 w ! k" if "k < 4" for k
    using nth_store_slice [OF assms, of "i + k"] that by simp
  from this [of 0] this [of 1] this [of 2] this [of 3] show ?thesis
    by (simp add: u32_of_def to_be_4)
qed

lemma u32_of_cong:
  "(\<And>k. i \<le> k \<Longrightarrow> k < i + 4 \<Longrightarrow> q ! k = p ! k) \<Longrightarrow> u32_of q i = u32_of p i"
  by (simp add: u32_of_def)

lemma patch_ttls_at_read:
  "patch_ttls_at p offs e = Some q \<Longrightarrow> spaced offs \<Longrightarrow> (off, t) \<in> set offs \<Longrightarrow>
   unat off + 4 \<le> length p \<Longrightarrow> u32_of q (unat off) = saturating_sub t e"
proof (induction offs arbitrary: p)
  case (Cons x offs)
  obtain off' t' where x: "x = (off', t')" by fastforce
  show ?case
  proof (cases "unat off' + 4 \<le> length p")
    case True
    then obtain p' where p': "store_slice p (unat off') (unat off' + 4) (to_be 4 (saturating_sub t' e)) = Some p'"
      by (simp add: store_slice_in)
    then have rec: "patch_ttls_at p' offs e = Some q" and sp: "spaced offs"
      and len: "length p' = length p"
      using Cons.prems x True length_store_slice [OF p'] by (auto simp: Let_def spaced_def)
    show ?thesis
    proof (cases "(off, t) \<in> set offs")
      case True
      with Cons.IH [OF rec sp] Cons.prems len show ?thesis by simp
    next
      case False
      then have eq: "off = off'" "t = t'" using Cons.prems x by auto
      have "u32_of q (unat off) = u32_of p' (unat off)"
        using Cons.prems(2,4) x len eq
        by (intro u32_of_cong patch_ttls_at_frame [OF rec]) (auto simp: spaced_def)
      with u32_of_to_be [OF p'] eq show ?thesis by simp
    qed
  next
    case False
    with Cons x show ?thesis by (auto simp: Let_def spaced_def)
  qed
qed simp

section \<open>Parsing is local\<close>

lemma skip_name_local:
  "skip_name p pos = Some e \<Longrightarrow> e \<le> length q \<Longrightarrow>
   (\<And>i. pos \<le> i \<Longrightarrow> i < e \<Longrightarrow> q ! i = p ! i) \<Longrightarrow> skip_name q pos = Some e"
proof (induction p pos rule: skip_name.induct)
  case (1 p pos)
  have b: "pos < e" "e \<le> length p" using skip_name_bounds [OF "1.prems"(1)] by auto
  then have hd: "q ! pos = p ! pos" using "1.prems"(3) by simp
  show ?case
  proof (cases "p ! pos \<noteq> 0 \<and> p ! pos AND 0xc0 = 0")
    case True
    then have le: "pos + 1 + unat (p ! pos) \<le> length p"
      and rec: "skip_name p (pos + 1 + unat (p ! pos)) = Some e"
      using "1.prems"(1) b by (auto simp: skip_name.simps [of p pos] Let_def split: if_splits)
    have "skip_name q (pos + 1 + unat (p ! pos)) = Some e"
      using "1.IH" [OF _ refl refl _ _ _ refl _ rec] True le b "1.prems" by simp
    moreover have "pos + 1 + unat (p ! pos) \<le> length q"
      using skip_name_bounds [OF rec] "1.prems"(2) by linarith
    ultimately show ?thesis using True b hd "1.prems"(2) by (simp add: skip_name.simps [of q pos])
  next
    case False
    with "1.prems" b hd show ?thesis
      by (auto simp: skip_name.simps [of p pos] skip_name.simps [of q pos] Let_def split: if_splits)
  qed
qed

definition rr_with_ttl :: "u32 \<Rightarrow> rr \<Rightarrow> rr" where
  "rr_with_ttl l r = (case r of (t, c, _, s, e) \<Rightarrow> (t, c, l, s, e))"

lemma rr_with_ttl_sel [simp]:
  "rr_type (rr_with_ttl l r) = rr_type r" "rr_ttl (rr_with_ttl l r) = l"
  "rr_rdata (rr_with_ttl l r) = rr_rdata r" "rr_end (rr_with_ttl l r) = rr_end r"
  by (cases r; simp add: rr_with_ttl_def)+

lemma rr_with_ttl_self: "rr_with_ttl (rr_ttl r) r = r"
  by (cases r) (simp add: rr_with_ttl_def)

lemma parse_rr_local:
  assumes "parse_rr p pos = Some (Some r)" and "length q = length p"
    and "\<And>i. pos \<le> i \<Longrightarrow> i < rr_rdata r \<Longrightarrow> \<not> (rr_rdata r - 6 \<le> i \<and> i < rr_rdata r - 2) \<Longrightarrow> q ! i = p ! i"
  shows "parse_rr q pos = Some (Some (rr_with_ttl (u32_of q (rr_rdata r - 6)) r))"
proof -
  from assms(1) obtain f where f: "skip_name p pos = Some f"
    by (cases "skip_name p pos") (auto simp: parse_rr_def)
  with assms(1) have len: "f + 10 \<le> length p" and fl: "f + 10 + unat (u16_of p (f + 8)) \<le> length p"
    and r: "r = (u16_of p f, u16_of p (f + 2), u32_of p (f + 4), f + 10, f + 10 + unat (u16_of p (f + 8)))"
    by (auto simp: parse_rr_def Let_def wire_simps not_less split: if_splits)
  have pos: "pos < f" using skip_name_bounds [OF f] by simp
  have eqs: "u16_of q f = u16_of p f" "u16_of q (f + 2) = u16_of p (f + 2)"
    "u16_of q (f + 8) = u16_of p (f + 8)"
    using assms(3) r pos by (auto intro!: u16_of_cong)
  have "skip_name q pos = Some f"
    using r len assms(2,3) by (intro skip_name_local [OF f]) simp_all
  with len fl assms(2) eqs r show ?thesis
    by (simp add: parse_rr_def Let_def wire_simps rr_with_ttl_def add.commute)
qed

lemma read_rrs_local:
  "read_rrs p n pos = Some rrs \<Longrightarrow> length q = length p \<Longrightarrow>
   (\<And>i. pos \<le> i \<Longrightarrow> i < length p \<Longrightarrow>
      (\<And>r. r \<in> set rrs \<Longrightarrow> \<not> (rr_rdata r - 6 \<le> i \<and> i < rr_rdata r - 2)) \<Longrightarrow> q ! i = p ! i) \<Longrightarrow>
   read_rrs q n pos = Some (map (\<lambda>r. rr_with_ttl (u32_of q (rr_rdata r - 6)) r) rrs)"
proof (induction n arbitrary: pos rrs)
  case (Suc n)
  then obtain r rrs' where r: "parse_rr p pos = Some (Some r)" and rrs: "rrs = r # rrs'"
    and rec: "read_rrs p n (rr_end r) = Some rrs'"
    by (auto split: option.splits)
  have later: "rr_end r + 10 < rr_rdata r'" if "r' \<in> set rrs'" for r'
    using read_rrs_ends [OF rec that] by simp
  have "parse_rr q pos = Some (Some (rr_with_ttl (u32_of q (rr_rdata r - 6)) r))"
    using parse_rr_bounds [OF r] later
    by (intro parse_rr_local [OF r Suc.prems(2)] Suc.prems(3)) (auto simp: rrs dest!: later)
  moreover have "read_rrs q n (rr_end r) = Some (map (\<lambda>r. rr_with_ttl (u32_of q (rr_rdata r - 6)) r) rrs')"
    using parse_rr_bounds [OF r]
    by (intro Suc.IH [OF rec Suc.prems(2)] Suc.prems(3)) (auto simp: rrs)
  ultimately show ?case by (simp add: rrs)
qed simp

section \<open>Properties\<close>

definition served_ttl :: "bytes \<Rightarrow> u32 \<Rightarrow> u32 \<Rightarrow> u32 \<Rightarrow> rr \<Rightarrow> u32" where
  "served_ttl p t lo hi r = (if ancount p = 0 then t else clamp_ttl lo hi (rr_ttl r))"

lemma effective_ttl_SomeD:
  assumes "effective_ttl_and_offsets p qe nodata lo hi = Some (Some (t, offs))"
  obtains rrs where "section_rrs p qe = Some rrs" "is_good_reply p"
    "offs = map (\<lambda>r. (of_nat (rr_rdata r - 6), served_ttl p t lo hi r))
              (filter (\<lambda>r. rr_type r \<noteq> 41) rrs)"
  using assms
  by (auto simp: effective_ttl_and_offsets_eq rr_offsets_def clamp_pairs_def served_ttl_def Let_def
      split: if_splits)

lemma rr_field_offset:
  assumes "read_rrs p n qe = Some rrs" and "r \<in> set rrs" and "length p \<le> 65535"
  shows "unat (of_nat (rr_rdata r - 6) :: u32) = rr_rdata r - 6"
proof -
  have "rr_rdata r - 6 < 2 ^ 32" using read_rrs_ends [OF assms(1,2)] assms(3) by auto
  then show ?thesis unfolding unat_of_nat by simp
qed

lemma rr_field_value:
  assumes "read_rrs p n qe = Some rrs" and "r \<in> set rrs"
  shows "u32_of p (rr_rdata r - 6) = rr_ttl r"
proof -
  note e = read_rrs_ends [OF assms]
  then have "rr_rdata r - 6 + 3 < length p" by linarith
  with e show ?thesis by (simp only: be32_at_in option.inject)
qed

lemma rr_offsets_spaced:
  assumes "read_rrs p n qe = Some rrs" and "length p \<le> 65535"
  shows "spaced (map (\<lambda>r. (of_nat (rr_rdata r - 6), f r)) (filter P rrs))"
proof -
  have "sorted_wrt (\<lambda>r s. rr_end r + 10 < rr_rdata s) (filter P rrs)"
    using read_rrs_sorted [OF assms(1)] by (rule sorted_wrt_filter)
  then have "sorted_wrt (\<lambda>r s. unat (of_nat (rr_rdata r - 6) :: u32) + 4
      \<le> unat (of_nat (rr_rdata s - 6) :: u32)) (filter P rrs)"
  proof (rule sorted_wrt_mono_rel [rotated])
    fix r s
    assume rs: "r \<in> set (filter P rrs)" "s \<in> set (filter P rrs)"
      and less: "rr_end r + 10 < rr_rdata s"
    show "unat (of_nat (rr_rdata r - 6) :: u32) + 4 \<le> unat (of_nat (rr_rdata s - 6) :: u32)"
    proof -
      have mem: "r \<in> set rrs" "s \<in> set rrs" using rs by auto
      show ?thesis
        using read_rrs_ends [OF assms(1) mem(1)] read_rrs_ends [OF assms(1) mem(2)] less
        by (simp only: rr_field_offset [OF assms(1) mem(1) assms(2)]
            rr_field_offset [OF assms(1) mem(2) assms(2)]) linarith
    qed
  qed
  then show ?thesis by (simp add: spaced_def sorted_wrt_map)
qed

lemma patched_sections:
  assumes eff: "effective_ttl_and_offsets p qe nodata lo hi = Some (Some (t, offs))"
    and qe: "12 \<le> qe" and len: "length p \<le> 65535"
  shows "\<exists>rrs q. section_rrs p qe = Some rrs \<and> patch_ttls_at p offs elapsed = Some q \<and>
    section_rrs q qe = Some (map (\<lambda>r. if rr_type r = 41 then r
      else rr_with_ttl (saturating_sub (served_ttl p t lo hi r) elapsed) r) rrs)"
proof -
  from eff obtain rrs where rrs: "section_rrs p qe = Some rrs" and good: "is_good_reply p"
    and offs: "offs = map (\<lambda>r. (of_nat (rr_rdata r - 6), served_ttl p t lo hi r))
                       (filter (\<lambda>r. rr_type r \<noteq> 41) rrs)"
    by (rule effective_ttl_SomeD)
  let ?n = "ancount p + nscount p + arcount p"
  from rrs have rd: "read_rrs p ?n qe = Some rrs" and qlen: "qe \<le> length p" "12 \<le> length p"
    by (auto simp: section_rrs_def split: if_splits)
  obtain q where q: "patch_ttls_at p offs elapsed = Some q" and lq: "length q = length p"
    using patch_ttls_at_total by blast
  have field: "unat (of_nat (rr_rdata r - 6) :: u32) = rr_rdata r - 6" if "r \<in> set rrs" for r
    by (rule rr_field_offset [OF rd that len])
  have frame: "q ! i = p ! i" if "i < length p"
    and "\<And>r. r \<in> set rrs \<Longrightarrow> rr_type r \<noteq> 41 \<Longrightarrow> \<not> (rr_rdata r - 6 \<le> i \<and> i < rr_rdata r - 2)" for i
  proof (rule patch_ttls_at_frame [OF q that(1)])
    fix off u assume "(off, u) \<in> set offs"
    then obtain r where r: "r \<in> set rrs" "rr_type r \<noteq> 41" "off = of_nat (rr_rdata r - 6)"
      by (auto simp: offs)
    with that(2) [OF r(1,2)] read_rrs_ends [OF rd r(1)]
    show "\<not> (unat off \<le> i \<and> i < unat off + 4)" by (simp only: r(3) field [OF r(1)]) linarith
  qed
  have hdr: "u16_of q i = u16_of p i" if "i < 11" for i
  proof (rule u16_of_cong; rule frame)
    show "i < length p" "i + 1 < length p" using that qlen by linarith+
    fix r assume "r \<in> set rrs"
    from read_rrs_ends [OF rd this] that qe
    show "\<not> (rr_rdata r - 6 \<le> i \<and> i < rr_rdata r - 2)"
      "\<not> (rr_rdata r - 6 \<le> i + 1 \<and> i + 1 < rr_rdata r - 2)" by linarith+
  qed
  have "read_rrs q ?n qe = Some (map (\<lambda>r. rr_with_ttl (u32_of q (rr_rdata r - 6)) r) rrs)"
    by (rule read_rrs_local [OF rd lq]) (rule frame; blast)
  moreover have "u32_of q (rr_rdata r - 6) =
      (if rr_type r = 41 then rr_ttl r else saturating_sub (served_ttl p t lo hi r) elapsed)"
    if r: "r \<in> set rrs" for r
  proof (cases "rr_type r = 41")
    case True
    have "u32_of q (rr_rdata r - 6) = u32_of p (rr_rdata r - 6)"
    proof (intro u32_of_cong frame)
      fix k assume "rr_rdata r - 6 \<le> k" "k < rr_rdata r - 6 + 4"
      then show "k < length p" using read_rrs_ends [OF rd r] by linarith
      fix r' assume r': "r' \<in> set rrs" "rr_type r' \<noteq> 41"
      then have "rr_end r + 10 < rr_rdata r' \<or> rr_end r' + 10 < rr_rdata r"
        using read_rrs_apart [OF rd r r'(1)] True by auto
      with \<open>rr_rdata r - 6 \<le> k\<close> \<open>k < rr_rdata r - 6 + 4\<close>
      show "\<not> (rr_rdata r' - 6 \<le> k \<and> k < rr_rdata r' - 2)"
        using read_rrs_ends [OF rd r] read_rrs_ends [OF rd r'(1)] by linarith
    qed
    also have "\<dots> = rr_ttl r" by (rule rr_field_value [OF rd r])
    finally show ?thesis using True by simp
  next
    case False
    have "u32_of q (unat (of_nat (rr_rdata r - 6) :: u32)) = saturating_sub (served_ttl p t lo hi r) elapsed"
    proof (rule patch_ttls_at_read [OF q])
      show "spaced offs" unfolding offs by (rule rr_offsets_spaced [OF rd len])
      show "(of_nat (rr_rdata r - 6), served_ttl p t lo hi r) \<in> set offs"
        using r False by (simp only: offs set_map set_filter) blast
      show "unat (of_nat (rr_rdata r - 6) :: u32) + 4 \<le> length p"
        using read_rrs_ends [OF rd r] by (simp only: field [OF r]) linarith
    qed
    with False field [OF r] show ?thesis by simp
  qed
  ultimately have "read_rrs q ?n qe = Some (map (\<lambda>r. if rr_type r = 41 then r
      else rr_with_ttl (saturating_sub (served_ttl p t lo hi r) elapsed) r) rrs)"
    by (simp add: rr_with_ttl_self cong: map_cong)
  with rrs q lq qlen hdr show ?thesis by (simp add: section_rrs_def)
qed


definition sample_response :: bytes where
  "sample_response = [0, 1, 0x81, 0x80, 0, 1, 0, 1, 0, 0, 0, 1,
     1, 97, 0, 0, 1, 0, 1,
     0xc0, 12, 0, 1, 0, 1, 0, 0, 0, 60, 0, 4, 1, 2, 3, 4,
     0, 0, 41, 4, 208, 0, 0, 0, 0, 0, 0]"


text \<open>
  (C21) The TTL a response is cached for and the TTL fields recorded for rewriting, as one
  equation over the parsed records: no result for a response that is not a NOERROR or
  NXDOMAIN reply or whose sections are malformed; for a response without answers the
  SOA-derived negative TTL, capped at three hours and clamped; otherwise the smallest
  clamped TTL of the answer section. The function never panics.
\<close>

theorem effective_ttl_of_records:
  "effective_ttl_and_offsets p qe nodata lo hi =
     Some (if \<not> is_good_reply p then None
           else map_option (\<lambda>rrs.
             if ancount p = 0 then
               (let t = clamp_ttl lo hi
                  (min (case soa_scan p 0 (nscount p) 0 None rrs of Some t \<Rightarrow> t | None \<Rightarrow> nodata) 10800)
                in (t, map (\<lambda>(off, _). (off, t)) (rr_offsets rrs)))
             else
               (case iter_min (map (clamp_ttl lo hi \<circ> snd) (rr_offsets (take (ancount p) rrs))) of
                  Some m \<Rightarrow> m | None \<Rightarrow> nodata,
                clamp_pairs lo hi (rr_offsets rrs)))
             (section_rrs p qe))"
  by (rule effective_ttl_and_offsets_eq)



lemma answer_walks_total:
  "\<exists>r. answer_ips p qe = Some r" "\<exists>r. answer_rr_types p qe = Some r" "\<exists>r. question_qclass p qe = Some r"
  using answer_ips_loop_total answer_rr_types_loop_total
  by (auto simp: answer_ips_def answer_rr_types_def question_qclass_def wire_simps)

text \<open>
  (C23) The response walks are panic-free on every byte string: whatever an upstream sends,
  reading its addresses, record types, records, class, TTLs and rewriting its TTLs returns.
\<close>

theorem response_walks_total:
  "(\<exists>r. answer_ips p qe = Some r) \<and> (\<exists>r. answer_rr_types p qe = Some r) \<and>
   (\<exists>r. extract_answer_records p qe = Some r) \<and> (\<exists>r. question_qclass p qe = Some r) \<and>
   (\<exists>r. effective_ttl_and_offsets p qe nodata lo hi = Some r) \<and>
   (\<exists>q. patch_ttls_at p offs elapsed = Some q \<and> length q = length p)"
proof (intro conjI)
  show "\<exists>r. answer_ips p qe = Some r" "\<exists>r. answer_rr_types p qe = Some r" "\<exists>r. question_qclass p qe = Some r"
    by (rule answer_walks_total)+
  show "\<exists>r. extract_answer_records p qe = Some r"
    using extract_answer_records_loop_total by (auto simp: extract_answer_records_def wire_simps)
  show "\<exists>r. effective_ttl_and_offsets p qe nodata lo hi = Some r"
    by (simp add: effective_ttl_and_offsets_eq)
  show "\<exists>q. patch_ttls_at p offs elapsed = Some q \<and> length q = length p"
    by (rule patch_ttls_at_total)
qed

section \<open>Local replies read back\<close>

lemma or_80_and_80: "((0x80 :: u8) OR x) AND 0x80 = 0x80"
  by (simp only: and.commute [of _ "0x80"] bit.conj_disj_distrib and.idem) (simp add: or.commute)

lemma rcode_byte: "((0x80 :: u8) OR (rc AND 0x0f)) AND 0x0f = rc AND 0x0f"
proof -
  have "((0x80 :: u8) OR (rc AND 0x0f)) AND 0x0f = (0x80 AND 0x0f) OR ((rc AND 0x0f) AND 0x0f)"
    by (simp only: bit.conj_disj_distrib2)
  also have "\<dots> = rc AND 0x0f" by (simp only: and.assoc and.idem) simp
  finally show ?thesis .
qed

lemma reply_packet_reads:
  assumes "12 \<le> qe" and "qe \<le> length q"
  shows "is_reply (reply_packet q qe rc an @ rest)" "rcode (reply_packet q qe rc an @ rest) = rc AND 0x0f"
    "get_id (reply_packet q qe rc an @ rest) = get_id q"
    "drop 12 (take qe (reply_packet q qe rc an @ rest)) = drop 12 (take qe q)"
    "u16_of (reply_packet q qe rc an @ rest) 6 = be16 0 an"
    "u16_of (reply_packet q qe rc an @ rest) 8 = 0" "u16_of (reply_packet q qe rc an @ rest) 10 = 0"
proof -
  show "is_reply (reply_packet q qe rc an @ rest)"
    by (simp add: is_reply_def reply_packet_def or_80_and_80)
  show "rcode (reply_packet q qe rc an @ rest) = rc AND 0x0f"
    by (simp add: rcode_def reply_packet_def rcode_byte)
  show "get_id (reply_packet q qe rc an @ rest) = get_id q"
    using assms by (simp add: get_id_def reply_packet_def)
  show "drop 12 (take qe (reply_packet q qe rc an @ rest)) = drop 12 (take qe q)"
    using assms by (simp add: length_reply_packet) (simp add: reply_packet_def)
  show "u16_of (reply_packet q qe rc an @ rest) 6 = be16 0 an"
    "u16_of (reply_packet q qe rc an @ rest) 8 = 0" "u16_of (reply_packet q qe rc an @ rest) 10 = 0"
    by (simp_all add: reply_packet_def u16_of_def)
qed

text \<open>
  (C24) Every local answer to an accepted query is built without a panic or an error, is a
  reply with the requested response code (SERVFAIL, NOTIMP or the configured one), carries
  the client's id and the client's question byte for byte (so its 0x20 letter case), and
  nothing else.
\<close>

theorem local_replies_echo_query:
  assumes "parse_query_fast p = Some (Inr info)"
  defines "qe \<equiv> fast_question_end info"
  shows "\<exists>r e s n. rcode_reply p qe rc = Some (Inr r) \<and> empty_reply p qe = Some (Inr e) \<and>
    servfail_reply p qe = Some (Inr s) \<and> notimp_reply p qe = Some (Inr n) \<and>
    rcode r = rc AND 0x0f \<and> rcode e = 0 \<and> rcode s = 2 \<and> rcode n = 4 \<and>
    (\<forall>x \<in> {r, e, s, n}. is_reply x \<and> length x = qe \<and> get_id x = Inr (fast_id info) \<and>
       drop 12 x = drop 12 (take qe p) \<and> section_rrs x qe = Some [])"
proof -
  from parse_query_fast_decode [OF assms(1)] obtain hdr ls tail rest
    where sh: "query_shape hdr ls tail rest p" and info: "info = query_info hdr ls tail" by blast
  then have b: "12 \<le> qe" "qe \<le> length p" and i: "get_id p = Inr (fast_id info)"
    by (auto simp: qe_def query_shape_def query_info_def get_id_def nth_append)
  note rd = reply_packet_reads [OF b, where rest = "[]", simplified]
  have all: "is_reply (reply_packet p qe c 0) \<and> length (reply_packet p qe c 0) = qe \<and>
      get_id (reply_packet p qe c 0) = Inr (fast_id info) \<and>
      drop 12 (reply_packet p qe c 0) = drop 12 (take qe p) \<and>
      section_rrs (reply_packet p qe c 0) qe = Some []" for c
    using rd [where rc = c and an = 0] length_reply_packet [OF b, of c 0] b i
    by (simp add: section_rrs_def not_less)
  have "rcode (reply_packet p qe 0 0) = 0" "rcode (reply_packet p qe 2 0) = 2"
    "rcode (reply_packet p qe 4 0) = 4"
    by (simp_all add: rd)
  with all rd(2) show ?thesis by (simp add: reply_eqs [OF b])
qed

theorem local_replies_echo_query_witness:
  "\<exists>s. servfail_reply sample_query 22 = Some (Inr s) \<and> rcode s = 2 \<and> get_id s = Inr 0x1234"
proof -
  have acc: "parse_query_fast sample_query = Some (Inr sample_query_info)"
    and e: "fast_question_end sample_query_info = 22" "fast_id sample_query_info = 0x1234"
    by code_simp+
  from local_replies_echo_query [OF acc, of 0] e show ?thesis by auto
qed

text \<open>A reply with one answer, read back: a compressed name, type, class, TTL and data.\<close>

lemma parse_rr_eq:
  assumes "skip_name p pos = Some f" and "f + 10 + unat (u16_of p (f + 8)) \<le> length p"
  shows "parse_rr p pos = Some (Some (u16_of p f, u16_of p (f + 2), u32_of p (f + 4), f + 10,
           f + 10 + unat (u16_of p (f + 8))))"
  using assms by (simp add: parse_rr_def be16_at_in be32_at_in Let_def)

lemma parse_rr_answer:
  assumes "length pre = pos" and "length rdata < 65536"
  shows "parse_rr (pre @ [0xC0, 0x0C, 0, ty, 0, 1] @ to_be 4 ttl @ to_be 2 (of_nat (length rdata) :: u16) @ rdata) pos =
    Some (Some (be16 0 ty, 1, ttl, pos + 12, pos + 12 + length rdata))"
proof -
  define p where "p = pre @ [0xC0, 0x0C, 0, ty, 0, 1] @ to_be 4 ttl @ to_be 2 (of_nat (length rdata) :: u16) @ rdata"
  define f where "f = pos + 2"
  have sk: "skip_name p pos = Some f"
    using assms(1) by (subst skip_name.simps) (simp add: p_def f_def nth_append)
  have len: "length p = f + 10 + length rdata" using assms(1) by (simp add: p_def f_def)
  have rd: "u16_of p f = be16 0 ty" "u16_of p (f + 2) = 1" "u32_of p (f + 4) = ttl"
    "u16_of p (f + 8) = of_nat (length rdata)"
    using assms(1) by (auto simp: p_def f_def u16_of_def u32_of_def nth_append to_be_2 to_be_4)
  have n: "unat (of_nat (length rdata) :: u16) = length rdata"
    using assms(2) by (simp add: unat_of_nat)
  have "parse_rr p pos = Some (Some (be16 0 ty, 1, ttl, f + 10, f + 10 + length rdata))"
    using parse_rr_eq [OF sk] len unfolding rd n by simp
  then show ?thesis unfolding p_def f_def by simp
qed

lemma take_4_drop: "s + 4 \<le> length p \<Longrightarrow> take 4 (drop s p) = [p ! s, p ! (s + 1), p ! (s + 2), p ! (s + 3)]"
  by (rule nth_equalityI) (auto simp: numeral_eq_Suc less_Suc_eq)

text \<open>A packet with a single answer record behind \<open>qe\<close>.\<close>

lemma single_answer_reads:
  assumes "parse_rr p qe = Some (Some r)" and "12 \<le> qe" and "qe \<le> length p"
    and "u16_of p 6 = 1" and "u16_of p 8 = 0" and "u16_of p 10 = 0"
  shows "section_rrs p qe = Some [r]"
    and "r = (1, 1, ttl, s, s + 4) \<Longrightarrow> answer_ips p qe = Some [V4 (of_be (take 4 (drop s p)))]"
    and "r = (28, 1, ttl, s, s + 16) \<Longrightarrow> answer_ips p qe = Some [V6 (of_be (take 16 (drop s p)))]"
proof -
  have "read_rrs p 1 qe = Some [r]" using assms(1) by (simp add: One_nat_def)
  then show "section_rrs p qe = Some [r]" using assms by (simp add: section_rrs_def not_less)
  have one: "answer_ips p qe = answer_ips_loop p (Suc 0) qe []"
    using assms by (simp add: answer_ips_def be16_at_in not_less)
  note e = parse_rr_bounds [OF assms(1)]
  show "answer_ips p qe = Some [V4 (of_be (take 4 (drop s p)))]" if "r = (1, 1, ttl, s, s + 4)"
    using assms(1) that e
    by (simp add: one idx_in take_4_drop)
  show "answer_ips p qe = Some [V6 (of_be (take 16 (drop s p)))]" if "r = (28, 1, ttl, s, s + 16)"
    using assms(1) that e by (simp add: one slice_in)
qed

text \<open>
  (C25) A hijack or filter answer says what it was asked to say: reading the addresses back
  from the constructed A or AAAA reply gives exactly the configured address, with the
  configured TTL in its only record.
\<close>

theorem address_replies_read_back:
  assumes b: "12 \<le> qe" "qe \<le> length p"
  shows "(\<exists>r. a_reply p qe addr ttl = Some (Inr r) \<and> answer_ips r qe = Some [V4 addr] \<and>
            section_rrs r qe = Some [(1, 1, ttl, qe + 12, qe + 16)]) \<and>
         (\<exists>r. aaaa_reply p qe addr6 ttl = Some (Inr r) \<and> answer_ips r qe = Some [V6 addr6] \<and>
            section_rrs r qe = Some [(28, 1, ttl, qe + 12, qe + 28)])"
proof -
  let ?h = "reply_packet p qe 0 1"
  have len: "length ?h = qe" by (rule length_reply_packet [OF b])
  define r4 where "r4 = ?h @ [0xC0, 0x0C, 0, 1, 0, 1] @ to_be 4 ttl @ [0, 4] @ to_be 4 addr"
  define r6 where "r6 = ?h @ [0xC0, 0x0C, 0, 0x1C, 0, 1] @ to_be 4 ttl @ [0, 0x10] @ to_be 16 addr6"
  have p4: "parse_rr r4 qe = Some (Some (1, 1, ttl, qe + 12, (qe + 12) + 4))"
    using parse_rr_answer [OF len, where rdata = "to_be 4 addr" and ty = 1 and ttl = ttl] by (simp add: r4_def to_be_2)
  have p6: "parse_rr r6 qe = Some (Some (28, 1, ttl, qe + 12, (qe + 12) + 16))"
    using parse_rr_answer [OF len, where rdata = "to_be 16 addr6" and ty = 28 and ttl = ttl] by (simp add: r6_def to_be_2)
  note rd = reply_packet_reads(5-7) [OF b, where rc = 0 and an = 1, unfolded be16_lits]
  have c4: "u16_of r4 6 = 1" "u16_of r4 8 = 0" "u16_of r4 10 = 0" and
    c6: "u16_of r6 6 = 1" "u16_of r6 8 = 0" "u16_of r6 10 = 0"
    unfolding r4_def r6_def by (rule rd)+
  have l: "qe \<le> length r4" "qe \<le> length r6" by (simp_all add: r4_def r6_def len)
  have d: "take 4 (drop (qe + 12) r4) = to_be 4 addr" "take 16 (drop (qe + 12) r6) = to_be 16 addr6"
    by (simp_all add: r4_def r6_def len)
  have "answer_ips r4 qe = Some [V4 addr]" "answer_ips r6 qe = Some [V6 addr6]"
    using single_answer_reads(2) [OF p4 b(1) l(1) c4 refl] single_answer_reads(3) [OF p6 b(1) l(2) c6 refl]
    by (simp_all add: d of_be_to_be)
  then show ?thesis
    unfolding reply_eqs(5,6) [OF b] r4_def [symmetric] r6_def [symmetric]
    using single_answer_reads(1) [OF p4 b(1) l(1) c4] single_answer_reads(1) [OF p6 b(1) l(2) c6]
    by simp
qed

theorem address_replies_read_back_witness:
  "\<exists>r. a_reply sample_query 22 0x01020304 60 = Some (Inr r) \<and> answer_ips r 22 = Some [V4 0x01020304]"
  using address_replies_read_back [of 22 sample_query "0x01020304" 60] by (auto simp: sample_query_def)

end
