(* ===== verification/Dns_Variant.thy ===== *)
theory Dns_Variant
  imports Dns_Ttl
begin

text \<open>
  \<open>src/dns/mod.rs\<close>: the EDNS properties that select a cached response (\<open>QueryVariant\<close>), the
  walk to the OPT record, truncation of oversized UDP responses and the case-insensitive
  comparison of question sections; \<open>parse_query_from_fast\<close> of \<open>src/dns/query.rs\<close>. A
  sixteen-byte array is a byte list of length sixteen.
\<close>

section \<open>Types\<close>

record EcsSrc =
  ecs_addr :: bytes
  ecs_prefix_len :: u8

record QueryVariant =
  has_opt :: bool
  do_bit :: bool
  edns_version :: u8
  rd :: bool
  ad :: bool
  cd :: bool
  ecs_src :: "EcsSrc option"
  extra_opts_hash :: u64

definition no_edns :: "bool \<Rightarrow> bool \<Rightarrow> bool \<Rightarrow> QueryVariant" where
  "no_edns r a c = \<lparr>has_opt = False, do_bit = False, edns_version = 0, rd = r, ad = a, cd = c,
                    ecs_src = None, extra_opts_hash = 0\<rparr>"

record QueryInfo =
  info_id :: u16
  info_qname :: "bytes option"
  info_qtype :: u16
  info_question_end :: nat
  info_qname_wire_hash :: fnv1a
  info_qname_wire_hash_end :: nat
  info_variant :: QueryVariant
  info_precomputed_cache_keys :: "(u64 \<times> u64 option) option"

definition parse_query_from_fast :: "FastQueryInfo \<Rightarrow> QueryVariant \<Rightarrow> QueryInfo res" where
  "parse_query_from_fast fast variant =
     Inr \<lparr>info_id = fast_id fast, info_qname = None, info_qtype = fast_qtype fast,
          info_question_end = fast_question_end fast,
          info_qname_wire_hash = fast_qname_wire_hash fast,
          info_qname_wire_hash_end = fast_qname_wire_hash_end fast,
          info_variant = variant, info_precomputed_cache_keys = None\<rparr>"

section \<open>The OPT record\<close>

fun find_opt_loop :: "bytes \<Rightarrow> nat \<Rightarrow> nat \<Rightarrow> (nat \<times> nat \<times> nat) option run" where
  "find_opt_loop packet 0 pos = Some None"
| "find_opt_loop packet (Suc n) pos =
     try_opt (Some (skip_name packet pos)) (\<lambda>name_end.
       if length packet < name_end + 10 then Some None
       else do {
         rr_type \<leftarrow> be16_at packet name_end;
         rdlen \<leftarrow> be16_at packet (name_end + 8);
         let rdata_start = name_end + 10;
         let rdata_end = rdata_start + unat rdlen;
         if length packet < rdata_end then Some None
         else if rr_type = 41 then Some (Some (name_end, rdata_start, rdata_end))
         else find_opt_loop packet n rdata_end
       })"

definition find_opt_record :: "bytes \<Rightarrow> nat \<Rightarrow> (nat \<times> nat \<times> nat) option run" where
  "find_opt_record packet qe =
     (if length packet < 12 then Some None
      else do {
        arcount \<leftarrow> be16_at packet 10;
        if arcount = 0 \<or> length packet \<le> qe then Some None
        else find_opt_loop packet (unat arcount) qe
      })"

definition ECS_OPTION_CODE :: u16 where
  "ECS_OPTION_CODE = 0x0008"

text \<open>
  \<open>parse_ecs_src\<close> copies the address bytes into a zeroed array and masks the bits past the
  prefix; \<open>!0 << n\<close> is \<open>push_bit n (- 1)\<close>.
\<close>

definition prefix_mask :: "nat \<Rightarrow> nat \<Rightarrow> 'w::len word" where
  "prefix_mask width plen = (if plen = 0 then 0 else push_bit (width - plen) (- 1))"

definition parse_ecs_src :: "bytes \<Rightarrow> EcsSrc option run" where
  "parse_ecs_src opt_data =
     (if length opt_data < 4 then Some None
      else do {
        family \<leftarrow> be16_at opt_data 0;
        prefix_len \<leftarrow> idx opt_data 2;
        addr_data \<leftarrow> slice opt_data 4 (length opt_data);
        if family = 1 then do {
          let n = min (length addr_data) 4;
          src \<leftarrow> slice addr_data 0 n;
          raw \<leftarrow> store_slice (replicate 4 0) 0 n src;
          let plen = min prefix_len 32;
          let masked = (of_be raw :: u32) AND prefix_mask 32 (unat plen);
          Some (Some \<lparr>ecs_addr = replicate 12 0 @ to_be 4 masked, ecs_prefix_len = plen\<rparr>)
        }
        else if family = 2 then do {
          let n = min (length addr_data) 16;
          src \<leftarrow> slice addr_data 0 n;
          raw \<leftarrow> store_slice (replicate 16 0) 0 n src;
          let plen = min prefix_len 128;
          let masked = (of_be raw :: u128) AND prefix_mask 128 (unat plen);
          Some (Some \<lparr>ecs_addr = to_be 16 masked, ecs_prefix_len = plen\<rparr>)
        }
        else Some None
      })"

function extract_opt_loop ::
  "bytes \<Rightarrow> nat \<Rightarrow> EcsSrc option \<Rightarrow> u16 list \<Rightarrow> (EcsSrc option \<times> u16 list) run" where
  "extract_opt_loop rdata pos ecs codes =
     (if pos + 4 \<le> length rdata then do {
        code \<leftarrow> be16_at rdata pos;
        opt_len \<leftarrow> be16_at rdata (pos + 2);
        let pos = pos + 4;
        let e = pos + unat opt_len;
        if length rdata < e then Some (ecs, codes)
        else if code = ECS_OPTION_CODE \<and> 4 \<le> unat opt_len then do {
          opt_data \<leftarrow> slice rdata pos e;
          ecs' \<leftarrow> parse_ecs_src opt_data;
          extract_opt_loop rdata e ecs' codes
        }
        else if code \<noteq> 12 then extract_opt_loop rdata e ecs (codes @ [code])
        else extract_opt_loop rdata e ecs codes
      } else Some (ecs, codes))"
  by pat_completeness auto
termination
  by (relation "measure (\<lambda>(r, pos, e, c). length r - pos)") auto

declare extract_opt_loop.simps [simp del]

definition opts_hash :: "u16 list \<Rightarrow> u64" where
  "opts_hash codes =
     (if codes = [] then 0
      else finish (fold (\<lambda>c h. fnv_write h (to_le 2 c)) (sort codes) fnv_new))"

definition extract_opt_data :: "bytes \<Rightarrow> (EcsSrc option \<times> u64) run" where
  "extract_opt_data rdata = do {
     r \<leftarrow> extract_opt_loop rdata 0 None [];
     Some (fst r, opts_hash (snd r))
   }"

definition extract_variant :: "bytes \<Rightarrow> nat \<Rightarrow> QueryVariant run" where
  "extract_variant packet qe =
     (if length packet < 12 then Some (no_edns False False False)
      else do {
        b2 \<leftarrow> idx packet 2;
        b3 \<leftarrow> idx packet 3;
        let r = (b2 AND 0x01 \<noteq> 0);
        let a = (b3 AND 0x20 \<noteq> 0);
        let c = (b3 AND 0x10 \<noteq> 0);
        opt \<leftarrow> find_opt_record packet qe;
        case opt of
          None \<Rightarrow> Some (no_edns r a c)
        | Some (name_end, rdata_start, rdata_end) \<Rightarrow> do {
            version \<leftarrow> idx packet (name_end + 5);
            b6 \<leftarrow> idx packet (name_end + 6);
            d \<leftarrow> extract_opt_data
                   (case slice packet rdata_start rdata_end of Some s \<Rightarrow> s | None \<Rightarrow> []);
            Some \<lparr>has_opt = True, do_bit = (b6 AND 0x80 \<noteq> 0), edns_version = version,
                  rd = r, ad = a, cd = c, ecs_src = fst d, extra_opts_hash = snd d\<rparr>
          }
      })"

section \<open>UDP truncation\<close>

definition client_udp_payload_size :: "bytes \<Rightarrow> nat \<Rightarrow> u16 run" where
  "client_udp_payload_size packet qe = do {
     opt \<leftarrow> find_opt_record packet qe;
     case opt of
       Some (name_end, _, _) \<Rightarrow> do { s \<leftarrow> be16_at packet (name_end + 2); Some (max s 512) }
     | None \<Rightarrow> Some 512
   }"

definition has_opt_record :: "bytes \<Rightarrow> nat \<Rightarrow> bool run" where
  "has_opt_record packet qe = do { opt \<leftarrow> find_opt_record packet qe; Some (opt \<noteq> None) }"

definition TC_OPT_RR :: bytes where
  "TC_OPT_RR = [0x00, 0x00, 0x29, 0x04, 0xD0, 0x00, 0x00, 0x00, 0x00, 0x00, 0x00]"

definition maybe_truncate_for_udp :: "bytes \<Rightarrow> bytes \<Rightarrow> bytes run" where
  "maybe_truncate_for_udp resp query =
     (case question_end query of
        None \<Rightarrow> Some resp
      | Some qe \<Rightarrow> do {
          limit \<leftarrow> client_udp_payload_size query qe;
          if length resp \<le> unat limit then Some resp
          else if length resp < qe \<or> qe < 12 then Some resp
          else do {
            client_edns \<leftarrow> has_opt_record query qe;
            stub \<leftarrow> slice resp 0 qe;
            b2 \<leftarrow> idx stub 2;
            stub \<leftarrow> store stub 2 (b2 OR 0x02);
            stub \<leftarrow> store stub 6 0;
            stub \<leftarrow> store stub 7 0;
            stub \<leftarrow> store stub 8 0;
            stub \<leftarrow> store stub 9 0;
            if client_edns then do {
              let stub = stub @ TC_OPT_RR;
              stub \<leftarrow> store stub 10 0;
              store stub 11 1
            } else do {
              stub \<leftarrow> store stub 10 0;
              store stub 11 0
            }
          }
        })"

section \<open>Comparing questions\<close>

text \<open>
  The loop of \<open>questions_match\<close>: the label bytes are compared one by one, a missing byte on
  either side ends the comparison with \<open>false\<close>.
\<close>

fun labels_match :: "bytes \<Rightarrow> bytes \<Rightarrow> nat \<Rightarrow> nat \<Rightarrow> bool" where
  "labels_match a b pos 0 \<longleftrightarrow> True"
| "labels_match a b pos (Suc n) \<longleftrightarrow>
     pos < length a \<and> pos < length b \<and> eq_ignore_ascii_case (a ! pos) (b ! pos) \<and>
     labels_match a b (pos + 1) n"

function questions_match_loop :: "bytes \<Rightarrow> bytes \<Rightarrow> nat \<Rightarrow> bool" where
  "questions_match_loop a b pos \<longleftrightarrow>
     (if length a - 4 < pos then False
      else if \<not> pos < length a then False
      else if \<not> pos < length b then False
      else let la = a ! pos; lb = b ! pos in
        if la \<noteq> lb then False
        else let pos = pos + 1 in
          if la = 0 then True
          else if labels_match a b pos (unat la) then questions_match_loop a b (pos + unat la)
          else False)"
  by pat_completeness auto
termination
  by (relation "measure (\<lambda>(a, b, pos). length a - pos)") auto

declare questions_match_loop.simps [simp del]

definition questions_match :: "bytes \<Rightarrow> bytes \<Rightarrow> bool run" where
  "questions_match a b =
     (if length a \<noteq> length b \<or> length a < 4 then Some False
      else do {
        ta \<leftarrow> slice a (length a - 4) (length a);
        tb \<leftarrow> slice b (length b - 4) (length b);
        if ta \<noteq> tb then Some False
        else Some (questions_match_loop a b 0)
      })"

section \<open>Walks to the OPT record\<close>

lemma parse_rr_unfold:
  "parse_rr p pos = Some (case skip_name p pos of
       None \<Rightarrow> None
     | Some f \<Rightarrow>
         if length p < f + 10 \<or> length p < f + 10 + unat (u16_of p (f + 8)) then None
         else Some (u16_of p f, u16_of p (f + 2), u32_of p (f + 4), f + 10,
                    f + 10 + unat (u16_of p (f + 8))))"
  by (simp add: parse_rr_def be16_at_in be32_at_in Let_def split: option.split)

lemma find_opt_step:
  "find_opt_loop p (Suc n) pos =
     (case parse_rr p pos of
        Some (Some r) \<Rightarrow>
          if rr_type r = 41 then Some (Some (rr_rdata r - 10, rr_rdata r, rr_end r))
          else find_opt_loop p n (rr_end r)
      | _ \<Rightarrow> Some None)"
  by (auto simp: parse_rr_unfold be16_at_in Let_def split: option.split)

text \<open>The first record of type OPT among the first \<open>n\<close> well-formed records.\<close>

fun first_opt :: "bytes \<Rightarrow> nat \<Rightarrow> nat \<Rightarrow> rr option" where
  "first_opt p 0 pos = None"
| "first_opt p (Suc n) pos =
     (case parse_rr p pos of
        Some (Some r) \<Rightarrow> if rr_type r = 41 then Some r else first_opt p n (rr_end r)
      | _ \<Rightarrow> None)"

lemma find_opt_loop_eq:
  "find_opt_loop p n pos =
     Some (map_option (\<lambda>r. (rr_rdata r - 10, rr_rdata r, rr_end r)) (first_opt p n pos))"
  by (induction n arbitrary: pos)
     (auto simp: find_opt_step simp del: find_opt_loop.simps(2) split: option.split)

lemma find_opt_record_eq:
  "find_opt_record p qe =
     Some (if length p < 12 \<or> length p \<le> qe then None
           else map_option (\<lambda>r. (rr_rdata r - 10, rr_rdata r, rr_end r)) (first_opt p (arcount p) qe))"
  by (auto simp: find_opt_record_def be16_at_in find_opt_loop_eq unat_eq_0)

lemma first_opt_SomeD:
  "first_opt p n pos = Some r \<Longrightarrow>
   rr_type r = 41 \<and> pos + 10 < rr_rdata r \<and> rr_rdata r \<le> rr_end r \<and> rr_end r \<le> length p"
proof (induction n arbitrary: pos)
  case (Suc n)
  then obtain s where s: "parse_rr p pos = Some (Some s)"
    by (auto split: option.splits)
  note b = parse_rr_bounds [OF s]
  show ?case
  proof (cases "rr_type s = 41")
    case True
    with Suc.prems s b show ?thesis by simp
  next
    case False
    with Suc.prems s have "first_opt p n (rr_end s) = Some r" by simp
    from Suc.IH [OF this] b show ?thesis by linarith
  qed
qed simp

section \<open>No panic\<close>

definition pad :: "nat \<Rightarrow> bytes \<Rightarrow> bytes" where
  "pad n bs = take n bs @ replicate (n - length bs) 0"

lemma length_pad [simp]: "length (pad n bs) = n"
  by (simp add: pad_def)

lemma parse_ecs_src_eq:
  assumes "4 \<le> length d"
  shows "parse_ecs_src d = Some
    (if u16_of d 0 = 1 then
       Some \<lparr>ecs_addr = replicate 12 0 @
               to_be 4 ((of_be (pad 4 (drop 4 d)) :: u32) AND prefix_mask 32 (unat (min (d ! 2) 32))),
             ecs_prefix_len = min (d ! 2) 32\<rparr>
     else if u16_of d 0 = 2 then
       Some \<lparr>ecs_addr =
               to_be 16 ((of_be (pad 16 (drop 4 d)) :: u128) AND prefix_mask 128 (unat (min (d ! 2) 128))),
             ecs_prefix_len = min (d ! 2) 128\<rparr>
     else None)"
proof -
  define a where "a = drop 4 d"
  have sa: "slice d 4 (length d) = Some a" using assms by (simp add: slice_in a_def)
  have s: "slice a 0 (min (length a) n) = Some (take n a)" for n
    by (simp add: slice_in min_def)
  have st: "store_slice (replicate n 0) 0 (min (length a) n) (take n a) = Some (pad n a)" for n
    by (simp add: store_slice_in pad_def)
  show ?thesis
    using assms by (simp add: parse_ecs_src_def be16_at_in idx_in sa s st Let_def flip: a_def)
qed

lemma parse_ecs_src_total: "\<exists>r. parse_ecs_src d = Some r"
  using parse_ecs_src_eq [of d] by (cases "length d < 4") (auto simp: parse_ecs_src_def not_less)

lemma extract_opt_loop_total: "\<exists>r. extract_opt_loop rdata pos ecs codes = Some r"
proof (induction rdata pos ecs codes rule: extract_opt_loop.induct)
  case (1 rdata pos ecs codes)
  show ?case
  proof (cases "pos + 4 \<le> length rdata \<and> pos + 4 + unat (u16_of rdata (pos + 2)) \<le> length rdata")
    case True
    then obtain e where "parse_ecs_src (take (unat (u16_of rdata (pos + 2))) (drop (pos + 4) rdata)) = Some e"
      using parse_ecs_src_total by blast
    with True "1.IH" show ?thesis
      by (subst extract_opt_loop.simps) (auto simp: be16_at_in slice_in Let_def not_less)
  next
    case False
    then show ?thesis by (subst extract_opt_loop.simps) (auto simp: be16_at_in Let_def)
  qed
qed

lemma extract_opt_data_total: "\<exists>r. extract_opt_data rdata = Some r"
  using extract_opt_loop_total [of rdata 0 None "[]"] by (auto simp: extract_opt_data_def)

lemma extract_variant_total: "\<exists>v. extract_variant p qe = Some v"
proof (cases "length p < 12 \<or> length p \<le> qe \<or> first_opt p (arcount p) qe = None")
  case True
  then show ?thesis by (auto simp: extract_variant_def find_opt_record_eq idx_in)
next
  case False
  then obtain r where r: "first_opt p (arcount p) qe = Some r" by auto
  note b = first_opt_SomeD [OF r]
  obtain d where "extract_opt_data
      (case slice p (rr_rdata r) (rr_end r) of Some s \<Rightarrow> s | None \<Rightarrow> []) = Some d"
    using extract_opt_data_total by blast
  moreover have "rr_rdata r - 10 + 5 < length p" "rr_rdata r - 10 + 6 < length p"
    using b by linarith+
  ultimately show ?thesis
    using False r by (simp add: extract_variant_def find_opt_record_eq idx_in)
qed

section \<open>Truncation\<close>

lemma client_udp_payload_size_eq:
  "\<exists>l. client_udp_payload_size p qe = Some l \<and> 512 \<le> unat l"
proof -
  have *: "512 \<le> unat (max s (512 :: u16))" for s :: u16
    by (simp add: max_def word_le_nat_alt)
  show ?thesis
  proof (cases "length p < 12 \<or> length p \<le> qe \<or> first_opt p (arcount p) qe = None")
    case True
    then show ?thesis by (auto simp: client_udp_payload_size_def find_opt_record_eq)
  next
    case False
    then obtain r where r: "first_opt p (arcount p) qe = Some r" by auto
    have "rr_rdata r - 10 + 2 + 1 < length p" using first_opt_SomeD [OF r] by linarith
    with False r * show ?thesis
      by (simp add: client_udp_payload_size_def find_opt_record_eq be16_at_in del: add_2_eq_Suc')
  qed
qed

definition truncated_stub :: "bytes \<Rightarrow> nat \<Rightarrow> bool \<Rightarrow> bytes" where
  "truncated_stub resp qe edns =
     [resp ! 0, resp ! 1, resp ! 2 OR 0x02, resp ! 3, resp ! 4, resp ! 5, 0, 0, 0, 0, 0,
      if edns then 1 else 0] @ drop 12 (take qe resp) @ (if edns then TC_OPT_RR else [])"

lemma maybe_truncate_cases:
  assumes "question_end query = Some qe" and "client_udp_payload_size query qe = Some limit"
    and "has_opt_record query qe = Some edns"
  shows "maybe_truncate_for_udp resp query =
    Some (if length resp \<le> unat limit \<or> length resp < qe then resp else truncated_stub resp qe edns)"
proof -
  have qe: "12 \<le> qe" using question_end_bounds [OF assms(1)] by simp
  have "maybe_truncate_for_udp resp query = Some (truncated_stub resp qe edns)"
    if long: "unat limit < length resp" "qe \<le> length resp"
  proof -
    from long qe have "12 \<le> length resp" by simp
    then obtain a0 a1 a2 a3 a4 a5 a6 a7 a8 a9 a10 a11 r
      where q: "resp = [a0, a1, a2, a3, a4, a5, a6, a7, a8, a9, a10, a11] @ r"
      by (rule header_split)
    obtain k where k: "qe = 12 + k" using qe le_Suc_ex by blast
    let ?h = "[a0, a1, a2, a3, a4, a5, a6, a7, a8, a9, a10, a11]"
    have "length ?h = 12" by simp
    then have t: "take qe resp = ?h @ take k r"
      unfolding q k by (simp only: take_append) simp
    have "slice resp 0 qe = Some (take qe resp)" using long by (simp add: slice_in)
    then show ?thesis
      using long qe assms
      by (simp add: maybe_truncate_for_udp_def truncated_stub_def t idx_in store_in not_le [symmetric])
         (simp add: q)
  qed
  then show ?thesis
    using assms qe by (auto simp: maybe_truncate_for_udp_def)
qed

lemma tc_lits: "be16 0 41 = 41" "be16 4 208 = 1232" "be32 0 0 0 0 = 0"
  by code_simp+

lemma parse_rr_tc_opt:
  "length pre = pos \<Longrightarrow> parse_rr (pre @ TC_OPT_RR) pos = Some (Some (41, 1232, 0, pos + 11, pos + 11))"
proof -
  assume pre: "length pre = pos"
  define p where "p = pre @ TC_OPT_RR"
  define f where "f = pos + 1"
  have "skip_name p pos = Some f"
    using pre by (subst skip_name.simps) (simp add: p_def f_def nth_append TC_OPT_RR_def)
  moreover have "u16_of p f = 41" "u16_of p (f + 2) = 1232" "u32_of p (f + 4) = 0" "u16_of p (f + 8) = 0"
    using pre by (simp_all add: p_def f_def u16_of_def u32_of_def nth_append TC_OPT_RR_def tc_lits)
  moreover have "length p = f + 10" using pre by (simp add: p_def f_def TC_OPT_RR_def)
  ultimately have "parse_rr p pos = Some (Some (41, 1232, 0, f + 10, f + 10))"
    using parse_rr_eq [of p pos f] by simp
  then show ?thesis by (simp add: p_def f_def)
qed

lemma take_length_append: "length h = n \<Longrightarrow> take n (h @ x) = h"
  by simp

lemma truncated_stub_reads:
  assumes "12 \<le> qe" and "qe \<le> length resp"
  shows "length (truncated_stub resp qe edns) = qe + (if edns then 11 else 0)"
    and "is_truncated (truncated_stub resp qe edns)"
    and "drop 12 (take qe (truncated_stub resp qe edns)) = drop 12 (take qe resp)"
    and "section_rrs (truncated_stub resp qe edns) qe =
           Some (if edns then [(41, 1232, 0, qe + 11, qe + 11)] else [])"
proof -
  let ?h = "[resp ! 0, resp ! 1, resp ! 2 OR 0x02, resp ! 3, resp ! 4, resp ! 5, 0, 0, 0, 0, 0,
      if edns then 1 else 0] @ drop 12 (take qe resp)"
  have h: "length ?h = qe" using assms by simp
  have tail: "truncated_stub resp qe edns = ?h @ (if edns then TC_OPT_RR else [])"
    by (simp add: truncated_stub_def)
  show len: "length (truncated_stub resp qe edns) = qe + (if edns then 11 else 0)"
    unfolding tail using h by (simp add: TC_OPT_RR_def)
  have "(x OR 2) AND (2 :: u8) = 2" for x :: u8
    by (simp only: and.commute [of _ 2] bit.conj_disj_distrib and.idem) (simp add: or.commute)
  then show "is_truncated (truncated_stub resp qe edns)"
    by (simp add: is_truncated_def truncated_stub_def)
  show "drop 12 (take qe (truncated_stub resp qe edns)) = drop 12 (take qe resp)"
  proof -
    have "take qe (truncated_stub resp qe edns) = ?h"
      unfolding tail by (rule take_length_append [OF h])
    then show ?thesis by simp
  qed
  have cnt: "u16_of (truncated_stub resp qe edns) 6 = 0" "u16_of (truncated_stub resp qe edns) 8 = 0"
    "u16_of (truncated_stub resp qe edns) 10 = (if edns then 1 else 0)"
    by (simp_all add: truncated_stub_def u16_of_def)
  show "section_rrs (truncated_stub resp qe edns) qe =
      Some (if edns then [(41, 1232, 0, qe + 11, qe + 11)] else [])"
  proof (cases edns)
    case True
    have "parse_rr (truncated_stub resp qe edns) qe = Some (Some (41, 1232, 0, qe + 11, qe + 11))"
      using parse_rr_tc_opt [OF h] True tail by simp
    then show ?thesis
      using True assms len cnt by (simp add: section_rrs_def not_less)
  next
    case False
    then show ?thesis using assms len cnt by (simp add: section_rrs_def not_less)
  qed
qed




section \<open>Matching questions\<close>

lemma labels_match_append:
  "length x = n \<Longrightarrow> length y = n \<Longrightarrow> length pre = pos \<Longrightarrow> length pre' = pos \<Longrightarrow>
   labels_match (pre @ x @ r) (pre' @ y @ r') pos n \<longleftrightarrow>
     map to_ascii_lowercase x = map to_ascii_lowercase y"
proof (induction n arbitrary: x y pre pre' pos)
  case (Suc n)
  then obtain c x' d y' where xy: "x = c # x'" "y = d # y'" "length x' = n" "length y' = n"
    by (auto simp: length_Suc_conv)
  have "labels_match ((pre @ [c]) @ x' @ r) ((pre' @ [d]) @ y' @ r') (pos + 1) n \<longleftrightarrow>
      map to_ascii_lowercase x' = map to_ascii_lowercase y'"
    by (rule Suc.IH) (use Suc.prems xy in auto)
  with Suc.prems xy show ?case by (simp add: nth_append eq_ignore_ascii_case_def)
qed simp

lemma questions_match_step:
  assumes "\<not> length a - 4 < pos" and "pos < length a" and "pos < length b"
  shows "a ! pos \<noteq> b ! pos \<Longrightarrow> \<not> questions_match_loop a b pos"
    and "a ! pos = b ! pos \<Longrightarrow> a ! pos \<noteq> 0 \<Longrightarrow> questions_match_loop a b pos \<longleftrightarrow>
      labels_match a b (pos + 1) (unat (a ! pos)) \<and>
      questions_match_loop a b (pos + 1 + unat (a ! pos))"
proof -
  note step = questions_match_loop.simps [of a b pos]
  show "a ! pos \<noteq> b ! pos \<Longrightarrow> \<not> questions_match_loop a b pos"
    using assms by (simp add: step Let_def)
  show "a ! pos = b ! pos \<Longrightarrow> a ! pos \<noteq> 0 \<Longrightarrow> questions_match_loop a b pos \<longleftrightarrow>
      labels_match a b (pos + 1) (unat (a ! pos)) \<and>
      questions_match_loop a b (pos + 1 + unat (a ! pos))"
    using assms by (simp add: step Let_def)
qed

lemma questions_match_loop_enc:
  "labels_ok ls \<Longrightarrow> labels_ok ms \<Longrightarrow> length pre = length pre' \<Longrightarrow>
   length (enc_labels ls) = length (enc_labels ms) \<Longrightarrow> length t = 4 \<Longrightarrow> length t' = 4 \<Longrightarrow>
   questions_match_loop (pre @ enc_labels ls @ t) (pre' @ enc_labels ms @ t') (length pre) \<longleftrightarrow>
     lower_labels ls = lower_labels ms"
proof (induction ls arbitrary: ms pre pre')
  case Nil
  then have "ms = []" using enc_labels_pos by (cases ms) auto
  with Nil.prems show ?case
    by (simp add: questions_match_loop.simps [of _ _ "length pre'"] nth_append)
next
  case (Cons l ls)
  obtain m ms' where ms: "ms = m # ms'"
    using Cons.prems(1,4) enc_labels_pos [of ls] by (cases ms) auto
  let ?b = "of_nat (length l) :: u8" and ?c = "of_nat (length m) :: u8"
  from Cons.prems [unfolded ms] have ok: "label_ok l" "labels_ok ls" "label_ok m" "labels_ok ms'" by auto
  note bl = label_byte [OF ok(1)] and bm = label_byte [OF ok(3)]
  let ?p = "pre @ enc_labels (l # ls) @ t" and ?q = "pre' @ enc_labels (m # ms') @ t'"
  have nth: "?p ! length pre = ?b" "?q ! length pre = ?c"
    using Cons.prems(3) by (simp_all add: nth_append)
  have inr: "\<not> length ?p - 4 < length pre" "length pre < length ?p" "length pre < length ?q"
    unfolding length_append
    using Cons.prems(3-6) enc_labels_pos [of "l # ls"] enc_labels_pos [of "m # ms'"] by linarith+
  show ?case
  proof (cases "length l = length m")
    case False
    then have "?p ! length pre \<noteq> ?q ! length pre" unfolding nth using bl(1) bm(1) by metis
    from questions_match_step(1) [OF inr this] have "\<not> questions_match_loop ?p ?q (length pre)" .
    moreover have "lower_labels (l # ls) \<noteq> lower_labels ms"
      using False ms map_eq_imp_length_eq by force
    ultimately show ?thesis unfolding ms by blast
  next
    case True
    have lm: "labels_match ?p ?q (length pre + 1) (length l) \<longleftrightarrow>
        map to_ascii_lowercase l = map to_ascii_lowercase m"
    proof -
      have e: "?p = (pre @ [?b]) @ l @ enc_labels ls @ t" "?q = (pre' @ [?c]) @ m @ enc_labels ms' @ t'"
        by simp_all
      show ?thesis unfolding e by (rule labels_match_append) (use True Cons.prems(3) in simp_all)
    qed
    have rec: "questions_match_loop ?p ?q (length pre + 1 + length l) \<longleftrightarrow>
        lower_labels ls = lower_labels ms'"
      using Cons.IH [OF ok(2,4), of "pre @ ?b # l" "pre' @ ?c # m"] Cons.prems(3-6) True ms by simp
    have "questions_match_loop ?p ?q (length pre) \<longleftrightarrow>
        (labels_match ?p ?q (length pre + 1) (length l) \<and>
         questions_match_loop ?p ?q (length pre + 1 + length l))"
      by (rule questions_match_step(2) [OF inr, unfolded nth bl(1)]) (simp_all only: True bm bl not_False_eq_True)
    with lm rec show ?thesis unfolding ms by simp
  qed
qed

lemma questions_match_enc:
  assumes "labels_ok ls" "labels_ok ms" "length t = 4" "length t' = 4"
  shows "questions_match (enc_labels ls @ t) (enc_labels ms @ t') =
    Some (lower_labels ls = lower_labels ms \<and> t = t')"
proof (cases "length (enc_labels ls) = length (enc_labels ms)")
  case True
  have "questions_match_loop (enc_labels ls @ t) (enc_labels ms @ t') 0 \<longleftrightarrow>
      lower_labels ls = lower_labels ms"
    using questions_match_loop_enc [OF assms(1,2), of "[]" "[]"] True assms(3,4) by simp
  with True assms show ?thesis by (auto simp: questions_match_def slice_in)
next
  case False
  then have "lower_labels ls \<noteq> lower_labels ms" by (metis length_enc_lower)
  with False assms show ?thesis by (simp add: questions_match_def)
qed

lemma questions_match_shape:
  assumes p: "query_shape hdr ls tail rest p" and q: "query_shape hdr' ms tail' rest' q"
  shows "questions_match (drop 12 (take (12 + length (enc_labels ls) + 4) p))
      (drop 12 (take (12 + length (enc_labels ms) + 4) q)) =
    Some (lower_labels ls = lower_labels ms \<and> tail = tail')"
proof -
  have *: "drop 12 (take (12 + length (enc_labels ns) + 4) x) = enc_labels ns @ tl"
    if "query_shape h ns tl r x" for h ns tl r x
  proof -
    from that have x: "x = (h @ enc_labels ns @ tl) @ r"
      and len: "length (h @ enc_labels ns @ tl) = 12 + length (enc_labels ns) + 4" "length h = 12"
      by (auto simp: query_shape_def)
    have "take (12 + length (enc_labels ns) + 4) x = h @ enc_labels ns @ tl"
      unfolding x by (rule take_length_append [OF len(1)])
    then show ?thesis using len(2) by simp
  qed
  have "labels_ok ls" "labels_ok ms" "length tail = 4" "length tail' = 4"
    using p q by (auto simp: query_shape_def wire_name_ok_def)
  then show ?thesis unfolding * [OF p] * [OF q] by (rule questions_match_enc)
qed

text \<open>
  (C27) Questions are compared as names: for two accepted queries the byte-wise comparison
  of their question sections (used to refuse a cache entry stored under a colliding hash,
  and to validate an upstream's answer) holds exactly when the names agree label by label
  up to ASCII case and type and class are identical.
\<close>

theorem questions_match_exact:
  assumes p: "query_shape hdr ls tail rest p" and q: "query_shape hdr' ms tail' rest' q"
  shows "questions_match (drop 12 (take (12 + length (enc_labels ls) + 4) p))
      (drop 12 (take (12 + length (enc_labels ms) + 4) q)) =
    Some (lower_labels ls = lower_labels ms \<and> tail = tail')"
  using assms by (rule questions_match_shape)

theorem questions_match_exact_witness:
  "questions_match (drop 12 (take 22 sample_query)) (drop 12 (take 22 (sample_query[13 := 97]))) = Some True"
proof -
  have "query_shape (take 12 sample_query) [[65], [98, 99]] [0, 28, 0, 1] [] sample_query"
    "query_shape (take 12 sample_query) [[97], [98, 99]] [0, 28, 0, 1] [] (sample_query[13 := 97])"
    by code_simp+
  from questions_match_exact [OF this]
  have "questions_match (drop 12 (take 22 sample_query)) (drop 12 (take 22 (sample_query[13 := 97]))) =
      Some (lower_labels [[65], [98, 99]] = lower_labels [[97], [98, 99 :: u8]])"
    by simp
  moreover have "lower_labels [[65], [98, 99]] = lower_labels [[97], [98, 99 :: u8]]" by code_simp
  ultimately show ?thesis by simp
qed

text \<open>
  Reading the EDNS properties of a query, its payload size and truncating a response
  never panic, on any byte strings and any question end.
\<close>

theorem query_variant_total:
  "(\<exists>v. extract_variant p qe = Some v) \<and> (\<exists>l. client_udp_payload_size p qe = Some l \<and> 512 \<le> unat l) \<and>
   (\<exists>r. maybe_truncate_for_udp resp p = Some r) \<and> (\<exists>b. questions_match p resp = Some b)"
proof (intro conjI)
  show "\<exists>v. extract_variant p qe = Some v" by (rule extract_variant_total)
  show "\<exists>l. client_udp_payload_size p qe = Some l \<and> 512 \<le> unat l"
    by (rule client_udp_payload_size_eq)
  show "\<exists>b. questions_match p resp = Some b"
    by (cases "length p \<noteq> length resp \<or> length p < 4";
        cases "drop (length p - 4) p = drop (length resp - 4) resp")
       (auto simp: questions_match_def slice_in)
  show "\<exists>r. maybe_truncate_for_udp resp p = Some r"
  proof (cases "question_end p")
    case (Some e)
    obtain l where l: "client_udp_payload_size p e = Some l"
      using client_udp_payload_size_eq by blast
    obtain d where d: "has_opt_record p e = Some d"
      by (simp add: has_opt_record_def find_opt_record_eq)
    from maybe_truncate_cases [OF Some l d] show ?thesis by blast
  qed (simp add: maybe_truncate_for_udp_def)
qed

end
