(* ===== verification/Dns_Ecs.thy ===== *)
theory Dns_Ecs
  imports Dns_Variant
begin

text \<open>
  \<open>src/dns/ecs.rs\<close>: locating the OPT record behind the answer and authority sections,
  stripping its options, and replacing the client-subnet option.
\<close>

record EcsSubnet =
  subnet_addr :: IpAddr
  subnet_prefix_len :: u8

record OptLocation =
  loc_name_end :: nat
  loc_rdata_start :: nat
  loc_rdata_end :: nat

section \<open>Locating the OPT record\<close>

fun skip_questions :: "bytes \<Rightarrow> nat \<Rightarrow> nat \<Rightarrow> nat option" where
  "skip_questions packet 0 pos = Some pos"
| "skip_questions packet (Suc n) pos =
     (case skip_name packet pos of
        None \<Rightarrow> None
      | Some pos \<Rightarrow>
          if pos + 4 \<le> length packet then skip_questions packet n (pos + 4) else None)"

fun skip_records :: "bytes \<Rightarrow> nat \<Rightarrow> nat \<Rightarrow> nat option run" where
  "skip_records packet 0 pos = Some (Some pos)"
| "skip_records packet (Suc n) pos =
     try_opt (Some (skip_name packet pos)) (\<lambda>fixed.
       if length packet < fixed + 10 then Some None
       else do {
         rdlen \<leftarrow> be16_at packet (fixed + 8);
         let pos = fixed + (10 + unat rdlen);
         if pos \<le> length packet then skip_records packet n pos else Some None
       })"

fun locate_opt_loop :: "bytes \<Rightarrow> nat \<Rightarrow> nat \<Rightarrow> OptLocation option option run" where
  "locate_opt_loop packet 0 pos = Some (Some None)"
| "locate_opt_loop packet (Suc n) pos =
     try_opt (Some (skip_name packet pos)) (\<lambda>name_end.
       if length packet < name_end + 10 then Some None
       else do {
         rr_type \<leftarrow> be16_at packet name_end;
         rdlen \<leftarrow> be16_at packet (name_end + 8);
         let rdata_start = name_end + 10;
         let rdata_end = rdata_start + unat rdlen;
         if length packet < rdata_end then Some None
         else if rr_type = 41 then
           Some (Some (Some \<lparr>loc_name_end = name_end, loc_rdata_start = rdata_start,
                             loc_rdata_end = rdata_end\<rparr>))
         else locate_opt_loop packet n rdata_end
       })"

definition locate_opt :: "bytes \<Rightarrow> OptLocation option option run" where
  "locate_opt packet =
     (if length packet < 12 then Some None
      else do {
        ar \<leftarrow> be16_at packet 10;
        if unat ar = 0 then Some (Some None)
        else do {
          qd \<leftarrow> be16_at packet 4;
          an \<leftarrow> be16_at packet 6;
          ns \<leftarrow> be16_at packet 8;
          try_opt (Some (skip_questions packet (unat qd) 12)) (\<lambda>pos.
          try_opt (skip_records packet (unat an + unat ns) pos) (\<lambda>pos.
            locate_opt_loop packet (unat ar) pos))
        }
      })"

section \<open>Stripping\<close>

definition strip_opt_rdata :: "bytes \<Rightarrow> bytes option run" where
  "strip_opt_rdata packet =
     try_opt (locate_opt packet) (\<lambda>o_loc.
     try_opt (Some o_loc) (\<lambda>loc.
       if loc_rdata_end loc = loc_rdata_start loc then Some None
       else do {
         let rdlen_pos = loc_name_end loc + 8;
         front \<leftarrow> slice packet 0 rdlen_pos;
         back \<leftarrow> slice packet (loc_rdata_end loc) (length packet);
         Some (Some (front @ to_be 2 (0 :: u16) @ back))
       }))"

text \<open>
  The option walk of \<open>strip_ecs_from_opt\<close>: \<open>None\<close> when an option runs past the end of the
  RDATA, otherwise whether a client-subnet option was found and the other options.
\<close>

function strip_ecs_loop :: "bytes \<Rightarrow> nat \<Rightarrow> bool \<Rightarrow> bytes \<Rightarrow> (bool \<times> bytes) option run" where
  "strip_ecs_loop rdata pos found_ecs new_rdata =
     (if pos + 4 \<le> length rdata then do {
        code \<leftarrow> be16_at rdata pos;
        opt_len \<leftarrow> be16_at rdata (pos + 2);
        let e = pos + 4 + unat opt_len;
        if length rdata < e then Some None
        else if code = ECS_OPTION_CODE then strip_ecs_loop rdata e True new_rdata
        else do {
          opt \<leftarrow> slice rdata pos e;
          strip_ecs_loop rdata e found_ecs (new_rdata @ opt)
        }
      } else Some (Some (found_ecs, new_rdata)))"
  by pat_completeness auto
termination
  by (relation "measure (\<lambda>(r, pos, f, n). length r - pos)") auto

declare strip_ecs_loop.simps [simp del]

text \<open>
  Replacing the RDATA of the OPT record and its length field, as both
  \<open>strip_ecs_from_opt\<close> and \<open>inject_or_replace_ecs\<close> do; \<open>new_rdata.len() as u16\<close> truncates.
\<close>

definition replace_rdata :: "bytes \<Rightarrow> nat \<Rightarrow> nat \<Rightarrow> bytes \<Rightarrow> bytes run" where
  "replace_rdata packet rdata_start rdata_end new_rdata = do {
     let new_rdlen = (of_nat (length new_rdata) :: u16);
     let rdlen_pos = rdata_start - 2;
     front \<leftarrow> slice packet 0 rdata_start;
     back \<leftarrow> slice packet rdata_end (length packet);
     let out = front @ new_rdata @ back;
     out \<leftarrow> store out rdlen_pos (ucast (drop_bit 8 new_rdlen));
     store out (rdlen_pos + 1) (ucast (new_rdlen AND 0xff))
   }"

definition strip_ecs_from_opt :: "bytes \<Rightarrow> nat \<Rightarrow> nat \<Rightarrow> bytes option run" where
  "strip_ecs_from_opt packet rdata_start rdata_end = do {
     rdata \<leftarrow> slice packet rdata_start rdata_end;
     try_opt (strip_ecs_loop rdata 0 False []) (\<lambda>(found_ecs, new_rdata).
       if \<not> found_ecs then Some None
       else do {
         out \<leftarrow> replace_rdata packet rdata_start rdata_end new_rdata;
         Some (Some out)
       })
   }"

definition strip_edns_ecs :: "bytes \<Rightarrow> bytes option run" where
  "strip_edns_ecs packet =
     try_opt (locate_opt packet) (\<lambda>o_loc.
     try_opt (Some o_loc) (\<lambda>loc.
       strip_ecs_from_opt packet (loc_rdata_start loc) (loc_rdata_end loc)))"

section \<open>Injecting\<close>

definition encode_ecs_option :: "EcsSubnet \<Rightarrow> bytes run" where
  "encode_ecs_option subnet = do {
     let (family, full_addr) =
       (case subnet_addr subnet of
          V4 v4 \<Rightarrow> (1 :: u16, to_be 4 v4 @ replicate 12 0)
        | V6 v6 \<Rightarrow> (2, to_be 16 v6));
     let prefix_len = subnet_prefix_len subnet;
     addr_bytes \<leftarrow> (if family = 1 then slice full_addr 0 4
                    else slice full_addr 0 (length full_addr));
     let byte_count = min ((unat prefix_len + 7) div 8) (length addr_bytes);
     addr_truncated \<leftarrow> slice addr_bytes 0 byte_count;
     let data_len = 4 + byte_count;
     Some (to_be 2 ECS_OPTION_CODE @ to_be 2 (of_nat data_len :: u16) @ to_be 2 family
           @ [prefix_len, 0] @ addr_truncated)
   }"

definition inject_or_replace_ecs :: "bytes \<Rightarrow> EcsSubnet \<Rightarrow> bytes option run" where
  "inject_or_replace_ecs packet subnet =
     (if length packet < 12 then Some None
      else do {
        ecs_opt \<leftarrow> encode_ecs_option subnet;
        ar \<leftarrow> be16_at packet 10;
        try_opt (locate_opt packet) (\<lambda>o_loc.
          case o_loc of
            Some loc \<Rightarrow> do {
              rdata \<leftarrow> slice packet (loc_rdata_start loc) (loc_rdata_end loc);
              try_opt (strip_ecs_loop rdata 0 False []) (\<lambda>(_, new_rdata). do {
                out \<leftarrow> replace_rdata packet (loc_rdata_start loc) (loc_rdata_end loc)
                         (new_rdata @ ecs_opt);
                Some (Some out)
              })
            }
          | None \<Rightarrow> do {
              let new_rdlen = (of_nat (length ecs_opt) :: u16);
              let out = packet @ [0x00] @ to_be 2 (41 :: u16) @ to_be 2 (4096 :: u16)
                        @ to_be 4 (0 :: u32) @ to_be 2 new_rdlen @ ecs_opt;
              let new_ar = ar + 1;
              out \<leftarrow> store out 10 (ucast (drop_bit 8 new_ar));
              out \<leftarrow> store out 11 (ucast (new_ar AND 0xff));
              Some (Some out)
            })
      })"

section \<open>Walks depend on a prefix only\<close>

lemma take_eqD:
  assumes "take n q = take n p" and "i < n" and "i < length p"
  shows "i < length q" and "q ! i = p ! i"
proof -
  have "length (take n q) = length (take n p)" using assms(1) by simp
  with assms(2,3) show "i < length q" by auto
  from assms show "q ! i = p ! i" by (metis nth_take)
qed

lemma take_eq_le: "take n q = take n p \<Longrightarrow> m \<le> n \<Longrightarrow> take m q = take m p"
  by (metis min.absorb1 take_take)

lemma skip_name_prefix:
  assumes "skip_name p pos = Some e" and "take n q = take n p" and "e \<le> n"
  shows "skip_name q pos = Some e"
proof (rule skip_name_local [OF assms(1)])
  note b = skip_name_bounds [OF assms(1)]
  have "e - 1 < length q" by (rule take_eqD(1) [OF assms(2)]) (use b assms(3) in linarith)+
  with b show "e \<le> length q" by linarith
  show "q ! i = p ! i" if "pos \<le> i" "i < e" for i
    by (rule take_eqD(2) [OF assms(2)]) (use that b assms(3) in linarith)+
qed

lemma u16_of_prefix:
  assumes "take n q = take n p" and "i + 2 \<le> n" and "i + 2 \<le> length p"
  shows "u16_of q i = u16_of p i"
proof (rule u16_of_cong)
  show "q ! i = p ! i" "q ! (i + 1) = p ! (i + 1)"
    using take_eqD(2) [OF assms(1)] assms(2,3) by simp_all
qed

lemma u32_of_prefix:
  assumes "take n q = take n p" and "i + 4 \<le> n" and "i + 4 \<le> length p"
  shows "u32_of q i = u32_of p i"
  by (rule u32_of_cong) (use take_eqD(2) [OF assms(1)] assms(2,3) in simp)

lemma parse_rr_SomeD:
  assumes "parse_rr p pos = Some (Some (t, c, l, s, e))"
  obtains f where "skip_name p pos = Some f" "pos < f" "s = f + 10" "e \<le> length p"
    "e = f + 10 + unat (u16_of p (f + 8))" "t = u16_of p f" "c = u16_of p (f + 2)" "l = u32_of p (f + 4)"
  using assms skip_name_bounds [of p pos]
  by (auto simp: parse_rr_unfold not_less split: option.splits if_splits)

text \<open>
  The record a walk reads is fixed by the bytes up to its length field; changing that field
  and what follows only moves its end.
\<close>

lemma parse_rr_relocate:
  assumes "parse_rr p pos = Some (Some (t, c, l, s, e))" and q: "take (s - 2) q = take (s - 2) p"
    and fits: "s + unat (u16_of q (s - 2)) \<le> length q"
  shows "parse_rr q pos = Some (Some (t, c, l, s, s + unat (u16_of q (s - 2))))"
proof -
  from assms(1) obtain f where f: "skip_name p pos = Some f" "pos < f" "s = f + 10" "e \<le> length p"
    "e = f + 10 + unat (u16_of p (f + 8))" "t = u16_of p f" "c = u16_of p (f + 2)" "l = u32_of p (f + 4)"
    by (rule parse_rr_SomeD)
  then have s2: "s - 2 = f + 8" by simp
  have len: "f + 10 \<le> length p" using f(4,5) by linarith
  have "skip_name q pos = Some f"
    by (rule skip_name_prefix [OF f(1) q]) (use s2 in linarith)
  moreover have "u16_of q f = t" "u16_of q (f + 2) = c" "u32_of q (f + 4) = l"
    using u16_of_prefix [OF q, of f] u16_of_prefix [OF q, of "f + 2"] u32_of_prefix [OF q, of "f + 4"]
      f(6-8) s2 len by simp_all
  moreover have "f + 10 + unat (u16_of q (f + 8)) \<le> length q"
    using fits unfolding s2 by (simp only: f(3))
  ultimately show ?thesis
    unfolding s2 using parse_rr_eq [of q pos f] by (simp only: f(3))
qed

lemma parse_rr_prefix:
  assumes "parse_rr p pos = Some (Some r)" and "take n q = take n p" and "rr_end r \<le> n"
  shows "parse_rr q pos = Some (Some r)"
proof -
  obtain t c l s e where r: "r = (t, c, l, s, e)" by (metis prod.exhaust)
  from assms(1) r obtain f where f: "skip_name p pos = Some f" "pos < f" "s = f + 10" "e \<le> length p"
    "e = f + 10 + unat (u16_of p (f + 8))" by (auto elim: parse_rr_SomeD)
  have s2: "s - 2 = f + 8" using f(3) by simp
  have e: "e \<le> n" using assms(3) r by simp
  have u: "u16_of q (f + 8) = u16_of p (f + 8)"
    by (rule u16_of_prefix [OF assms(2)]) (use e f in linarith)+
  have "e - 1 < length q"
    by (rule take_eqD(1) [OF assms(2)]) (use e f in linarith)+
  then have "s + unat (u16_of q (s - 2)) \<le> length q" unfolding s2 u using f by linarith
  moreover have "take (s - 2) q = take (s - 2) p"
    by (rule take_eq_le [OF assms(2)]) (use e f s2 in linarith)
  ultimately have "parse_rr q pos = Some (Some (t, c, l, s, s + unat (u16_of q (s - 2))))"
    using parse_rr_relocate [OF assms(1) [unfolded r]] by blast
  then show ?thesis unfolding s2 u using f r by (simp only:)
qed

lemma skip_questions_bounds: "skip_questions p n pos = Some e \<Longrightarrow> pos \<le> length p \<Longrightarrow> pos \<le> e \<and> e \<le> length p"
  by (induction n arbitrary: pos)
     (fastforce split: option.splits if_splits dest: skip_name_bounds)+

lemma skip_questions_prefix:
  "skip_questions p n pos = Some e \<Longrightarrow> take m q = take m p \<Longrightarrow> e \<le> m \<Longrightarrow> e \<le> length p \<Longrightarrow>
   skip_questions q n pos = Some e"
proof (induction n arbitrary: pos)
  case (Suc n)
  then obtain f where f: "skip_name p pos = Some f" "f + 4 \<le> length p"
    and rec: "skip_questions p n (f + 4) = Some e"
    by (auto split: option.splits if_splits)
  have le: "f + 4 \<le> e" using skip_questions_bounds [OF rec f(2)] by simp
  have "f + 3 < length q"
    by (rule take_eqD(1) [OF Suc.prems(2)]) (use le Suc.prems(3) f in linarith)+
  moreover have "skip_name q pos = Some f"
    by (rule skip_name_prefix [OF f(1) Suc.prems(2)]) (use le Suc.prems(3) in linarith)
  moreover have "skip_questions q n (f + 4) = Some e"
    by (rule Suc.IH [OF rec Suc.prems(2-4)])
  ultimately show ?case by simp
qed simp

lemma skip_records_step:
  "skip_records p (Suc n) pos =
     (case parse_rr p pos of Some (Some r) \<Rightarrow> skip_records p n (rr_end r) | _ \<Rightarrow> Some None)"
  by (auto simp: parse_rr_unfold be16_at_in Let_def add.assoc split: option.split)

lemma skip_records_bounds:
  "skip_records p n pos = Some (Some e) \<Longrightarrow> pos \<le> length p \<Longrightarrow> pos \<le> e \<and> e \<le> length p"
proof (induction n arbitrary: pos)
  case (Suc n)
  then obtain r where r: "parse_rr p pos = Some (Some r)" "skip_records p n (rr_end r) = Some (Some e)"
    by (auto simp: skip_records_step simp del: skip_records.simps split: option.splits)
  from parse_rr_bounds [OF r(1)] Suc.IH [OF r(2)] show ?case by linarith
qed simp

lemma skip_records_prefix:
  "skip_records p n pos = Some (Some e) \<Longrightarrow> take m q = take m p \<Longrightarrow> e \<le> m \<Longrightarrow>
   skip_records q n pos = Some (Some e)"
proof (induction n arbitrary: pos)
  case (Suc n)
  then obtain r where r: "parse_rr p pos = Some (Some r)" "skip_records p n (rr_end r) = Some (Some e)"
    by (auto simp: skip_records_step simp del: skip_records.simps split: option.splits)
  have "rr_end r \<le> e" using skip_records_bounds [OF r(2)] parse_rr_bounds [OF r(1)] by simp
  then have "parse_rr q pos = Some (Some r)"
    using parse_rr_prefix [OF r(1) Suc.prems(2)] Suc.prems(3) by simp
  then show ?case
    using Suc.IH [OF r(2) Suc.prems(2,3)] by (simp add: skip_records_step del: skip_records.simps)
qed simp

lemma skip_records_total: "\<exists>r. skip_records p n pos = Some r"
proof (induction n arbitrary: pos)
  case (Suc n)
  then show ?case
    by (auto simp: skip_records_step parse_rr_unfold simp del: skip_records.simps split: option.splits)
qed simp

section \<open>Relocating the OPT record\<close>

definition rr_loc :: "rr \<Rightarrow> OptLocation" where
  "rr_loc r = \<lparr>loc_name_end = rr_rdata r - 10, loc_rdata_start = rr_rdata r, loc_rdata_end = rr_end r\<rparr>"

lemma locate_opt_step:
  "locate_opt_loop p (Suc n) pos =
     (case parse_rr p pos of
        Some (Some r) \<Rightarrow>
          if rr_type r = 41 then Some (Some (Some (rr_loc r))) else locate_opt_loop p n (rr_end r)
      | _ \<Rightarrow> Some None)"
  by (auto simp: parse_rr_unfold be16_at_in Let_def rr_loc_def split: option.split)

lemma locate_opt_loop_total: "\<exists>r. locate_opt_loop p n pos = Some r"
proof (induction n arbitrary: pos)
  case (Suc n)
  then show ?case
    by (auto simp: locate_opt_step parse_rr_unfold simp del: locate_opt_loop.simps split: option.splits)
qed simp

lemma locate_opt_loop_first:
  "locate_opt_loop p n pos = Some (Some (Some loc)) \<Longrightarrow> \<exists>r. first_opt p n pos = Some r \<and> loc = rr_loc r"
  by (induction n arbitrary: pos)
     (auto simp: locate_opt_step simp del: locate_opt_loop.simps(2) split: option.splits if_splits)

lemma locate_opt_loop_of_first:
  "first_opt p n pos = Some r \<Longrightarrow> locate_opt_loop p n pos = Some (Some (Some (rr_loc r)))"
  by (induction n arbitrary: pos)
     (auto simp: locate_opt_step simp del: locate_opt_loop.simps(2) split: option.splits if_splits)

lemma first_opt_relocate:
  "first_opt p n pos = Some (t, c, l, s, e) \<Longrightarrow> take (s - 2) q = take (s - 2) p \<Longrightarrow>
   s + unat (u16_of q (s - 2)) \<le> length q \<Longrightarrow>
   first_opt q n pos = Some (t, c, l, s, s + unat (u16_of q (s - 2)))"
proof (induction n arbitrary: pos)
  case (Suc n)
  then obtain r where r: "parse_rr p pos = Some (Some r)" by (auto split: option.splits)
  show ?case
  proof (cases "rr_type r = 41")
    case True
    with Suc.prems(1) r have r': "r = (t, c, l, s, e)" by simp
    then have "parse_rr q pos = Some (Some (t, c, l, s, s + unat (u16_of q (s - 2))))"
      using parse_rr_relocate [OF r [unfolded r'] Suc.prems(2,3)] by simp
    with True r' show ?thesis by simp
  next
    case False
    with Suc.prems(1) r have rec: "first_opt p n (rr_end r) = Some (t, c, l, s, e)" by simp
    from first_opt_SomeD [OF rec] have "rr_end r + 10 < s" by simp
    then have "rr_end r \<le> s - 2" by linarith
    with parse_rr_prefix [OF r Suc.prems(2)] have "parse_rr q pos = Some (Some r)" by blast
    with False Suc.IH [OF rec Suc.prems(2,3)] show ?thesis by simp
  qed
qed simp

text \<open>Where the additional section starts, when the earlier sections are well formed.\<close>

definition additional_start :: "bytes \<Rightarrow> nat option" where
  "additional_start p =
     (case skip_questions p (unat (u16_of p 4)) 12 of
        None \<Rightarrow> None
      | Some pos \<Rightarrow> (case skip_records p (ancount p + nscount p) pos of
                      Some (Some e) \<Rightarrow> Some e | _ \<Rightarrow> None))"

lemma locate_opt_eq:
  "locate_opt p =
     (if length p < 12 then Some None
      else if arcount p = 0 then Some (Some None)
      else (case additional_start p of None \<Rightarrow> Some None
            | Some pos \<Rightarrow> locate_opt_loop p (arcount p) pos))"
proof (cases "skip_questions p (unat (u16_of p 4)) 12")
  case None
  then show ?thesis by (simp add: locate_opt_def be16_at_in additional_start_def)
next
  case (Some pos)
  obtain r where "skip_records p (ancount p + nscount p) pos = Some r"
    using skip_records_total by blast
  with Some show ?thesis
    by (cases r) (simp_all add: locate_opt_def be16_at_in additional_start_def)
qed

lemma locate_opt_total: "\<exists>r. locate_opt p = Some r"
  using locate_opt_loop_total by (auto simp: locate_opt_eq split: option.split)

lemma additional_start_bounds: "additional_start p = Some e \<Longrightarrow> 12 \<le> length p \<Longrightarrow> 12 \<le> e \<and> e \<le> length p"
  by (auto simp: additional_start_def split: option.splits
      dest!: skip_questions_bounds skip_records_bounds)

lemma additional_start_prefix:
  assumes "additional_start p = Some e" and "12 \<le> length p" and q: "take m q = take m p" and "e \<le> m"
  shows "additional_start q = Some e"
proof -
  from assms(1) obtain pos where pos: "skip_questions p (unat (u16_of p 4)) 12 = Some pos"
    and rec: "skip_records p (ancount p + nscount p) pos = Some (Some e)"
    by (auto simp: additional_start_def split: option.splits)
  have b: "12 \<le> pos" "pos \<le> length p" using skip_questions_bounds [OF pos] assms(2) by auto
  have e: "pos \<le> e" using skip_records_bounds [OF rec] b by simp
  have cnt: "u16_of q 4 = u16_of p 4" "u16_of q 6 = u16_of p 6" "u16_of q 8 = u16_of p 8"
    by (rule u16_of_prefix [OF q]; use assms(2,4) b e in linarith)+
  have "skip_questions q (unat (u16_of q 4)) 12 = Some pos"
    unfolding cnt by (rule skip_questions_prefix [OF pos q]) (use assms(4) b e in linarith)+
  moreover have "skip_records q (ancount q + nscount q) pos = Some (Some e)"
    unfolding cnt by (rule skip_records_prefix [OF rec q assms(4)])
  ultimately show ?thesis by (simp add: additional_start_def)
qed

lemma locate_opt_SomeD:
  assumes "locate_opt p = Some (Some (Some loc))"
  obtains pos r where "12 \<le> length p" "additional_start p = Some pos" "12 \<le> pos"
    "first_opt p (arcount p) pos = Some r" "loc = rr_loc r"
    "pos + 10 < rr_rdata r" "rr_rdata r \<le> rr_end r" "rr_end r \<le> length p"
proof -
  from assms obtain pos where len: "12 \<le> length p" and pos: "additional_start p = Some pos"
    and loop: "locate_opt_loop p (arcount p) pos = Some (Some (Some loc))"
    by (auto simp: locate_opt_eq not_less split: if_splits option.splits)
  from locate_opt_loop_first [OF loop] obtain r
    where r: "first_opt p (arcount p) pos = Some r" and loc: "loc = rr_loc r" by blast
  show ?thesis
    using that [OF len pos _ r loc] first_opt_SomeD [OF r] additional_start_bounds [OF pos len] by simp
qed

text \<open>
  The two OPT walks of the code: \<open>find_opt_record\<close> starts at the end of the question, which
  is right for a query without answer and authority records; \<open>locate_opt\<close> skips those
  sections first.
\<close>

lemma additional_start_query:
  assumes "question_end p = Some qe" and "u16_of p 4 = 1" and "u16_of p 6 = 0" and "u16_of p 8 = 0"
  shows "additional_start p = Some qe"
  using assms
  by (auto simp: additional_start_def question_end_def not_less numeral_eq_Suc
      split: option.splits if_splits)

section \<open>Options as lists\<close>

text \<open>
  The abstract value of the OPT RDATA is its list of options. A walk stops in front of the
  last bytes (fewer than four) that cannot hold an option header.
\<close>

definition enc_opt :: "u16 \<times> bytes \<Rightarrow> bytes" where
  "enc_opt opt = to_be 2 (fst opt) @ to_be 2 (of_nat (length (snd opt)) :: u16) @ snd opt"

definition enc_opts :: "(u16 \<times> bytes) list \<Rightarrow> bytes" where
  "enc_opts os = concat (map enc_opt os)"

definition opts_ok :: "(u16 \<times> bytes) list \<Rightarrow> bool" where
  "opts_ok os \<longleftrightarrow> list_all (\<lambda>opt. length (snd opt) < 65536) os"

definition non_ecs :: "(u16 \<times> bytes) list \<Rightarrow> (u16 \<times> bytes) list" where
  "non_ecs os = filter (\<lambda>opt. fst opt \<noteq> ECS_OPTION_CODE) os"

lemma enc_opts_simps [simp]:
  "enc_opts [] = []" "enc_opts (opt # os) = enc_opt opt @ enc_opts os"
  "enc_opts (os @ os') = enc_opts os @ enc_opts os'"
  by (simp_all add: enc_opts_def)

lemma opts_ok_simps [simp]:
  "opts_ok []" "opts_ok (opt # os) \<longleftrightarrow> length (snd opt) < 65536 \<and> opts_ok os"
  "opts_ok (os @ os') \<longleftrightarrow> opts_ok os \<and> opts_ok os'"
  by (auto simp: opts_ok_def)

lemma non_ecs_simps [simp]:
  "non_ecs [] = []"
  "non_ecs (opt # os) = (if fst opt = ECS_OPTION_CODE then non_ecs os else opt # non_ecs os)"
  by (simp_all add: non_ecs_def)

lemma non_ecs_idem: "non_ecs (non_ecs os) = non_ecs os"
  by (simp add: non_ecs_def)

lemma opts_ok_non_ecs: "opts_ok os \<Longrightarrow> opts_ok (non_ecs os)"
  by (auto simp: opts_ok_def non_ecs_def list_all_iff)

lemma length_enc_opt [simp]: "length (enc_opt opt) = 4 + length (snd opt)"
  by (simp add: enc_opt_def)

lemma length_enc_non_ecs: "length (enc_opts (non_ecs os)) \<le> length (enc_opts os)"
  by (induction os) auto

lemma enc_opt_read:
  assumes "length (snd opt) < 65536"
  shows "u16_of (pre @ enc_opt opt @ rest) (length pre) = fst opt"
    and "unat (u16_of (pre @ enc_opt opt @ rest) (length pre + 2)) = length (snd opt)"
    and "take (length (snd opt)) (drop (length pre + 4) (pre @ enc_opt opt @ rest)) = snd opt"
    and "take (4 + length (snd opt)) (drop (length pre) (pre @ enc_opt opt @ rest)) = enc_opt opt"
proof -
  show "u16_of (pre @ enc_opt opt @ rest) (length pre) = fst opt"
    by (simp add: enc_opt_def u16_of_def nth_append to_be_2)
  have "u16_of (pre @ enc_opt opt @ rest) (length pre + 2) = of_nat (length (snd opt))"
    by (simp add: enc_opt_def u16_of_def nth_append to_be_2)
  then show "unat (u16_of (pre @ enc_opt opt @ rest) (length pre + 2)) = length (snd opt)"
    using assms by (simp add: unat_of_nat)
  show "take (length (snd opt)) (drop (length pre + 4) (pre @ enc_opt opt @ rest)) = snd opt"
    by (simp add: enc_opt_def)
  show "take (4 + length (snd opt)) (drop (length pre) (pre @ enc_opt opt @ rest)) = enc_opt opt"
    by simp
qed

lemma strip_ecs_loop_stop: "length r < pos + 4 \<Longrightarrow> strip_ecs_loop r pos f acc = Some (Some (f, acc))"
  by (subst strip_ecs_loop.simps) simp

lemma strip_ecs_loop_step:
  assumes "pos + 4 + unat (u16_of r (pos + 2)) \<le> length r"
  shows "strip_ecs_loop r pos f acc =
    strip_ecs_loop r (pos + 4 + unat (u16_of r (pos + 2))) (f \<or> u16_of r pos = ECS_OPTION_CODE)
      (if u16_of r pos = ECS_OPTION_CODE then acc
       else acc @ take (4 + unat (u16_of r (pos + 2))) (drop pos r))"
  using assms by (subst strip_ecs_loop.simps) (simp add: be16_at_in slice_in Let_def)

lemma strip_ecs_loop_enc:
  "opts_ok os \<Longrightarrow> length junk < 4 \<Longrightarrow>
   strip_ecs_loop (pre @ enc_opts os @ junk) (length pre) f acc =
     Some (Some (f \<or> (\<exists>opt \<in> set os. fst opt = ECS_OPTION_CODE), acc @ enc_opts (non_ecs os)))"
proof (induction os arbitrary: pre f acc)
  case Nil
  then show ?case by (simp add: strip_ecs_loop_stop)
next
  case (Cons opt os)
  then have len: "length (snd opt) < 65536" and ok: "opts_ok os" by auto
  define r where "r = pre @ enc_opt opt @ (enc_opts os @ junk)"
  note rd = enc_opt_read [OF len, of pre "enc_opts os @ junk", folded r_def]
  have r': "r = (pre @ enc_opt opt) @ enc_opts os @ junk" by (simp add: r_def)
  have "strip_ecs_loop r (length pre) f acc = strip_ecs_loop r (length (pre @ enc_opt opt))
      (f \<or> fst opt = ECS_OPTION_CODE) (if fst opt = ECS_OPTION_CODE then acc else acc @ enc_opt opt)"
    using strip_ecs_loop_step [of "length pre" r f acc] rd r' by (simp add: add.assoc)
  also have "\<dots> = Some (Some ((f \<or> fst opt = ECS_OPTION_CODE) \<or> (\<exists>opt \<in> set os. fst opt = ECS_OPTION_CODE),
      (if fst opt = ECS_OPTION_CODE then acc else acc @ enc_opt opt) @ enc_opts (non_ecs os)))"
    unfolding r' by (rule Cons.IH [OF ok Cons.prems(2)])
  finally show ?case by (simp add: r_def)
qed

lemma to_be_be16: "to_be 2 (be16 a b) = [a, b]"
  by (simp add: be16_def to_be_of_be)

lemma enc_opt_split:
  assumes "pos + 4 + unat (u16_of r (pos + 2)) \<le> length r"
  shows "drop pos r = enc_opt (u16_of r pos, take (unat (u16_of r (pos + 2))) (drop (pos + 4) r))
           @ drop (pos + 4 + unat (u16_of r (pos + 2))) r"
proof -
  let ?n = "unat (u16_of r (pos + 2))"
  have hdr: "drop pos r = [r ! pos, r ! (pos + 1), r ! (pos + 2), r ! (pos + 3)] @ drop (pos + 4) r"
    using assms take_4_drop [of pos r] append_take_drop_id [of 4 "drop pos r"] by (simp add: add.commute)
  have "to_be 2 (u16_of r pos) = [r ! pos, r ! (pos + 1)]"
    and "to_be 2 (u16_of r (pos + 2)) = [r ! (pos + 2), r ! (pos + 2 + 1)]"
    by (simp_all only: u16_of_def to_be_be16)
  moreover have "drop (pos + 4) r = take ?n (drop (pos + 4) r) @ drop (pos + 4 + ?n) r"
    using append_take_drop_id [of ?n "drop (pos + 4) r"] by (simp add: add.commute)
  ultimately show ?thesis
    unfolding enc_opt_def using hdr assms by (simp add: numeral_3_eq_3)
qed

lemma strip_ecs_loop_decode:
  "strip_ecs_loop r pos f acc = Some (Some (f', out)) \<Longrightarrow> pos \<le> length r \<Longrightarrow>
   \<exists>os junk. drop pos r = enc_opts os @ junk \<and> opts_ok os \<and> length junk < 4"
proof (induction r pos f acc rule: strip_ecs_loop.induct)
  case (1 r pos f acc)
  let ?n = "unat (u16_of r (pos + 2))"
  show ?case
  proof (cases "pos + 4 \<le> length r")
    case False
    then show ?thesis by (intro exI [of _ "[]"] exI [of _ "drop pos r"]) auto
  next
    case True
    have le: "pos + 4 + ?n \<le> length r"
      using "1.prems"(1) True
      by (subst (asm) strip_ecs_loop.simps) (auto simp: be16_at_in Let_def not_less split: if_splits)
    have "\<exists>os junk. drop (pos + 4 + ?n) r = enc_opts os @ junk \<and> opts_ok os \<and> length junk < 4"
    proof (cases "u16_of r pos = ECS_OPTION_CODE")
      case ecs: True
      with "1.prems"(1) strip_ecs_loop_step [OF le, of f acc]
      have "strip_ecs_loop r (pos + 4 + ?n) True acc = Some (Some (f', out))" by simp
      then show ?thesis
        using "1.IH"(1) [OF True _ _ refl _ ecs] True le by (simp add: be16_at_in not_less)
    next
      case ecs: False
      with "1.prems"(1) strip_ecs_loop_step [OF le, of f acc]
      have "strip_ecs_loop r (pos + 4 + ?n) f (acc @ take (4 + ?n) (drop pos r)) = Some (Some (f', out))"
        by simp
      then show ?thesis
        using "1.IH"(2) [OF True _ _ refl _ ecs] True le by (simp add: be16_at_in slice_in not_less)
    qed
    then obtain os junk where os: "drop (pos + 4 + ?n) r = enc_opts os @ junk" "opts_ok os" "length junk < 4"
      by blast
    let ?d = "take ?n (drop (pos + 4) r)"
    have d: "length ?d = ?n" using le by simp
    have "drop pos r = enc_opt (u16_of r pos, ?d) @ drop (pos + 4 + ?n) r"
      using enc_opt_split [OF le] by simp
    with os d show ?thesis
      using be16_bound by (intro exI [of _ "(u16_of r pos, ?d) # os"] exI [of _ junk]) (simp add: unat_u16_of)
  qed
qed

section \<open>Rewriting the OPT record\<close>

lemma word_bytes:
  fixes w :: u16
  shows "[ucast (drop_bit 8 w), ucast (w AND 0xff)] = to_be 2 w"
proof -
  have "(ucast (drop_bit 8 w) :: u8) = of_nat (unat w div 256)"
    by (simp add: word_unat_eq_iff unsigned_ucast_eq unsigned_drop_bit_eq drop_bit_eq_div
        take_bit_eq_mod unat_of_nat unat_div)
  moreover have "(ucast (w AND 0xff) :: u8) = ucast w"
  proof -
    have "(0xff :: u16) = mask 8" by (simp add: mask_eq_exp_minus_1)
    then have "w AND 0xff = take_bit 8 w" by (simp add: take_bit_eq_mask)
    then show ?thesis
      by (simp add: word_unat_eq_iff unsigned_ucast_eq unsigned_take_bit_eq)
  qed
  ultimately show ?thesis by (simp add: to_be_2)
qed

definition with_rdata :: "bytes \<Rightarrow> nat \<Rightarrow> nat \<Rightarrow> bytes \<Rightarrow> bytes" where
  "with_rdata p s e nr = take (s - 2) p @ to_be 2 (of_nat (length nr) :: u16) @ nr @ drop e p"

lemma replace_rdata_eq:
  assumes "2 \<le> s" and "s \<le> e" and "e \<le> length p"
  shows "replace_rdata p s e nr = Some (with_rdata p s e nr)"
proof -
  define w where "w = (of_nat (length nr) :: u16)"
  have "s - 2 + 2 = s" using assms(1) by linarith
  with take_add [of "s - 2" 2 p] have "take s p = take (s - 2) p @ take 2 (drop (s - 2) p)"
    by (simp only:)
  moreover have "length (take 2 (drop (s - 2) p)) = 2" using assms by simp
  then obtain a b where "take 2 (drop (s - 2) p) = [a, b]"
    by (auto simp: numeral_2_eq_2 length_Suc_conv simp del: length_take length_drop)
  ultimately have t: "take s p = take (s - 2) p @ [a, b]" by simp
  have l: "length (take (s - 2) p) = s - 2" using assms by simp
  have sl: "slice p 0 s = Some (take s p)" "slice p e (length p) = Some (drop e p)"
    using assms by (simp_all add: slice_in)
  have "store (take s p @ nr @ drop e p) (s - 2) x = Some (take (s - 2) p @ [x, b] @ nr @ drop e p)" for x
    unfolding t using l by (simp add: store_in list_update_append)
  moreover have "store (take (s - 2) p @ [x, b] @ nr @ drop e p) (s - 2 + 1) y =
      Some (take (s - 2) p @ [x, y] @ nr @ drop e p)" for x y
    using l by (simp add: store_in list_update_append)
  ultimately have "replace_rdata p s e nr =
      Some (take (s - 2) p @ [ucast (drop_bit 8 w), ucast (w AND 0xff)] @ nr @ drop e p)"
    unfolding replace_rdata_def sl w_def [symmetric] by (simp only: Let_def bind.bind_lunit)
  then show ?thesis by (simp only: word_bytes with_rdata_def w_def)
qed

lemma opt_rewritten:
  assumes "first_opt p n pos = Some (t, c, l, s, e)" and "length nr < 65536"
  defines "q \<equiv> with_rdata p s e nr"
  shows "take (s - 2) q = take (s - 2) p"
    and "first_opt q n pos = Some (t, c, l, s, s + length nr)"
    and "take (length nr) (drop s q) = nr" and "s + length nr \<le> length q"
proof -
  from first_opt_SomeD [OF assms(1)] have b: "pos + 10 < s" "s \<le> e" "e \<le> length p" by auto
  then have l: "length (take (s - 2) p) = s - 2" by simp
  show pre: "take (s - 2) q = take (s - 2) p"
    unfolding q_def with_rdata_def by (rule take_length_append [OF l])
  have "u16_of q (s - 2) = of_nat (length nr)"
    using l by (simp add: q_def with_rdata_def u16_of_def nth_append to_be_2)
  then have n: "unat (u16_of q (s - 2)) = length nr" using assms(2) by (simp add: unat_of_nat)
  show len: "s + length nr \<le> length q" using b l by (simp add: q_def with_rdata_def)
  show "first_opt q n pos = Some (t, c, l, s, s + length nr)"
    using first_opt_relocate [OF assms(1) pre] n len by simp
  have "drop s q = nr @ drop e p"
  proof -
    have "q = (take (s - 2) p @ to_be 2 (of_nat (length nr) :: u16)) @ nr @ drop e p"
      by (simp add: q_def with_rdata_def)
    moreover have "length (take (s - 2) p @ to_be 2 (of_nat (length nr) :: u16)) = s"
      using b l by simp
    ultimately show ?thesis by (metis append_eq_conv_conj)
  qed
  then show "take (length nr) (drop s q) = nr" by simp
qed

lemma locate_opt_rewritten:
  assumes "12 \<le> length p" and "additional_start p = Some pos" and "12 \<le> pos"
    and opt: "first_opt p (arcount p) pos = Some (t, c, l, s, e)" and "length nr < 65536"
  defines "q \<equiv> with_rdata p s e nr"
  shows "locate_opt q = Some (Some (Some (rr_loc (t, c, l, s, s + length nr))))"
    and "additional_start q = Some pos" and "arcount q = arcount p"
proof -
  note w = opt_rewritten [OF opt assms(5), folded q_def]
  have b: "pos + 10 < s" using first_opt_SomeD [OF opt] by auto
  show st: "additional_start q = Some pos"
    by (rule additional_start_prefix [OF assms(2,1) w(1)]) (use b in linarith)
  have "u16_of q 10 = u16_of p 10"
    by (rule u16_of_prefix [OF w(1)]) (use b assms(1,3) in linarith)+
  then show ar: "arcount q = arcount p" by simp
  have "arcount p \<noteq> 0" using opt by (intro notI) simp
  then show "locate_opt q = Some (Some (Some (rr_loc (t, c, l, s, s + length nr))))"
    using w(2,4) b st ar assms(3) locate_opt_loop_of_first [OF w(2)] by (simp add: locate_opt_eq)
qed

section \<open>The subnet on the wire\<close>

lemma of_le_nat_zeros: "of_le_nat (replicate k 0 @ bs) = 256 ^ k * of_le_nat bs"
  by (induction k) auto

lemma drop_to_le_nat: "drop k (to_le_nat n x) = to_le_nat (n - k) (x div 256 ^ k)"
proof (induction k arbitrary: n x)
  case (Suc k)
  then show ?case by (cases n) (simp_all add: div_mult2_eq)
qed simp

text \<open>Keeping the leading bytes of an address and filling up with zeros clears its low bits.\<close>

lemma of_be_truncated:
  fixes w :: "'w::len word"
  assumes "LENGTH('w) = 8 * m" and "n \<le> m"
  shows "of_be (pad m (take n (to_be m w))) = push_bit (8 * (m - n)) (drop_bit (8 * (m - n)) w)"
proof -
  let ?k = "m - n"
  have "rev (pad m (take n (to_be m w))) = replicate ?k 0 @ drop ?k (to_le_nat m (unat w))"
    using assms(2) by (simp add: pad_def to_be_def take_rev)
  then have "of_le_nat (rev (pad m (take n (to_be m w)))) = 256 ^ ?k * (unat w div 256 ^ ?k mod 256 ^ n)"
    using assms(2) by (simp add: of_le_nat_zeros drop_to_le_nat of_to_le_nat)
  moreover have "unat w div 256 ^ ?k < 256 ^ n"
  proof -
    have "unat w < 256 ^ m" using unat_bound [of w] assms(1) by (simp add: pow_256)
    also have "(256 :: nat) ^ m = 256 ^ n * 256 ^ ?k" using assms(2) by (simp flip: power_add)
    finally show ?thesis by (simp add: less_mult_imp_div_less)
  qed
  ultimately have "of_be (pad m (take n (to_be m w))) = (of_nat (2 ^ (8 * ?k) * (unat w div 2 ^ (8 * ?k))) :: 'w word)"
    by (simp add: of_be_def pow_256)
  also have "unat w div 2 ^ (8 * ?k) = unat (drop_bit (8 * ?k) w)"
    using drop_bit_eq_div [of "8 * ?k" "unat w"] 
    by (simp add: unsigned_drop_bit_eq take_bit_nat_eq_self [OF unat_bound])
  also have "(of_nat (2 ^ (8 * ?k) * unat (drop_bit (8 * ?k) w)) :: 'w word) =
      push_bit (8 * ?k) (drop_bit (8 * ?k) w)"
    by (simp add: push_bit_eq_mult mult.commute)
  finally show ?thesis .
qed

lemma and_prefix_mask_truncated:
  fixes w :: "'w::len word"
  assumes "LENGTH('w) = 8 * m" and "plen \<le> 8 * m"
  defines "n \<equiv> min ((plen + 7) div 8) m"
  shows "of_be (pad m (take n (to_be m w))) AND prefix_mask (8 * m) plen = w AND prefix_mask (8 * m) plen"
proof -
  have "n \<le> m" by (simp add: n_def)
  note tr = of_be_truncated [OF assms(1) this, of w]
  have "plen \<le> 8 * ((plen + 7) div 8)" by presburger
  then have le: "8 * (m - n) \<le> 8 * m - plen"
    using assms(2) by (simp add: n_def min_def diff_mult_distrib2 diff_le_mono2)
  show ?thesis
    unfolding tr prefix_mask_def
    using le assms(1)
    by (auto intro!: bit_word_eqI simp: bit_simps)
qed

definition subnet_ok :: "EcsSubnet \<Rightarrow> bool" where
  "subnet_ok sn \<longleftrightarrow>
     subnet_prefix_len sn \<le> (case subnet_addr sn of V4 _ \<Rightarrow> 32 | V6 _ \<Rightarrow> 128)"

definition subnet_src :: "EcsSubnet \<Rightarrow> EcsSrc" where
  "subnet_src sn =
     \<lparr>ecs_addr = (case subnet_addr sn of
          V4 a \<Rightarrow> replicate 12 0 @ to_be 4 (a AND prefix_mask 32 (unat (subnet_prefix_len sn)))
        | V6 a \<Rightarrow> to_be 16 (a AND prefix_mask 128 (unat (subnet_prefix_len sn)))),
      ecs_prefix_len = subnet_prefix_len sn\<rparr>"

lemma parse_ecs_src_option:
  fixes fam :: u16
  shows "parse_ecs_src (to_be 2 fam @ [plen, 0] @ bs) = Some
    (if fam = 1 then
       Some \<lparr>ecs_addr = replicate 12 0 @
               to_be 4 ((of_be (pad 4 bs) :: u32) AND prefix_mask 32 (unat (min plen 32))),
             ecs_prefix_len = min plen 32\<rparr>
     else if fam = 2 then
       Some \<lparr>ecs_addr =
               to_be 16 ((of_be (pad 16 bs) :: u128) AND prefix_mask 128 (unat (min plen 128))),
             ecs_prefix_len = min plen 128\<rparr>
     else None)"
proof -
  let ?d = "to_be 2 fam @ [plen, 0] @ bs"
  have rd: "u16_of ?d 0 = fam" "?d ! 2 = plen" "drop 4 ?d = bs"
    by (simp_all add: u16_of_def to_be_2)
  have "4 \<le> length ?d" by simp
  from parse_ecs_src_eq [OF this, unfolded rd] show ?thesis .
qed

lemma encode_ecs_option_parse:
  assumes "subnet_ok sn"
  shows "\<exists>d. encode_ecs_option sn = Some (enc_opt (ECS_OPTION_CODE, d)) \<and> 4 \<le> length d \<and>
    length d \<le> 20 \<and> parse_ecs_src d = Some (Some (subnet_src sn))"
proof -
  let ?pl = "subnet_prefix_len sn"
  let ?n = "\<lambda>m. min ((unat ?pl + 7) div 8) m"
  show ?thesis
  proof (cases "subnet_addr sn")
    case (V4 a)
    let ?d = "to_be 2 (1 :: u16) @ [?pl, 0] @ take (?n 4) (to_be 4 a)"
    have pl: "?pl \<le> 32" "unat ?pl \<le> 8 * 4" using assms V4 by (simp_all add: subnet_ok_def word_le_nat_alt)
    have "encode_ecs_option sn = Some (enc_opt (ECS_OPTION_CODE, ?d))"
      using V4 by (simp add: encode_ecs_option_def slice_in enc_opt_def Let_def)
    moreover have "parse_ecs_src ?d = Some (Some (subnet_src sn))"
      using and_prefix_mask_truncated [of 4 "unat ?pl" a] pl V4
      by (simp only: parse_ecs_src_option) (simp add: subnet_src_def min_absorb1)
    ultimately show ?thesis by (intro exI [of _ ?d]) simp
  next
    case (V6 a)
    let ?d = "to_be 2 (2 :: u16) @ [?pl, 0] @ take (?n 16) (to_be 16 a)"
    have pl: "?pl \<le> 128" "unat ?pl \<le> 8 * 16" using assms V6 by (simp_all add: subnet_ok_def word_le_nat_alt)
    have "encode_ecs_option sn = Some (enc_opt (ECS_OPTION_CODE, ?d))"
      using V6 by (simp add: encode_ecs_option_def slice_in enc_opt_def Let_def)
    moreover have "parse_ecs_src ?d = Some (Some (subnet_src sn))"
      using and_prefix_mask_truncated [of 16 "unat ?pl" a] pl V6
      by (simp only: parse_ecs_src_option) (simp add: subnet_src_def min_absorb1)
    ultimately show ?thesis by (intro exI [of _ ?d]) simp
  qed
qed

section \<open>The variant of a rewritten query\<close>

fun opts_scan :: "(u16 \<times> bytes) list \<Rightarrow> EcsSrc option \<Rightarrow> u16 list \<Rightarrow> EcsSrc option \<times> u16 list" where
  "opts_scan [] ecs codes = (ecs, codes)"
| "opts_scan (opt # os) ecs codes =
     (if fst opt = ECS_OPTION_CODE \<and> 4 \<le> length (snd opt)
      then opts_scan os (the (parse_ecs_src (snd opt))) codes
      else if fst opt \<noteq> 12 then opts_scan os ecs (codes @ [fst opt])
      else opts_scan os ecs codes)"

lemma extract_opt_loop_step:
  assumes "pos + 4 + unat (u16_of r (pos + 2)) \<le> length r"
  shows "extract_opt_loop r pos ecs codes =
    (let d = take (unat (u16_of r (pos + 2))) (drop (pos + 4) r);
         e = pos + 4 + unat (u16_of r (pos + 2))
     in if u16_of r pos = ECS_OPTION_CODE \<and> 4 \<le> unat (u16_of r (pos + 2))
        then extract_opt_loop r e (the (parse_ecs_src d)) codes
        else if u16_of r pos \<noteq> 12 then extract_opt_loop r e ecs (codes @ [u16_of r pos])
        else extract_opt_loop r e ecs codes)"
proof -
  obtain x where "parse_ecs_src (take (unat (u16_of r (pos + 2))) (drop (pos + 4) r)) = Some x"
    using parse_ecs_src_total by blast
  with assms show ?thesis
    by (subst extract_opt_loop.simps) (simp add: be16_at_in slice_in Let_def)
qed

lemma extract_opt_loop_enc:
  "opts_ok os \<Longrightarrow> length junk < 4 \<Longrightarrow>
   extract_opt_loop (pre @ enc_opts os @ junk) (length pre) ecs codes = Some (opts_scan os ecs codes)"
proof (induction os arbitrary: pre ecs codes)
  case Nil
  then show ?case by (subst extract_opt_loop.simps) simp
next
  case (Cons opt os)
  then have len: "length (snd opt) < 65536" and ok: "opts_ok os" by auto
  define r where "r = pre @ enc_opt opt @ (enc_opts os @ junk)"
  note rd = enc_opt_read [OF len, of pre "enc_opts os @ junk", folded r_def]
  have r': "r = (pre @ enc_opt opt) @ enc_opts os @ junk" by (simp add: r_def)
  have IH: "extract_opt_loop r (length pre + 4 + length (snd opt)) e cs = Some (opts_scan os e cs)" for e cs
    unfolding r' using Cons.IH [OF ok Cons.prems(2), of "pre @ enc_opt opt"] by (simp add: add.assoc)
  have "length pre + 4 + unat (u16_of r (length pre + 2)) \<le> length r"
    unfolding rd(2) by (simp add: r_def)
  from extract_opt_loop_step [OF this, of ecs codes, unfolded rd IH Let_def]
  show ?case by (simp add: r_def split: if_splits)
qed

lemma opts_scan_no_ecs:
  "\<forall>opt \<in> set os. fst opt \<noteq> ECS_OPTION_CODE \<Longrightarrow> fst (opts_scan os ecs codes) = ecs"
  by (induction os arbitrary: codes) auto

lemma opts_scan_append:
  "opts_scan (os @ os') ecs codes =
     opts_scan os' (fst (opts_scan os ecs codes)) (snd (opts_scan os ecs codes))"
  by (induction os arbitrary: ecs codes) auto

lemma set_non_ecs: "\<forall>opt \<in> set (non_ecs os). fst opt \<noteq> ECS_OPTION_CODE"
  by (simp add: non_ecs_def)

lemma extract_variant_opt:
  assumes "12 \<le> length p" and "first_opt p (arcount p) qe = Some (t, c, l, s, e)"
    and "take (e - s) (drop s p) = enc_opts os @ junk" and "opts_ok os" and "length junk < 4"
  shows "extract_variant p qe = Some
    \<lparr>has_opt = True, do_bit = (p ! (s - 4) AND 0x80 \<noteq> 0), edns_version = p ! (s - 5),
     rd = (p ! 2 AND 0x01 \<noteq> 0), ad = (p ! 3 AND 0x20 \<noteq> 0), cd = (p ! 3 AND 0x10 \<noteq> 0),
     ecs_src = fst (opts_scan os None []), extra_opts_hash = opts_hash (snd (opts_scan os None []))\<rparr>"
proof -
  from first_opt_SomeD [OF assms(2)] have b: "qe + 10 < s" "s \<le> e" "e \<le> length p" by auto
  have "find_opt_record p qe = Some (Some (s - 10, s, e))"
    using assms(1,2) b by (simp add: find_opt_record_eq)
  moreover have "s - 10 + 5 = s - 5" "s - 10 + 6 = s - 4" using b by linarith+
  moreover have "idx p (s - 5) = Some (p ! (s - 5))" "idx p (s - 4) = Some (p ! (s - 4))"
    using b by (auto intro!: idx_in)
  moreover have "slice p s e = Some (enc_opts os @ junk)" using b assms(3) by (simp add: slice_in)
  moreover have "extract_opt_data (enc_opts os @ junk) =
      Some (fst (opts_scan os None []), opts_hash (snd (opts_scan os None [])))"
    using extract_opt_loop_enc [OF assms(4,5), of "[]" None "[]"] by (simp add: extract_opt_data_def)
  ultimately show ?thesis
    using assms(1) unfolding extract_variant_def by (simp add: idx_in del: idx_eq_Some)
qed

lemma query_shape_prefix:
  assumes "query_shape hdr ls tail rest p" and "take n q = take n p"
    and "12 + length (enc_labels ls) + 4 \<le> n"
  shows "query_shape hdr ls tail (drop (12 + length (enc_labels ls) + 4) q) q"
proof -
  let ?e = "12 + length (enc_labels ls) + 4"
  have p: "p = (hdr @ enc_labels ls @ tail) @ rest" and len: "length (hdr @ enc_labels ls @ tail) = ?e"
    using assms(1) by (auto simp: query_shape_def)
  have "take ?e q = take ?e p" by (rule take_eq_le [OF assms(2,3)])
  also have "\<dots> = hdr @ enc_labels ls @ tail" unfolding p by (rule take_length_append [OF len])
  finally have "q = hdr @ enc_labels ls @ tail @ drop ?e q"
    using append_take_drop_id [of ?e q] by simp
  with assms(1) show ?thesis by (simp add: query_shape_def)
qed

lemma first_opt_rdlen: "first_opt p n pos = Some r \<Longrightarrow> rr_end r - rr_rdata r < 65536"
proof (induction n arbitrary: pos)
  case (Suc n)
  then obtain s where s: "parse_rr p pos = Some (Some s)"
    by (auto split: option.splits)
  then have "rr_end s - rr_rdata s < 65536"
    using unat_u16_of by (auto simp: parse_rr_unfold split: option.splits if_splits)
  with Suc s show ?case by (auto split: if_splits)
qed simp

lemma strip_edns_ecs_SomeD:
  assumes "strip_edns_ecs p = Some (Some q)"
  obtains pos c l s e os junk where "12 \<le> length p" "additional_start p = Some pos" "12 \<le> pos"
    "first_opt p (arcount p) pos = Some (41, c, l, s, e)"
    "take (e - s) (drop s p) = enc_opts os @ junk" "opts_ok os" "length junk < 4"
    "q = with_rdata p s e (enc_opts (non_ecs os))" "length (enc_opts os) < 65536"
    "\<exists>opt \<in> set os. fst opt = ECS_OPTION_CODE"
proof -
  from assms obtain loc where loc: "locate_opt p = Some (Some (Some loc))"
    and st: "strip_ecs_from_opt p (loc_rdata_start loc) (loc_rdata_end loc) = Some (Some q)"
    using locate_opt_total [of p]
    by (auto simp: strip_edns_ecs_def try_opt_def split: option.splits)
  from loc obtain pos r where r: "12 \<le> length p" "additional_start p = Some pos" "12 \<le> pos"
    "first_opt p (arcount p) pos = Some r" "loc = rr_loc r"
    "pos + 10 < rr_rdata r" "rr_rdata r \<le> rr_end r" "rr_end r \<le> length p"
    by (rule locate_opt_SomeD)
  obtain t c l s e where rr: "r = (t, c, l, s, e)" by (metis prod.exhaust)
  with r have t: "t = 41" using first_opt_SomeD [OF r(4)] by simp
  have se: "s \<le> e" "e \<le> length p" "pos + 10 < s" using r rr by auto
  let ?rd = "take (e - s) (drop s p)"
  have sl: "slice p s e = Some ?rd" using se by (simp add: slice_in)
  from st obtain f nr where loop: "strip_ecs_loop ?rd 0 False [] = Some (Some (f, nr))"
    and f: "f" and q: "replace_rdata p s e nr = Some q"
    using sl r rr
    by (auto simp: strip_ecs_from_opt_def rr_loc_def try_opt_def split: option.splits if_splits bind_splits)
  from strip_ecs_loop_decode [OF loop] obtain os junk
    where os: "?rd = enc_opts os @ junk" "opts_ok os" "length junk < 4" by auto
  from strip_ecs_loop_enc [OF os(2,3), of "[]" False "[]"] loop os(1) f
  have nr: "nr = enc_opts (non_ecs os)" and ecs: "\<exists>opt \<in> set os. fst opt = ECS_OPTION_CODE" by auto
  have "e - s < 65536"
    using first_opt_rdlen [OF r(4)] rr by simp
  moreover have "length ?rd = e - s" using se by simp
  then have "length (enc_opts os) \<le> e - s" using os(1) by (metis le_add1 length_append)
  ultimately have small: "length (enc_opts os) < 65536" by simp
  have "q = with_rdata p s e (enc_opts (non_ecs os))"
    using replace_rdata_eq [of s e p nr] q nr se by simp
  with that [OF r(1-3) _ os _ small ecs] r(4) rr t show ?thesis by blast
qed

lemma parse_rr_new_opt:
  assumes "length pre = pos" and "length rdata < 65536"
  shows "parse_rr (pre @ [0] @ to_be 2 (41 :: u16) @ to_be 2 (4096 :: u16) @ to_be 4 (0 :: u32)
      @ to_be 2 (of_nat (length rdata) :: u16) @ rdata) pos =
    Some (Some (41, 4096, 0, pos + 11, pos + 11 + length rdata))"
proof -
  define p where "p = pre @ [0] @ to_be 2 (41 :: u16) @ to_be 2 (4096 :: u16) @ to_be 4 (0 :: u32)
      @ to_be 2 (of_nat (length rdata) :: u16) @ rdata"
  define f where "f = pos + 1"
  have sk: "skip_name p pos = Some f"
    using assms(1) by (subst skip_name.simps) (simp add: p_def f_def nth_append)
  have len: "length p = f + 10 + length rdata" using assms(1) by (simp add: p_def f_def)
  have rd: "u16_of p f = 41" "u16_of p (f + 2) = 4096" "u32_of p (f + 4) = 0"
    "u16_of p (f + 8) = of_nat (length rdata)"
    using assms(1) be16_split [of 41] be16_split [of 4096] be32_split [of 0]
    by (auto simp: p_def f_def u16_of_def u32_of_def nth_append to_be_2 to_be_4)
  have n: "unat (of_nat (length rdata) :: u16) = length rdata"
    using assms(2) by (simp add: unat_of_nat)
  have "parse_rr p pos = Some (Some (41, 4096, 0, f + 10, f + 10 + length rdata))"
    using parse_rr_eq [OF sk] len unfolding rd n by simp
  then show ?thesis unfolding p_def f_def by simp
qed

text \<open>The two ways a subnet is injected: into an OPT record, or with a new one.\<close>

lemma inject_ecs_SomeD:
  assumes inj: "inject_or_replace_ecs p sn = Some (Some q)" and enc: "encode_ecs_option sn = Some opt"
  shows "(locate_opt p = Some (Some None) \<and>
            q = (p @ [0] @ to_be 2 (41 :: u16) @ to_be 2 (4096 :: u16) @ to_be 4 (0 :: u32)
                  @ to_be 2 (of_nat (length opt) :: u16) @ opt)
                [10 := ucast (drop_bit 8 (u16_of p 10 + 1)), 11 := ucast ((u16_of p 10 + 1) AND 0xff)]) \<or>
         (\<exists>pos c l s e os junk. 12 \<le> length p \<and> additional_start p = Some pos \<and> 12 \<le> pos \<and>
            first_opt p (arcount p) pos = Some (41, c, l, s, e) \<and> opts_ok os \<and>
            length (enc_opts os) \<le> length p \<and> q = with_rdata p s e (enc_opts (non_ecs os) @ opt))"
proof -
  from inj have len: "12 \<le> length p" by (auto simp: inject_or_replace_ecs_def split: if_splits)
  obtain o_loc where loc: "locate_opt p = Some (Some o_loc)"
    using inj enc len locate_opt_total [of p]
    by (auto simp: inject_or_replace_ecs_def be16_at_in try_opt_def split: option.splits)
  show ?thesis
  proof (cases o_loc)
    case None
    define out where "out = p @ [0] @ to_be 2 (41 :: u16) @ to_be 2 (4096 :: u16) @ to_be 4 (0 :: u32)
                  @ to_be 2 (of_nat (length opt) :: u16) @ opt"
    have "11 < length out" using len unfolding out_def length_append by linarith
    then have st: "store out 10 x = Some (out[10 := x])" "store (out[10 := x]) 11 y = Some (out[10 := x, 11 := y])"
      for x y by (simp_all add: store_in)
    from inj None enc len loc show ?thesis
      by (simp add: inject_or_replace_ecs_def be16_at_in Let_def st flip: append.simps out_def del: append.simps)
  next
    case (Some ol)
    with loc obtain pos r where r: "12 \<le> length p" "additional_start p = Some pos" "12 \<le> pos"
      "first_opt p (arcount p) pos = Some r" "ol = rr_loc r"
      "pos + 10 < rr_rdata r" "rr_rdata r \<le> rr_end r" "rr_end r \<le> length p"
      using locate_opt_SomeD by (metis (no_types))
    obtain t c l s e where rr: "r = (t, c, l, s, e)" by (metis prod.exhaust)
    with r have t: "t = 41" using first_opt_SomeD [OF r(4)] by simp
    have se: "s \<le> e" "e \<le> length p" "pos + 10 < s" using r rr by auto
    let ?rd = "take (e - s) (drop s p)"
    have sl: "slice p s e = Some ?rd" using se by (simp add: slice_in)
    from inj obtain f nr where loop: "strip_ecs_loop ?rd 0 False [] = Some (Some (f, nr))"
      and q: "replace_rdata p s e (nr @ opt) = Some q"
      using sl r rr Some loc enc len
      by (auto simp: inject_or_replace_ecs_def be16_at_in rr_loc_def try_opt_def
          split: option.splits if_splits bind_splits)
    from strip_ecs_loop_decode [OF loop] obtain os junk
      where os: "?rd = enc_opts os @ junk" "opts_ok os" "length junk < 4" by auto
    from strip_ecs_loop_enc [OF os(2,3), of "[]" False "[]"] loop os(1)
    have nr: "nr = enc_opts (non_ecs os)" by auto
    have "length ?rd \<le> length p" by simp
    then have "length (enc_opts os) \<le> length p" unfolding os(1) by simp
    moreover have "q = with_rdata p s e (enc_opts (non_ecs os) @ opt)"
      using replace_rdata_eq [of s e p] q nr se by simp
    ultimately show ?thesis using r(1-4) rr t os(2) by blast
  qed
qed

lemma no_opt_at_end:
  assumes "locate_opt p = Some (Some None)" and "additional_start p = Some (length p)"
  shows "arcount p = 0"
proof (rule ccontr)
  assume n: "arcount p \<noteq> 0"
  then obtain k where "arcount p = Suc k" by (cases "arcount p") auto
  moreover have "parse_rr p (length p) = Some None"
    by (simp add: parse_rr_unfold skip_name.simps [of p "length p"])
  ultimately show False
    using assms n by (simp add: locate_opt_eq locate_opt_step del: locate_opt_loop.simps split: if_splits)
qed

lemma new_opt_reads:
  assumes sh: "query_shape hdr ls tail rest p" and lp: "length p = 12 + length (enc_labels ls) + 4"
    and small: "length opt < 65536"
    and q1: "q = (p @ [0] @ to_be 2 (41 :: u16) @ to_be 2 (4096 :: u16) @ to_be 4 (0 :: u32)
                  @ to_be 2 (of_nat (length opt) :: u16) @ opt)[10 := 0, 11 := 1]"
  defines "qe \<equiv> 12 + length (enc_labels ls) + 4"
  shows "parse_query_fast q = Some (Inr (query_info hdr ls tail))" and "12 \<le> length q"
    and "first_opt q (arcount q) qe = Some (41, 4096, 0, qe + 11, qe + 11 + length opt)"
    and "take (length opt) (drop (qe + 11) q) = opt"
proof -
  let ?o = "[0] @ to_be 2 (41 :: u16) @ to_be 2 (4096 :: u16) @ to_be 4 (0 :: u32)
                  @ to_be 2 (of_nat (length opt) :: u16) @ opt"
  have "p = (hdr @ enc_labels ls @ tail) @ rest" and
    hl: "length hdr = 12" "length (hdr @ enc_labels ls @ tail) = qe"
    using sh by (auto simp: query_shape_def qe_def)
  with lp have p: "p = hdr @ enc_labels ls @ tail"
    by (metis append_Nil2 append_eq_conv_conj take_all order_refl qe_def)
  define hdr' where "hdr' = hdr[10 := 0, 11 := 1]"
  define pre where "pre = hdr' @ enc_labels ls @ tail"
  have q: "q = pre @ ?o"
    unfolding q1 p pre_def hdr'_def using hl(1) by (simp add: list_update_append1)
  have pre: "length pre = qe" using hl by (simp add: pre_def hdr'_def)
  have sh': "query_shape hdr' ls tail ?o q"
    using sh hl unfolding q pre_def by (simp add: query_shape_def hdr'_def)
  have "query_info hdr ls tail = query_info hdr' ls tail"
    using hl by (simp add: query_info_def hdr'_def)
  then show "parse_query_fast q = Some (Inr (query_info hdr ls tail))"
    using parse_query_fast_shape [OF sh'] by simp
  show "12 \<le> length q" using pre by (simp add: q qe_def)
  have "arcount q = 1" using hl(1) by (simp add: q pre_def hdr'_def u16_of_def nth_append)
  then show "first_opt q (arcount q) qe = Some (41, 4096, 0, qe + 11, qe + 11 + length opt)"
    using parse_rr_new_opt [OF pre small] unfolding q by (simp add: One_nat_def)
  show "take (length opt) (drop (qe + 11) q) = opt" unfolding q using pre by simp
qed

lemma strip_ecs_loop_total: "\<exists>x. strip_ecs_loop r pos f acc = Some x"
proof (induction r pos f acc rule: strip_ecs_loop.induct)
  case (1 r pos f acc)
  show ?case
  proof (cases "pos + 4 \<le> length r \<and> pos + 4 + unat (u16_of r (pos + 2)) \<le> length r")
    case True
    with "1.IH" show ?thesis
      by (subst strip_ecs_loop.simps) (auto simp: be16_at_in slice_in Let_def not_less)
  next
    case False
    then show ?thesis by (subst strip_ecs_loop.simps) (auto simp: be16_at_in Let_def)
  qed
qed

lemma opt_location_bounds:
  "locate_opt p = Some (Some (Some loc)) \<Longrightarrow> loc_rdata_start loc \<le> loc_rdata_end loc \<and> loc_rdata_end loc \<le> length p \<and>
     2 \<le> loc_rdata_start loc \<and> loc_name_end loc + 8 \<le> length p"
  by (auto elim!: locate_opt_SomeD simp: rr_loc_def)

lemma strip_edns_ecs_total: "\<exists>r. strip_edns_ecs p = Some r"
proof (cases "\<exists>loc. locate_opt p = Some (Some (Some loc))")
  case True
  then obtain loc where loc: "locate_opt p = Some (Some (Some loc))" by blast
  obtain x where "strip_ecs_loop (take (loc_rdata_end loc - loc_rdata_start loc)
      (drop (loc_rdata_start loc) p)) 0 False [] = Some x" using strip_ecs_loop_total by blast
  with loc opt_location_bounds [OF loc] show ?thesis
    by (cases x) (auto simp: strip_edns_ecs_def strip_ecs_from_opt_def slice_in replace_rdata_eq)
next
  case False
  with locate_opt_total [of p] show ?thesis by (auto simp: strip_edns_ecs_def try_opt_def split: option.splits)
qed

lemma strip_opt_rdata_total: "\<exists>r. strip_opt_rdata p = Some r"
proof -
  obtain ol where ol: "locate_opt p = Some ol" using locate_opt_total by blast
  show ?thesis
    using ol opt_location_bounds [of p] by (cases ol; cases "the ol") (auto simp: strip_opt_rdata_def slice_in Let_def)
qed

text \<open>A query stripped of its client subnet is accepted as before: its question precedes every record.\<close>

lemma strip_edns_ecs_accepted:
  assumes "strip_edns_ecs p = Some (Some q)" and acc: "parse_query_fast p = Some (Inr info)"
  shows "parse_query_fast q = Some (Inr info)"
proof -
  from assms(1) obtain pos c l s e os junk where r: "12 \<le> length p" "additional_start p = Some pos"
    "first_opt p (arcount p) pos = Some (41, c, l, s, e)" "q = with_rdata p s e (enc_opts (non_ecs os))"
    "length (enc_opts os) < 65536"
    by (rule strip_edns_ecs_SomeD)
  from parse_query_fast_decode [OF acc] obtain hdr ls tail rest
    where sh: "query_shape hdr ls tail rest p" and info: "info = query_info hdr ls tail" by blast
  let ?qe = "12 + length (enc_labels ls) + 4"
  have "skip_questions p 1 12 = Some ?qe" "u16_of p 4 = 1"
    using question_end_shape [OF sh] sh
    by (auto simp: question_end_def query_shape_def u16_of_def nth_append numeral_eq_Suc not_less split: option.splits if_splits)
  then have "?qe \<le> pos"
    using r(2) skip_questions_bounds [of p 1 12] r(1)
    by (auto simp: additional_start_def dest!: skip_records_bounds split: option.splits)
  then have "?qe \<le> s - 2" using first_opt_SomeD [OF r(3)] by auto
  moreover have "length (enc_opts (non_ecs os)) < 65536" using length_enc_non_ecs [of os] r(5) by simp
  ultimately show ?thesis
    using parse_query_fast_shape [OF query_shape_prefix [OF sh opt_rewritten(1) [OF r(3)]]] info r(4) by simp
qed

section \<open>Properties\<close>


definition ecs_query :: bytes where
  "ecs_query = [0x12, 0x34, 1, 0, 0, 1, 0, 0, 0, 0, 0, 1, 1, 97, 0, 0, 1, 0, 1,
     0, 0, 41, 4, 208, 0, 0, 128, 0, 0, 17, 0, 8, 0, 7, 0, 1, 24, 0, 192, 0, 2, 0, 10, 0, 2, 1, 2]"

definition ecs_query_info :: FastQueryInfo where
  "ecs_query_info = query_info (take 12 ecs_query) [[97]] [0, 1, 0, 1]"




text \<open>
  (C30) Cached responses carry no per-connection EDNS data: after \<open>strip_opt_rdata\<close> the OPT
  record is still found at the same place, with its code, class and flags, but with an
  empty option list, and stripping again changes nothing.
\<close>

theorem strip_opt_rdata_empties:
  assumes strip: "strip_opt_rdata p = Some (Some q)"
  shows "strip_opt_rdata q = Some None \<and>
    (\<exists>pos c l s e. additional_start p = Some pos \<and> additional_start q = Some pos \<and>
       first_opt p (arcount p) pos = Some (41, c, l, s, e) \<and> s < e \<and>
       first_opt q (arcount q) pos = Some (41, c, l, s, s) \<and>
       q = take (s - 2) p @ [0, 0] @ drop e p)"
proof -
  from strip obtain loc where loc: "locate_opt p = Some (Some (Some loc))"
    using locate_opt_total [of p]
    by (auto simp: strip_opt_rdata_def try_opt_def split: option.splits)
  from loc obtain pos r where r: "12 \<le> length p" "additional_start p = Some pos" "12 \<le> pos"
    "first_opt p (arcount p) pos = Some r" "loc = rr_loc r"
    "pos + 10 < rr_rdata r" "rr_rdata r \<le> rr_end r" "rr_end r \<le> length p"
    by (rule locate_opt_SomeD)
  obtain t c l s e where rr: "r = (t, c, l, s, e)" by (metis prod.exhaust)
  with r have t: "t = 41" using first_opt_SomeD [OF r(4)] by simp
  have opt: "first_opt p (arcount p) pos = Some (41, c, l, s, e)" using r(4) rr t by simp
  have se: "s \<le> e" "e \<le> length p" "pos + 10 < s" using r rr by auto
  have w0: "with_rdata p s e [] = take (s - 2) p @ [0, 0] @ drop e p"
    by (simp add: with_rdata_def to_be_2)
  have "s - 10 + 8 = s - 2" using se by linarith
  then have "s < e" "q = with_rdata p s e []"
    using strip loc r(5) rr se unfolding w0
    by (auto simp: strip_opt_rdata_def rr_loc_def slice_in to_be_2 Let_def split: if_splits)
  note q = this
  note lo = locate_opt_rewritten [OF r(1-3) opt, of "[]", folded q(2), simplified]
  have "first_opt q (arcount q) pos = Some (41, c, l, s, s)"
    using opt_rewritten(2) [OF opt, of "[]", folded q(2)] lo(3) by simp
  moreover have "strip_opt_rdata q = Some None"
    by (simp add: strip_opt_rdata_def lo(1) rr_loc_def)
  ultimately show ?thesis using r(2) lo(2) opt q w0 by blast
qed

theorem strip_opt_rdata_empties_witness:
  "\<exists>q. strip_opt_rdata ecs_query = Some (Some q) \<and> strip_opt_rdata q = Some None \<and> length q = 30"
proof -
  have "strip_opt_rdata ecs_query = Some (Some (take 28 ecs_query @ [0, 0]))"
    "length (take 28 ecs_query @ [0, 0]) = 30"
    by code_simp+
  with strip_opt_rdata_empties [OF this(1)] show ?thesis by blast
qed

text \<open>
  (C31) Rewriting OPT records is panic-free on every byte string.
\<close>

theorem ecs_rewrites_total:
  "(\<exists>r. strip_edns_ecs p = Some r) \<and> (\<exists>r. strip_opt_rdata p = Some r) \<and>
   (\<exists>r. inject_or_replace_ecs p sn = Some r)"
proof (intro conjI strip_edns_ecs_total strip_opt_rdata_total)
  obtain ol where ol: "locate_opt p = Some ol" using locate_opt_total by blast
  obtain opt where enc: "encode_ecs_option sn = Some opt"
    by (cases "subnet_addr sn") (auto simp: encode_ecs_option_def slice_in Let_def)
  show "\<exists>r. inject_or_replace_ecs p sn = Some r"
  proof (cases "length p < 12 \<or> (\<forall>loc. ol \<noteq> Some (Some loc))")
    case True
    have "store out 10 x = Some (out[10 := x]) \<and> store (out[10 := x]) 11 y = Some (out[10 := x, 11 := y])"
      if "12 \<le> length p" "out = p @ rest" for out rest x y
      using that by (simp add: store_in)
    with True ol enc show ?thesis
      by (cases ol; cases "the ol") (auto simp: inject_or_replace_ecs_def be16_at_in Let_def not_less)
  next
    case False
    then obtain loc where loc: "ol = Some (Some loc)" by blast
    obtain x where "strip_ecs_loop (take (loc_rdata_end loc - loc_rdata_start loc)
        (drop (loc_rdata_start loc) p)) 0 False [] = Some x" using strip_ecs_loop_total by blast
    with False ol loc enc opt_location_bounds [of p loc] show ?thesis
      by (cases x) (auto simp: inject_or_replace_ecs_def be16_at_in slice_in replace_rdata_eq)
  qed
qed



text \<open>
  Without that restriction they do not: the parser accepts a query with a record in its
  answer section, the variant walk takes that record for the additional section and sees
  no OPT record, while the OPT record with its client subnet is there and is forwarded.
\<close>

definition answer_in_query :: bytes where
  "answer_in_query = [0x12, 0x34, 1, 0, 0, 1, 0, 1, 0, 0, 0, 1, 1, 97, 0, 0, 1, 0, 1,
     0, 0, 16, 0, 1, 0, 0, 0, 0, 0, 0,
     0, 0, 41, 4, 208, 0, 0, 0, 0, 0, 11, 0, 8, 0, 7, 0, 1, 24, 0, 192, 0, 2]"

lemma opt_walks_diverge:
  "parse_query_fast answer_in_query = Some (Inr ecs_query_info) \<and>
   extract_variant answer_in_query 19 = Some (no_edns True False False) \<and>
   locate_opt answer_in_query =
     Some (Some (Some \<lparr>loc_name_end = 31, loc_rdata_start = 41, loc_rdata_end = 52\<rparr>))"
  by code_simp

end
