(* ===== verification/Persist.thy ===== *)
theory Persist
  imports Prelude
begin

text \<open>
  \<open>src/persist.rs\<close>: the framing of the persisted cache files. A reader is a function on the
  bytes that are left of the file; \<open>rbind\<close> is sequencing with \<open>?\<close>. What a writer produces
  is the list of bytes it has written; creating, syncing and renaming the file
  (\<open>atomic_write\<close>) is not modelled. The lemmas say that reading what was written gives it
  back and leaves the rest.
\<close>

section \<open>Readers\<close>

type_synonym 'a reader = "bytes \<Rightarrow> ('a \<times> bytes) res"

definition rreturn :: "'a \<Rightarrow> 'a reader" where
  "rreturn v r = Inr (v, r)"

definition rfail :: "err \<Rightarrow> 'a reader" where
  "rfail e r = Inl e"

definition rbind :: "'a reader \<Rightarrow> ('a \<Rightarrow> 'b reader) \<Rightarrow> 'b reader" where
  "rbind m f r = (case m r of Inl e \<Rightarrow> Inl e | Inr (v, r') \<Rightarrow> f v r')"

definition read_exact :: "nat \<Rightarrow> bytes reader" where
  "read_exact n r =
     (if length r < n then Inl ''failed to fill whole buffer'' else Inr (take n r, drop n r))"

definition read_u16 :: "u16 reader" where
  "read_u16 = rbind (read_exact 2) (\<lambda>buf. rreturn (of_le buf))"

definition read_u32 :: "u32 reader" where
  "read_u32 = rbind (read_exact 4) (\<lambda>buf. rreturn (of_le buf))"

definition read_u64 :: "u64 reader" where
  "read_u64 = rbind (read_exact 8) (\<lambda>buf. rreturn (of_le buf))"

definition MAX_PERSISTED_BYTES :: u32 where
  "MAX_PERSISTED_BYTES = 65536"

definition read_bytes :: "bytes reader" where
  "read_bytes = rbind read_u32 (\<lambda>len.
     if MAX_PERSISTED_BYTES < len then rfail ''persisted byte field too large''
     else read_exact (unat len))"

section \<open>The file header\<close>

definition write_header :: "bytes \<Rightarrow> u64 \<Rightarrow> u32 \<Rightarrow> bytes" where
  "write_header magic fingerprint count = magic @ to_le 8 fingerprint @ to_le 4 count"

definition read_and_check_header :: "bytes \<Rightarrow> u64 \<Rightarrow> u32 reader" where
  "read_and_check_header magic fingerprint =
     rbind (read_exact 8) (\<lambda>stored_magic.
       if stored_magic \<noteq> magic then rfail ''unrecognised file format (magic mismatch)''
       else rbind read_u64 (\<lambda>stored_fp.
         if stored_fp \<noteq> fingerprint
         then rfail ''file was built with a different config (fingerprint mismatch)''
         else read_u32))"

text \<open>A length-prefixed byte string, as every writer of a persisted file emits it.\<close>

definition write_bytes :: "bytes \<Rightarrow> bytes" where
  "write_bytes bs = to_le 4 (of_nat (length bs) :: u32) @ bs"

section \<open>Reading back\<close>

named_theorems reader_simps

lemma rbind_Inr [reader_simps]: "m r = Inr (v, r') \<Longrightarrow> rbind m f r = f v r'"
  by (simp add: rbind_def)

lemma rreturn_apply [reader_simps]: "rreturn v r = Inr (v, r)"
  by (simp add: rreturn_def)

lemma read_exact_append [reader_simps]: "length bs = n \<Longrightarrow> read_exact n (bs @ r) = Inr (bs, r)"
  by (simp add: read_exact_def)

lemma read_ints [reader_simps]:
  "read_u16 (to_le 2 a @ r) = Inr (a, r)" "read_u32 (to_le 4 b @ r) = Inr (b, r)"
  "read_u64 (to_le 8 c @ r) = Inr (c, r)"
  by (simp_all add: read_u16_def read_u32_def read_u64_def rbind_def read_exact_append
      rreturn_def of_le_to_le)

lemma read_bytes_write [reader_simps]:
  assumes "length bs \<le> 65536"
  shows "read_bytes (write_bytes bs @ r) = Inr (bs, r)"
proof -
  have "unat (of_nat (length bs) :: u32) = length bs"
    using assms by (simp add: unat_of_nat)
  moreover from this have "\<not> MAX_PERSISTED_BYTES < of_nat (length bs)"
    using assms by (simp add: MAX_PERSISTED_BYTES_def word_less_nat_alt)
  ultimately show ?thesis
    by (simp add: read_bytes_def write_bytes_def rbind_def read_ints read_exact_append)
qed

lemma read_header_write [reader_simps]:
  "length magic = 8 \<Longrightarrow>
   read_and_check_header magic fp (write_header magic fp n @ r) = Inr (n, r)"
  by (simp add: read_and_check_header_def write_header_def rbind_def read_exact_append read_ints)

lemma read_header_mismatch:
  assumes "length magic = 8" and "fp \<noteq> fp'"
  shows "\<exists>e. read_and_check_header magic fp (write_header magic fp' n @ r) = Inl e"
  using assms
  by (simp add: read_and_check_header_def write_header_def rbind_def read_exact_append read_ints rfail_def)

section \<open>Codecs\<close>

text \<open>
  What a writer and a reader of one kind of value promise each other; a file is a sequence
  of such values, read by counted loops.
\<close>

fun read_n :: "'a reader \<Rightarrow> nat \<Rightarrow> 'a list reader" where
  "read_n dec 0 = rreturn []"
| "read_n dec (Suc n) = rbind dec (\<lambda>x. rbind (read_n dec n) (\<lambda>xs. rreturn (x # xs)))"

locale codec =
  fixes enc :: "'a \<Rightarrow> bytes" and dec :: "'a reader" and ok :: "'a \<Rightarrow> bool"
  assumes dec_enc: "ok x \<Longrightarrow> dec (enc x @ r) = Inr (x, r)"
begin

lemma enc_inject: "ok x \<Longrightarrow> ok y \<Longrightarrow> enc x @ r = enc y @ r' \<Longrightarrow> x = y \<and> r = r'"
  by (metis dec_enc sum.inject(2) prod.inject)

lemma read_n_enc: "list_all ok xs \<Longrightarrow> read_n dec (length xs) (concat (map enc xs) @ r) = Inr (xs, r)"
  by (induction xs) (simp_all add: rreturn_def rbind_def dec_enc)

end

interpretation u16_codec: codec "to_le 2" read_u16 "\<lambda>_. True"
  by unfold_locales (rule read_ints)

interpretation u32_codec: codec "to_le 4" read_u32 "\<lambda>_. True"
  by unfold_locales (rule read_ints)

interpretation u64_codec: codec "to_le 8" read_u64 "\<lambda>_. True"
  by unfold_locales (rule read_ints)

interpretation bytes_codec: codec write_bytes read_bytes "\<lambda>bs. length bs \<le> 65536"
  by unfold_locales (rule read_bytes_write)

end
