(* ===== verification/Quick_Cache.thy ===== *)
theory Quick_Cache
  imports Prelude "HOL-Library.AList"
begin

text \<open>
  The concurrent bounded map \<open>quick_cache::sync::Cache\<close> is a third-party crate and a parameter of
  the model: a record of the operations that the response cache, the route cache and
  the verdict cache call, and the laws that they rely on.
\<close>

section \<open>Operations\<close>

record ('s, 'k, 'v) qc_ops =
  qc_with :: "nat \<Rightarrow> 's"
  qc_get :: "'s \<Rightarrow> 'k \<Rightarrow> 'v option \<times> 's"
  qc_insert :: "'s \<Rightarrow> 'k \<Rightarrow> 'v \<Rightarrow> 's"
  qc_remove :: "'s \<Rightarrow> 'k \<Rightarrow> 's"
  qc_clear :: "'s \<Rightarrow> 's"
  qc_iter :: "'s \<Rightarrow> ('k \<times> 'v) list"
  qc_len :: "'s \<Rightarrow> nat"

section \<open>Laws\<close>

text \<open>
  \<open>view s\<close> is what the map holds in state \<open>s\<close>. Reading does not change it, an insertion holds
  at most the old entries and the new one, removing and clearing do what they say, and
  iteration lists exactly what is held.
\<close>

definition qc_laws :: "('s, 'k, 'v) qc_ops \<Rightarrow> ('s \<Rightarrow> 'k \<rightharpoonup> 'v) \<Rightarrow> bool" where
  "qc_laws qc view \<longleftrightarrow>
     (\<forall>n. view (qc_with qc n) = Map.empty) \<and>
     (\<forall>s k. fst (qc_get qc s k) = view s k \<and> view (snd (qc_get qc s k)) = view s) \<and>
     (\<forall>s k e. view (qc_insert qc s k e) \<subseteq>\<^sub>m (view s)(k \<mapsto> e)) \<and>
     (\<forall>s k. view (qc_remove qc s k) = (view s)(k := None)) \<and>
     (\<forall>s. view (qc_clear qc s) = Map.empty) \<and>
     (\<forall>s. map_of (qc_iter qc s) = view s \<and> distinct (map fst (qc_iter qc s)))"

lemma qc_lawsD:
  assumes "qc_laws qc view"
  shows "view (qc_with qc n) = Map.empty" "fst (qc_get qc s k) = view s k"
    "view (snd (qc_get qc s k)) = view s" "view (qc_insert qc s k e) \<subseteq>\<^sub>m (view s)(k \<mapsto> e)"
    "view (qc_remove qc s k) = (view s)(k := None)" "view (qc_clear qc s) = Map.empty"
    "map_of (qc_iter qc s) = view s" "distinct (map fst (qc_iter qc s))"
  using assms by (simp_all add: qc_laws_def)

lemma qc_insert_view:
  assumes "qc_laws qc view" and "view (qc_insert qc s k e) k' = Some e'"
  shows "(k' = k \<and> e' = e) \<or> view s k' = Some e'"
proof -
  have "((view s)(k \<mapsto> e)) k' = Some e'"
    using qc_lawsD(4) [OF assms(1), of s k e] assms(2) by (metis domI map_le_def)
  then show ?thesis by (simp split: if_splits)
qed

text \<open>Entries inserted one after another, as the loaders of the persisted files do.\<close>

definition insert_all :: "('s, 'k, 'v) qc_ops \<Rightarrow> ('k \<times> 'v) list \<Rightarrow> 's \<Rightarrow> 's" where
  "insert_all qc xs s = fold (\<lambda>(k, e) s. qc_insert qc s k e) xs s"

lemma insert_all_view:
  assumes "qc_laws qc view"
  shows "view (insert_all qc xs s) k = Some e \<Longrightarrow> (k, e) \<in> set xs \<or> view s k = Some e"
  by (induction xs arbitrary: s) (auto simp: insert_all_def dest: qc_insert_view [OF assms])

text \<open>An unbounded association list satisfies the laws.\<close>

definition alist_qc :: "(('k \<times> 'v) list, 'k, 'v) qc_ops" where
  "alist_qc = \<lparr>qc_with = (\<lambda>_. []), qc_get = (\<lambda>s k. (map_of s k, s)),
     qc_insert = (\<lambda>s k e. AList.update k e s), qc_remove = (\<lambda>s k. AList.delete k s),
     qc_clear = (\<lambda>_. []), qc_iter = AList.clearjunk, qc_len = (\<lambda>s. length (AList.clearjunk s))\<rparr>"

lemma alist_qc_laws: "qc_laws alist_qc map_of"
  by (simp add: qc_laws_def alist_qc_def update_conv' delete_conv' map_of_clearjunk distinct_clearjunk)

end
