(* ===== verification/Cache.thy ===== *)
theory Cache
  imports Dns_Ecs Persist Quick_Cache
begin

text \<open>
  \<open>src/cache.rs\<close>: the response cache. The concurrent map of the \<open>quick_cache\<close> package is a
  parameter: a record of its operations on a state of unknown type, with what the code
  relies on stated by \<open>qc_laws\<close> (an insertion may evict or refuse any entry, but what is
  found is what was last inserted). An \<open>Instant\<close> is a number of nanoseconds since the zero of
  the monotonic clock; the clock readings are arguments. A \<open>bool\<close> hashed with \<open>as u8\<close> is
  \<open>of_bool\<close>; \<open>str\<close> data is its UTF-8 bytes.
\<close>

section \<open>Cache keys\<close>

type_synonym CacheKey = u64

definition invalid_shape_key :: "bytes \<Rightarrow> nat \<Rightarrow> CacheKey" where
  "invalid_shape_key query qe =
     finish (fnv_write (write_sep (fnv_write fnv_new query)) (to_le 8 (of_nat qe :: u64)))"

definition finish_cache_key :: "fnv1a \<Rightarrow> bytes \<Rightarrow> nat \<Rightarrow> QueryVariant \<Rightarrow> bool \<Rightarrow> CacheKey" where
  "finish_cache_key h question pos_after_qname v strip_ecs =
     (let h = fnv_write h (drop pos_after_qname question);
          h = write_byte h (of_bool (has_opt v));
          h = write_byte h (of_bool (do_bit v));
          h = write_byte h (edns_version v);
          h = write_byte h (of_bool (rd v));
          h = write_byte h (of_bool (ad v));
          h = write_byte h (of_bool (cd v));
          h = (if strip_ecs then write_byte h 0
               else case ecs_src v of
                 None \<Rightarrow> write_byte h 0
               | Some ecs \<Rightarrow>
                   write_byte (fnv_write (write_byte h 1) (ecs_addr ecs)) (ecs_prefix_len ecs));
          h = fnv_write h (to_le 8 (extra_opts_hash v))
      in finish h)"

definition cache_key_with_variant :: "bytes \<Rightarrow> nat \<Rightarrow> QueryVariant \<Rightarrow> bool \<Rightarrow> CacheKey run" where
  "cache_key_with_variant query qe v strip_ecs =
     (if length query < 12 \<or> qe < 16 \<or> length query < qe then Some (invalid_shape_key query qe)
      else do {
        question \<leftarrow> slice query 12 qe;
        let (h, pos) = write_qname_wire fnv_new question;
        Some (finish_cache_key h question pos v strip_ecs)
      })"

definition cache_key_with_variant_from_qname_hash ::
  "bytes \<Rightarrow> nat \<Rightarrow> fnv1a \<Rightarrow> nat \<Rightarrow> QueryVariant \<Rightarrow> bool \<Rightarrow> CacheKey run" where
  "cache_key_with_variant_from_qname_hash query qe qname_hash qname_hash_end v strip_ecs =
     (if length query < 12 \<or> qe < 16 \<or> length query < qe then Some (invalid_shape_key query qe)
      else do {
        question \<leftarrow> slice query 12 qe;
        Some (finish_cache_key qname_hash question qname_hash_end v strip_ecs)
      })"

section \<open>Types\<close>

type_synonym Instant = nat

definition as_secs :: "nat \<Rightarrow> nat" where
  "as_secs nanos = nanos div 1000000000"

record Entry =
  e_packet :: bytes
  e_query :: bytes
  e_qname :: bytes
  e_question_end :: nat
  e_variant :: QueryVariant
  e_inserted :: Instant
  e_ttl :: u32
  e_ttl_offsets :: ttl_offsets
  e_rule_id :: u16

record CacheLookupMeta =
  meta_qname :: "bytes option"
  meta_rule_id :: u16

record KeyedLookup =
  lk_key :: CacheKey
  lk_query :: bytes
  lk_question_end :: nat
  lk_client_id :: u16
  lk_strip_ecs :: bool
  lk_variant :: QueryVariant
  lk_collect_qname :: bool

record CacheProbe =
  probe_variant :: QueryVariant
  regular_key :: CacheKey
  stripped_key :: "CacheKey option"

record ResolvedCachePolicy =
  pol_skip :: bool
  pol_nodata_ttl :: u32
  pol_min_ttl :: u32
  pol_max_ttl :: u32

record RuleCachePolicy =
  rcp_skip :: bool
  rcp_min_ttl :: "u32 option"
  rcp_max_ttl :: "u32 option"

record CacheInsert =
  ins_key :: CacheKey
  ins_qname :: bytes
  ins_question_end :: nat
  ins_query :: bytes
  ins_variant :: QueryVariant
  ins_packet :: bytes

record CacheConfig =
  cfg_capacity :: nat
  cfg_min_ttl :: u32
  cfg_max_ttl :: u32

type_synonym 's dns_qc = "('s, CacheKey, Entry) qc_ops"

record 's DnsCache =
  dc_cache :: "'s option"
  dc_min_ttl :: u32
  dc_max_ttl :: u32

section \<open>Operations\<close>

definition cache_new :: "'s dns_qc \<Rightarrow> CacheConfig \<Rightarrow> 's DnsCache" where
  "cache_new qc cfg =
     \<lparr>dc_cache = (if 0 < cfg_capacity cfg then Some (qc_with qc (cfg_capacity cfg)) else None),
      dc_min_ttl = cfg_min_ttl cfg, dc_max_ttl = cfg_max_ttl cfg\<rparr>"

definition entry_count :: "'s dns_qc \<Rightarrow> 's DnsCache \<Rightarrow> nat" where
  "entry_count qc c = (case dc_cache c of Some s \<Rightarrow> qc_len qc s | None \<Rightarrow> 0)"

definition is_enabled :: "'s DnsCache \<Rightarrow> bool" where
  "is_enabled c \<longleftrightarrow> dc_cache c \<noteq> None"

definition queries_match_v ::
  "QueryVariant \<Rightarrow> QueryVariant \<Rightarrow> nat \<Rightarrow> bytes \<Rightarrow> bytes \<Rightarrow> nat \<Rightarrow> bool \<Rightarrow> bool run" where
  "queries_match_v stored_v live_v stored_question_end stored q qe strip_ecs =
     (if length q < qe \<or> stored_question_end \<noteq> qe \<or> length q < 12 \<or> length stored < 12
      then Some False
      else do {
        a \<leftarrow> slice stored 12 qe;
        b \<leftarrow> slice q 12 qe;
        m \<leftarrow> questions_match a b;
        if \<not> m then Some False
        else if strip_ecs then
          Some (has_opt stored_v = has_opt live_v \<and> do_bit stored_v = do_bit live_v \<and>
                edns_version stored_v = edns_version live_v \<and> rd stored_v = rd live_v \<and>
                ad stored_v = ad live_v \<and> cd stored_v = cd live_v)
        else Some (stored_v = live_v)
      })"

text \<open>
  \<open>set_id\<close> with its error ignored (\<open>let _ = ...\<close>): a packet that is too short stays as it is.
\<close>

definition set_id_ignoring :: "bytes \<Rightarrow> u16 \<Rightarrow> bytes" where
  "set_id_ignoring p i = (case set_id p i of Inl _ \<Rightarrow> p | Inr q \<Rightarrow> q)"

text \<open>\<open>query.get(12..question_end)\<close>: nothing when the range does not fit.\<close>

definition get_range :: "bytes \<Rightarrow> nat \<Rightarrow> nat \<Rightarrow> bytes option" where
  "get_range p a b = slice p a b"

definition lookup_into_keyed ::
  "'s dns_qc \<Rightarrow> Instant \<Rightarrow> 's DnsCache \<Rightarrow> KeyedLookup \<Rightarrow> bytes
    \<Rightarrow> (CacheLookupMeta option \<times> bytes \<times> 's DnsCache) run" where
  "lookup_into_keyed qc now c lookup out =
     (case dc_cache c of
        None \<Rightarrow> Some (None, out, c)
      | Some s \<Rightarrow>
          (case get_range (lk_query lookup) 12 (lk_question_end lookup) of
             None \<Rightarrow> Some (None, out, c)
           | Some question \<Rightarrow>
               let (found, s) = qc_get qc s (lk_key lookup); c = c\<lparr>dc_cache := Some s\<rparr> in
               (case found of
                  None \<Rightarrow> Some (None, out, c)
                | Some entry \<Rightarrow> do {
                    matched \<leftarrow> queries_match_v (e_variant entry) (lk_variant lookup)
                      (e_question_end entry) (e_query entry) (lk_query lookup)
                      (lk_question_end lookup) (lk_strip_ecs lookup);
                    if \<not> matched then Some (None, out, c)
                    else do {
                      let age = as_secs (now - e_inserted entry);
                      if unat (e_ttl entry) \<le> age then
                        Some (None, out, c\<lparr>dc_cache := Some (qc_remove qc s (lk_key lookup))\<rparr>)
                      else do {
                        let elapsed = (of_nat (min age 4294967295) :: u32);
                        let out = e_packet entry;
                        let out = set_id_ignoring out (lk_client_id lookup);
                        out \<leftarrow> (if lk_question_end lookup \<le> length out
                                then store_slice out 12 (lk_question_end lookup) question
                                else Some out);
                        out \<leftarrow> patch_ttls_at out (e_ttl_offsets entry) elapsed;
                        Some (Some \<lparr>meta_qname = (if lk_collect_qname lookup then Some (e_qname entry)
                                                  else None),
                                    meta_rule_id = e_rule_id entry\<rparr>, out, c)
                      }
                    }
                  })))"

definition get_into_with_ecs_fallback ::
  "'s dns_qc \<Rightarrow> Instant \<Rightarrow> Instant \<Rightarrow> 's DnsCache \<Rightarrow> bytes \<Rightarrow> FastQueryInfo \<Rightarrow> bytes \<Rightarrow> bool
    \<Rightarrow> (CacheLookupMeta option \<times> CacheProbe \<times> bytes \<times> 's DnsCache) run" where
  "get_into_with_ecs_fallback qc now now' c q fast out collect_qname = do {
     let qe = fast_question_end fast;
     live_v \<leftarrow> extract_variant q qe;
     key \<leftarrow> cache_key_with_variant_from_qname_hash q qe (fast_qname_wire_hash fast)
              (fast_qname_wire_hash_end fast) live_v False;
     (hit, out, c) \<leftarrow> lookup_into_keyed qc now c
       \<lparr>lk_key = key, lk_query = q, lk_question_end = qe, lk_client_id = fast_id fast,
        lk_strip_ecs = False, lk_variant = live_v, lk_collect_qname = collect_qname\<rparr> out;
     case hit of
       Some h \<Rightarrow>
         Some (Some h, \<lparr>probe_variant = live_v, regular_key = key, stripped_key = None\<rparr>, out, c)
     | None \<Rightarrow>
         if ecs_src live_v \<noteq> None then do {
           sk \<leftarrow> cache_key_with_variant_from_qname_hash q qe (fast_qname_wire_hash fast)
                   (fast_qname_wire_hash_end fast) live_v True;
           (hit, out, c) \<leftarrow> lookup_into_keyed qc now' c
             \<lparr>lk_key = sk, lk_query = q, lk_question_end = qe, lk_client_id = fast_id fast,
              lk_strip_ecs = True, lk_variant = live_v, lk_collect_qname = collect_qname\<rparr> out;
           Some (hit, \<lparr>probe_variant = live_v, regular_key = key, stripped_key = Some sk\<rparr>, out, c)
         }
         else Some (None, \<lparr>probe_variant = live_v, regular_key = key, stripped_key = None\<rparr>, out, c)
   }"

definition resolve_policy :: "'s DnsCache \<Rightarrow> RuleCachePolicy option \<Rightarrow> ResolvedCachePolicy" where
  "resolve_policy c policy =
     \<lparr>pol_skip = (case policy of Some p \<Rightarrow> rcp_skip p | None \<Rightarrow> False), pol_nodata_ttl = 0,
      pol_min_ttl = (case Option.bind policy rcp_min_ttl of Some t \<Rightarrow> t | None \<Rightarrow> dc_min_ttl c),
      pol_max_ttl = (case Option.bind policy rcp_max_ttl of Some t \<Rightarrow> t | None \<Rightarrow> dc_max_ttl c)\<rparr>"

definition cache_add ::
  "'s dns_qc \<Rightarrow> Instant \<Rightarrow> 's DnsCache \<Rightarrow> CacheInsert \<Rightarrow> ResolvedCachePolicy \<Rightarrow> u16 \<Rightarrow> 's DnsCache run" where
  "cache_add qc now c ins policy rid =
     (case dc_cache c of
        None \<Rightarrow> Some c
      | Some s \<Rightarrow>
          if is_truncated (ins_packet ins) then Some c
          else do {
            r \<leftarrow> effective_ttl_and_offsets (ins_packet ins) (ins_question_end ins)
                   (pol_nodata_ttl policy) (pol_min_ttl policy) (pol_max_ttl policy);
            case r of
              None \<Rightarrow> Some c
            | Some (raw_ttl, offsets) \<Rightarrow>
                let entry = \<lparr>e_packet = set_id_ignoring (ins_packet ins) 0, e_query = ins_query ins,
                             e_qname = ins_qname ins, e_question_end = ins_question_end ins,
                             e_variant = ins_variant ins, e_inserted = now, e_ttl = raw_ttl,
                             e_ttl_offsets = offsets, e_rule_id = rid\<rparr>
                in Some (c\<lparr>dc_cache := Some (qc_insert qc s (ins_key ins) entry)\<rparr>)
          })"

definition invalidate_all :: "'s dns_qc \<Rightarrow> 's DnsCache \<Rightarrow> 's DnsCache" where
  "invalidate_all qc c = (case dc_cache c of Some s \<Rightarrow> c\<lparr>dc_cache := Some (qc_clear qc s)\<rparr> | None \<Rightarrow> c)"

text \<open>
  \<open>for_each_rule_entry\<close> calls its closure on these triples, in the iteration order of the map.
\<close>

definition for_each_rule_entry :: "'s dns_qc \<Rightarrow> Instant \<Rightarrow> 's DnsCache \<Rightarrow> (u16 \<times> bytes \<times> nat) list" where
  "for_each_rule_entry qc now c =
     (case dc_cache c of
        None \<Rightarrow> []
      | Some s \<Rightarrow>
          map (\<lambda>(_, e). (e_rule_id e, e_packet e, e_question_end e))
            (filter (\<lambda>(_, e). e_rule_id e \<noteq> - 1 \<and> as_secs (now - e_inserted e) < unat (e_ttl e))
              (qc_iter qc s)))"

section \<open>Persistence\<close>

definition CACHE_MAGIC :: bytes where
  "CACHE_MAGIC = str ''PDNSC009''"

text \<open>The fresh entries with the seconds each has left; \<open>clock i\<close> is the reading for the \<open>i\<close>th.\<close>

definition live_entries :: "(nat \<Rightarrow> Instant) \<Rightarrow> (CacheKey \<times> Entry) list \<Rightarrow> (CacheKey \<times> Entry \<times> nat) list" where
  "live_entries clock es =
     filter (\<lambda>(_, _, remaining). remaining \<noteq> 0)
       (map (\<lambda>(i, k, e). (k, e, unat (e_ttl e) - as_secs (clock i - e_inserted e))) (enumerate 0 es))"

definition write_offset :: "u32 \<times> u32 \<Rightarrow> bytes" where
  "write_offset x = to_le 4 (fst x) @ to_le 4 (snd x)"

definition write_entry :: "u64 \<Rightarrow> CacheKey \<times> Entry \<times> nat \<Rightarrow> bytes" where
  "write_entry now_unix x =
     (case x of (key, e, remaining) \<Rightarrow>
       let expire_unix = now_unix + of_nat remaining;
           question = (case get_range (e_query e) 12 (e_question_end e) of Some q \<Rightarrow> q | None \<Rightarrow> [])
       in to_le 8 key @ to_le 8 expire_unix @ to_le 4 (e_ttl e)
          @ write_bytes question @ write_bytes (e_packet e) @ write_bytes (e_query e)
          @ write_bytes (e_qname e)
          @ to_le 4 (of_nat (length (e_ttl_offsets e)) :: u32)
          @ concat (map write_offset (e_ttl_offsets e))
          @ to_le 2 (e_rule_id e))"

definition save_to_file ::
  "'s dns_qc \<Rightarrow> (nat \<Rightarrow> Instant) \<Rightarrow> u64 \<Rightarrow> 's DnsCache \<Rightarrow> u64 \<Rightarrow> bytes option \<times> nat" where
  "save_to_file qc clock now_unix c fingerprint =
     (case dc_cache c of
        None \<Rightarrow> (None, 0)
      | Some s \<Rightarrow>
          let entries = live_entries clock (qc_iter qc s); count = length entries
          in (Some (write_header CACHE_MAGIC fingerprint (of_nat count)
                    @ concat (map (write_entry now_unix) entries)), count))"

text \<open>One entry of the file: the fields in the order they are read.\<close>

definition read_offset :: "(u32 \<times> u32) reader" where
  "read_offset = rbind read_u32 (\<lambda>off. rbind read_u32 (\<lambda>original_ttl. rreturn (off, original_ttl)))"

type_synonym file_entry =
  "CacheKey \<times> u64 \<times> u32 \<times> bytes \<times> bytes \<times> bytes \<times> bytes \<times> ttl_offsets \<times> u16"

definition read_entry :: "file_entry reader" where
  "read_entry =
     rbind read_u64 (\<lambda>key. rbind read_u64 (\<lambda>expire_unix. rbind read_u32 (\<lambda>raw_ttl.
     rbind read_bytes (\<lambda>question. rbind read_bytes (\<lambda>packet. rbind read_bytes (\<lambda>query.
     rbind read_bytes (\<lambda>qname_bytes. rbind read_u32 (\<lambda>offsets_count.
       if 65535 < unat offsets_count then rfail ''cache file: TTL-offset count too large''
       else rbind (read_n read_offset (unat offsets_count)) (\<lambda>offsets. rbind read_u16 (\<lambda>rid.
         rreturn (key, expire_unix, raw_ttl, question, packet, query, qname_bytes, offsets, rid)))))))))))"

text \<open>What an entry of the file becomes: nothing when it has expired or its name is not UTF-8.\<close>

definition load_entry :: "Instant \<Rightarrow> u64 \<Rightarrow> file_entry \<Rightarrow> (CacheKey \<times> Entry) option run" where
  "load_entry now_instant now_unix fe =
     (case fe of (key, expire_unix, raw_ttl, question, packet, query, qname_bytes, offsets, rid) \<Rightarrow>
       if expire_unix \<le> now_unix then Some None
       else
         let remaining = unat (saturating_sub expire_unix now_unix);
             age_secs = unat raw_ttl - remaining;
             (inserted, ttl_for_entry) =
               (if age_secs * 1000000000 \<le> now_instant
                then (now_instant - age_secs * 1000000000, raw_ttl)
                else (now_instant, of_nat (min remaining (unat raw_ttl))))
         in if \<not> utf8_valid qname_bytes then Some None
            else do {
              let qe = 12 + length question;
              v \<leftarrow> extract_variant query qe;
              Some (Some (key, \<lparr>e_packet = packet, e_query = query, e_qname = qname_bytes,
                e_question_end = qe, e_variant = v, e_inserted = inserted, e_ttl = ttl_for_entry,
                e_ttl_offsets = offsets, e_rule_id = rid\<rparr>))
            })"

fun load_loop :: "'s dns_qc \<Rightarrow> Instant \<Rightarrow> u64 \<Rightarrow> nat \<Rightarrow> 's \<Rightarrow> nat \<Rightarrow> bytes \<Rightarrow> ('s \<times> nat res) run" where
  "load_loop qc now_instant now_unix 0 s loaded r = Some (s, Inr loaded)"
| "load_loop qc now_instant now_unix (Suc n) s loaded r =
     (case read_entry r of
        Inl e \<Rightarrow> Some (s, Inl e)
      | Inr (fe, r) \<Rightarrow> do {
          x \<leftarrow> load_entry now_instant now_unix fe;
          case x of
            None \<Rightarrow> load_loop qc now_instant now_unix n s loaded r
          | Some (key, e) \<Rightarrow>
              load_loop qc now_instant now_unix n (qc_insert qc s key e) (loaded + 1) r
        })"

definition load_from_file ::
  "'s dns_qc \<Rightarrow> Instant \<Rightarrow> u64 \<Rightarrow> 's DnsCache \<Rightarrow> u64 \<Rightarrow> bytes \<Rightarrow> ('s DnsCache \<times> nat res) run" where
  "load_from_file qc now_instant now_unix c fingerprint file =
     (case dc_cache c of
        None \<Rightarrow> Some (c, Inr 0)
      | Some s \<Rightarrow>
          (case read_and_check_header CACHE_MAGIC fingerprint file of
             Inl e \<Rightarrow> Some (c, Inl e)
           | Inr (count, r) \<Rightarrow> do {
               (s, loaded) \<leftarrow> load_loop qc now_instant now_unix (unat count) s 0 r;
               Some (c\<lparr>dc_cache := Some s\<rparr>, loaded)
             }))"

section \<open>Keys\<close>

lemma query_question:
  assumes "query_shape hdr ls tail rest p"
  shows "slice p 12 (12 + length (enc_labels ls) + 4) = Some (enc_labels ls @ tail)"
proof -
  have "p = (hdr @ enc_labels ls @ tail) @ rest" "length hdr = 12" "length tail = 4"
    using assms by (auto simp: query_shape_def)
  then show ?thesis by (simp add: slice_in)
qed

lemma write_qname_wire_question:
  "labels_ok ls \<Longrightarrow> write_qname_wire fnv_new (enc_labels ls @ tail) =
     (fnv_write fnv_new (enc_labels (lower_labels ls)), length (enc_labels ls))"
  using write_qname_wire_from_enc [of ls fnv_new "[]" tail] by (simp add: write_qname_wire_def)

lemma cache_key_shape:
  assumes "query_shape hdr ls tail rest p"
  defines "info \<equiv> query_info hdr ls tail"
  shows "cache_key_with_variant_from_qname_hash p (fast_question_end info) (fast_qname_wire_hash info)
      (fast_qname_wire_hash_end info) v strip =
    Some (finish_cache_key (fnv_write fnv_new (enc_labels (lower_labels ls))) (enc_labels ls @ tail)
      (length (enc_labels ls)) v strip)"
proof -
  have "12 + length (enc_labels ls) + 4 \<le> length p"
    using assms(1) by (auto simp: query_shape_def)
  then show ?thesis
    using query_question [OF assms(1)] enc_labels_pos [of ls]
    by (simp add: cache_key_with_variant_from_qname_hash_def info_def query_info_def
        del: length_greater_0_conv)
qed

lemma finish_cache_key_tail:
  "finish_cache_key h (enc_labels ls @ tail) (length (enc_labels ls)) v strip =
   finish_cache_key h tail 0 v strip"
  by (simp add: finish_cache_key_def)

lemma finish_cache_key_strip:
  "finish_cache_key h q pos (v\<lparr>ecs_src := e\<rparr>) True = finish_cache_key h q pos v True"
  by (simp add: finish_cache_key_def)

text \<open>
  (C33) The cache key resumed from the hash that the parser computed is the key that the
  reference function computes from the packet, and it is a function of what should
  distinguish entries: it is the same for two accepted queries whose names agree up to ASCII
  case, with the same type, class and variant, and in strip mode whatever their subnets.
\<close>

theorem cache_key_resumed:
  assumes p: "parse_query_fast p = Some (Inr i)" and q: "parse_query_fast q = Some (Inr j)"
  shows "cache_key_with_variant_from_qname_hash p (fast_question_end i) (fast_qname_wire_hash i)
      (fast_qname_wire_hash_end i) v strip = cache_key_with_variant p (fast_question_end i) v strip \<and>
    (questions_match (drop 12 (take (fast_question_end i) p)) (drop 12 (take (fast_question_end j) q)) = Some True \<longrightarrow>
       cache_key_with_variant p (fast_question_end i) v False = cache_key_with_variant q (fast_question_end j) v False \<and>
       cache_key_with_variant p (fast_question_end i) v True =
         cache_key_with_variant q (fast_question_end j) (v\<lparr>ecs_src := e\<rparr>) True)"
proof -
  have ref: "cache_key_with_variant_from_qname_hash x (fast_question_end k) (fast_qname_wire_hash k)
      (fast_qname_wire_hash_end k) w s = cache_key_with_variant x (fast_question_end k) w s"
    if sh: "query_shape hdr ls tail rest x" and k: "k = query_info hdr ls tail" for x k w s hdr ls tail rest
  proof -
    have "labels_ok ls" "12 + length (enc_labels ls) + 4 \<le> length x"
      using sh by (auto simp: query_shape_def wire_name_ok_def)
    then show ?thesis
      using query_question [OF sh] write_qname_wire_question [of ls tail] enc_labels_pos [of ls]
      unfolding k cache_key_shape [OF sh]
      by (simp add: cache_key_with_variant_def query_info_def del: length_greater_0_conv)
  qed
  from parse_query_fast_decode [OF p] obtain hdr ls tail rest
    where ps: "query_shape hdr ls tail rest p" and i: "i = query_info hdr ls tail" by blast
  from parse_query_fast_decode [OF q] obtain hdr' ms tail' rest'
    where qs: "query_shape hdr' ms tail' rest' q" and j: "j = query_info hdr' ms tail'" by blast
  have match: "questions_match (drop 12 (take (fast_question_end i) p)) (drop 12 (take (fast_question_end j) q))
      = Some (lower_labels ls = lower_labels ms \<and> tail = tail')"
    using questions_match_shape [OF ps qs] by (simp add: i j query_info_def)
  have "cache_key_with_variant p (fast_question_end i) w s =
      Some (finish_cache_key (fnv_write fnv_new (enc_labels (lower_labels ls))) tail 0 w s)"
    and "cache_key_with_variant q (fast_question_end j) w s =
      Some (finish_cache_key (fnv_write fnv_new (enc_labels (lower_labels ms))) tail' 0 w s)" for w s
    unfolding ref [OF ps i, symmetric] ref [OF qs j, symmetric]
    by (simp_all only: i j cache_key_shape [OF ps] cache_key_shape [OF qs] finish_cache_key_tail)
  then show ?thesis
    unfolding match ref [OF ps i] by (simp add: finish_cache_key_strip)
qed

theorem cache_key_resumed_witness:
  "cache_key_with_variant_from_qname_hash sample_query 22 (fast_qname_wire_hash sample_query_info) 6
     (no_edns True False False) False =
   cache_key_with_variant sample_query 22 (no_edns True False False) False"
proof -
  have i: "parse_query_fast sample_query = Some (Inr sample_query_info)"
    "fast_question_end sample_query_info = 22" "fast_qname_wire_hash_end sample_query_info = 6"
    by code_simp+
  from cache_key_resumed [OF i(1) i(1)] show ?thesis unfolding i(2,3) by blast
qed

end
