(* ===== verification/Cache_Correct.thy ===== *)
theory Cache_Correct
  imports Cache
begin

text \<open>
  What the response cache promises, over any map that satisfies \<open>qc_laws\<close>: the exact result
  of a lookup, that a hit is fresh and was stored for an equivalent query, that what is
  served is the stored response with the client's id, the client's question and
  counted-down TTLs, and that a saved cache is restored with the lifetimes it had.
\<close>

section \<open>Responses that differ in id and question only\<close>

text \<open>\<open>same_answer qe p q\<close>: everything but the id and the question section is the same.\<close>

definition same_answer :: "nat \<Rightarrow> bytes \<Rightarrow> bytes \<Rightarrow> bool" where
  "same_answer qe p q \<longleftrightarrow> length q = length p \<and>
     (\<forall>i < length p. (2 \<le> i \<and> i < 12) \<or> qe \<le> i \<longrightarrow> q ! i = p ! i)"

lemma skip_name_same: "same_answer qe p q \<Longrightarrow> qe \<le> pos \<Longrightarrow> skip_name q pos = skip_name p pos"
proof (induction p pos rule: skip_name.induct)
  case (1 p pos)
  then have len: "length q = length p" by (simp add: same_answer_def)
  show ?case
  proof (cases "pos < length p")
    case True
    then have b: "q ! pos = p ! pos" using "1.prems" by (simp add: same_answer_def)
    show ?thesis
    proof (cases "p ! pos \<noteq> 0 \<and> p ! pos AND 0xc0 = 0 \<and> pos + 1 + unat (p ! pos) \<le> length p")
      case True
      then have "skip_name q (pos + 1 + unat (p ! pos)) = skip_name p (pos + 1 + unat (p ! pos))"
        using "1.IH" [OF \<open>pos < length p\<close> refl refl _ _ _ refl] "1.prems" by simp
      then show ?thesis
        using b len True by (simp add: skip_name.simps [of q pos] skip_name.simps [of p pos])
    next
      case False
      then show ?thesis
        using b len by (auto simp: skip_name.simps [of q pos] skip_name.simps [of p pos] Let_def)
    qed
  qed (simp add: len skip_name.simps [of q pos] skip_name.simps [of p pos])
qed

lemma same_answer_reads:
  assumes "same_answer qe p q" and "qe \<le> i"
  shows "i + 1 < length p \<Longrightarrow> u16_of q i = u16_of p i" "i + 3 < length p \<Longrightarrow> u32_of q i = u32_of p i"
  using assms by (auto simp: same_answer_def u16_of_def u32_of_def)

lemma parse_rr_same:
  assumes "same_answer qe p q" and "qe \<le> pos"
  shows "parse_rr q pos = parse_rr p pos"
proof (cases "skip_name p pos")
  case None
  then show ?thesis using skip_name_same [OF assms] by (simp add: parse_rr_unfold)
next
  case (Some f)
  have len: "length q = length p" using assms(1) by (simp add: same_answer_def)
  have f: "qe \<le> f" using skip_name_bounds [OF Some] assms(2) by simp
  have "u16_of q f = u16_of p f" "u16_of q (f + 2) = u16_of p (f + 2)" "u32_of q (f + 4) = u32_of p (f + 4)"
    "u16_of q (f + 8) = u16_of p (f + 8)" if "f + 10 \<le> length p"
    using same_answer_reads [OF assms(1)] f that by simp_all
  then show ?thesis
    using Some skip_name_same [OF assms] len by (auto simp: parse_rr_unfold)
qed

lemma read_rrs_same: "same_answer qe p q \<Longrightarrow> qe \<le> pos \<Longrightarrow> read_rrs q n pos = read_rrs p n pos"
proof (induction n arbitrary: pos)
  case (Suc n)
  show ?case
  proof (cases "parse_rr p pos")
    case (Some x)
    have "read_rrs q n (rr_end r) = read_rrs p n (rr_end r)" if "x = Some r" for r
      using Suc that parse_rr_bounds [of p pos r] Some by auto
    with Some parse_rr_same [OF Suc.prems] show ?thesis by (auto split: option.split)
  qed (simp add: parse_rr_same [OF Suc.prems])
qed simp

lemma section_rrs_same:
  assumes "same_answer qe p q"
  shows "section_rrs q qe = section_rrs p qe"
proof -
  have len: "length q = length p" using assms by (simp add: same_answer_def)
  have "u16_of q i = u16_of p i" if "12 \<le> length p" "2 \<le> i" "i < 11" for i
    using assms that by (auto simp: same_answer_def u16_of_def)
  then show ?thesis
    using read_rrs_same [OF assms order_refl] by (auto simp: section_rrs_def len not_less)
qed

lemma extract_soa_minimum_same:
  assumes "same_answer qe p q" and "qe \<le> s" and "e \<le> length p"
  shows "extract_soa_minimum q s e = extract_soa_minimum p s e"
proof (cases "skip_name p s")
  case (Some f)
  have f: "qe \<le> f" using skip_name_bounds [OF Some] assms(2) by simp
  note sk = skip_name_same [OF assms(1,2)] skip_name_same [OF assms(1) f]
  show ?thesis
  proof (cases "skip_name p f")
    case (Some g)
    have g: "qe \<le> g" using skip_name_bounds [OF Some] f by simp
    have "u32_of q (g + 16) = u32_of p (g + 16)" if "g + 20 \<le> e"
      using same_answer_reads(2) [OF assms(1)] g that assms(3) by simp
    moreover have "length q = length p" using assms(1) by (simp add: same_answer_def)
    ultimately show ?thesis
      using Some \<open>skip_name p s = Some f\<close> sk assms(3) by (auto simp: extract_soa_minimum_def be32_at_in)
  qed (use Some sk in \<open>simp add: extract_soa_minimum_def\<close>)
qed (use skip_name_same [OF assms(1,2)] in \<open>simp add: extract_soa_minimum_def\<close>)

lemma soa_scan_same:
  assumes "same_answer qe p q"
  shows "\<forall>r \<in> set rrs. qe \<le> rr_rdata r \<and> rr_end r \<le> length p \<Longrightarrow>
    soa_scan q an ns i soa rrs = soa_scan p an ns i soa rrs"
  by (induction rrs arbitrary: i soa) (simp_all add: extract_soa_minimum_same [OF assms])

lemma same_answer_count: "same_answer qe p q \<Longrightarrow> 12 \<le> length p \<Longrightarrow> u16_of q 6 = u16_of p 6"
  by (auto simp: same_answer_def u16_of_def)

lemma effective_ttl_same:
  assumes "same_answer qe p q"
  shows "effective_ttl_and_offsets q qe nodata lo hi = effective_ttl_and_offsets p qe nodata lo hi"
proof -
  have len: "length q = length p" using assms by (simp add: same_answer_def)
  have good: "is_good_reply q = is_good_reply p"
    using assms by (auto simp: same_answer_def is_good_reply_def is_reply_def rcode_def)
  show ?thesis
  proof (cases "is_good_reply p")
    case True
    have c: "u16_of q i = u16_of p i" if "2 \<le> i" "i < 11" for i
      using assms that is_good_reply_length [OF True] by (auto simp: same_answer_def u16_of_def)
    show ?thesis
    proof (cases "section_rrs p qe")
      case (Some rrs)
      then have rd: "read_rrs p (ancount p + nscount p + arcount p) qe = Some rrs"
        by (simp add: section_rrs_def split: if_splits)
      have "\<forall>r \<in> set rrs. qe \<le> rr_rdata r \<and> rr_end r \<le> length p"
        using read_rrs_ends [OF rd] by fastforce
      from soa_scan_same [OF assms this] show ?thesis
        using Some section_rrs_same [OF assms] good True c [of 6] c [of 8]
        by (simp add: effective_ttl_and_offsets_eq)
    qed (simp add: effective_ttl_and_offsets_eq section_rrs_same [OF assms] good)
  qed (simp add: effective_ttl_and_offsets_eq good)
qed

section \<open>Lookups\<close>

lemma set_id_ignoring_eq:
  "2 \<le> length p \<Longrightarrow> set_id_ignoring p i = p[0 := to_be 2 i ! 0, 1 := to_be 2 i ! 1]"
  by (simp add: set_id_ignoring_def set_id_def Let_def)

lemma get_id_set_id_ignoring: "2 \<le> length p \<Longrightarrow> get_id (set_id_ignoring p i) = Inr i"
  using get_set_id [of p i "set_id_ignoring p i"]
  by (simp add: set_id_ignoring_def set_id_def Let_def)

lemma length_set_id_ignoring [simp]: "length (set_id_ignoring p i) = length p"
  by (simp add: set_id_ignoring_def set_id_def Let_def)

definition age_of :: "Instant \<Rightarrow> Entry \<Rightarrow> nat" where
  "age_of now e = as_secs (now - e_inserted e)"

text \<open>The bytes a hit leaves in the client's buffer.\<close>

definition served_packet :: "Instant \<Rightarrow> Entry \<Rightarrow> KeyedLookup \<Rightarrow> bytes \<Rightarrow> bytes run" where
  "served_packet now e l question = do {
     let out = set_id_ignoring (e_packet e) (lk_client_id l);
     out \<leftarrow> (if lk_question_end l \<le> length out
             then store_slice out 12 (lk_question_end l) question else Some out);
     patch_ttls_at out (e_ttl_offsets e) (of_nat (min (age_of now e) 4294967295))
   }"

definition lookup_matches :: "Entry \<Rightarrow> KeyedLookup \<Rightarrow> bool run" where
  "lookup_matches e l = queries_match_v (e_variant e) (lk_variant l) (e_question_end e) (e_query e)
     (lk_query l) (lk_question_end l) (lk_strip_ecs l)"

lemma lookup_cases:
  assumes laws: "qc_laws qc view" and c: "dc_cache c = Some s"
    and q: "slice (lk_query l) 12 (lk_question_end l) = Some question"
  defines "c1 \<equiv> c\<lparr>dc_cache := Some (snd (qc_get qc s (lk_key l)))\<rparr>"
  shows "lookup_into_keyed qc now c l out =
    (case view s (lk_key l) of
       None \<Rightarrow> Some (None, out, c1)
     | Some e \<Rightarrow> do {
         m \<leftarrow> lookup_matches e l;
         if \<not> m then Some (None, out, c1)
         else if unat (e_ttl e) \<le> age_of now e then
           Some (None, out, c1\<lparr>dc_cache := Some (qc_remove qc (snd (qc_get qc s (lk_key l))) (lk_key l))\<rparr>)
         else do {
           out' \<leftarrow> served_packet now e l question;
           Some (Some \<lparr>meta_qname = (if lk_collect_qname l then Some (e_qname e) else None),
                       meta_rule_id = e_rule_id e\<rparr>, out', c1)
         }
       })"
proof -
  obtain s' where get: "qc_get qc s (lk_key l) = (view s (lk_key l), s')"
    using qc_lawsD(2) [OF laws, of s "lk_key l"] by (metis prod.collapse)
  show ?thesis
    unfolding lookup_into_keyed_def c get_range_def q
    by (cases "view s (lk_key l)")
       (simp_all add: get c1_def lookup_matches_def served_packet_def age_of_def Let_def cong: if_cong)
qed

lemma queries_match_v_True:
  assumes "queries_match_v sv lv sqe stored q qe strip = Some True"
  shows "sqe = qe \<and> qe \<le> length q \<and> 12 \<le> length q \<and> 12 \<le> length stored \<and> 12 \<le> qe \<and> qe \<le> length stored \<and>
    questions_match (drop 12 (take qe stored)) (drop 12 (take qe q)) = Some True \<and>
    (if strip then has_opt sv = has_opt lv \<and> do_bit sv = do_bit lv \<and> edns_version sv = edns_version lv \<and>
       rd sv = rd lv \<and> ad sv = ad lv \<and> cd sv = cd lv else sv = lv)"
proof -
  from assms have b: "sqe = qe" "qe \<le> length q" "12 \<le> length q" "12 \<le> length stored"
    by (auto simp: queries_match_v_def not_less split: if_splits)
  with assms have "12 \<le> qe" "qe \<le> length stored"
    by (auto simp: queries_match_v_def slice_def split: if_splits)
  with b assms show ?thesis
    by (auto simp: queries_match_v_def slice_in drop_take split: if_splits bind_splits)
qed

text \<open>Entries made by the server itself: their query holds a whole question.\<close>

definition entry_ok :: "Entry \<Rightarrow> bool" where
  "entry_ok e \<longleftrightarrow> 16 \<le> e_question_end e \<and> e_question_end e \<le> length (e_query e)"

definition cache_inv :: "('s \<Rightarrow> CacheKey \<rightharpoonup> Entry) \<Rightarrow> 's DnsCache \<Rightarrow> bool" where
  "cache_inv view c \<longleftrightarrow> (\<forall>s k e. dc_cache c = Some s \<longrightarrow> view s k = Some e \<longrightarrow> entry_ok e)"

lemma questions_match_total: "\<exists>b. questions_match a b' = Some b"
  by (cases "length a \<noteq> length b' \<or> length a < 4";
      cases "drop (length a - 4) a = drop (length b' - 4) b'")
     (auto simp: questions_match_def slice_in)

lemma lookup_matches_total: "entry_ok e \<Longrightarrow> \<exists>m. lookup_matches e l = Some m"
proof -
  assume ok: "entry_ok e"
  show ?thesis
  proof (cases "length (lk_query l) < lk_question_end l \<or> e_question_end e \<noteq> lk_question_end l \<or>
      length (lk_query l) < 12 \<or> length (e_query e) < 12")
    case False
    obtain b where "questions_match (take (lk_question_end l - 12) (drop 12 (e_query e)))
        (take (lk_question_end l - 12) (drop 12 (lk_query l))) = Some b"
      using questions_match_total by blast
    with False ok show ?thesis
      by (cases b) (auto simp: lookup_matches_def queries_match_v_def entry_ok_def slice_in)
  qed (auto simp: lookup_matches_def queries_match_v_def)
qed

lemma served_packet_total:
  assumes "slice (lk_query l) 12 (lk_question_end l) = Some question"
  shows "\<exists>out. served_packet now e l question = Some out \<and> length out = length (e_packet e)"
proof -
  let ?p = "set_id_ignoring (e_packet e) (lk_client_id l)"
  have len: "length question = lk_question_end l - 12" "12 \<le> lk_question_end l"
    using assms by (auto simp: slice_def split: if_splits)
  show ?thesis
  proof (cases "lk_question_end l \<le> length ?p")
    case True
    then obtain q where q: "store_slice ?p 12 (lk_question_end l) question = Some q"
      using len by (simp add: store_slice_in)
    obtain out where "patch_ttls_at q (e_ttl_offsets e) (of_nat (min (age_of now e) 4294967295)) = Some out"
      "length out = length q" using patch_ttls_at_total by blast
    with True q length_store_slice [OF q] show ?thesis by (simp add: served_packet_def Let_def)
  next
    case False
    obtain out where "patch_ttls_at ?p (e_ttl_offsets e) (of_nat (min (age_of now e) 4294967295)) = Some out"
      "length out = length ?p" using patch_ttls_at_total by blast
    with False show ?thesis by (simp add: served_packet_def Let_def)
  qed
qed

lemma lookup_hitD:
  assumes laws: "qc_laws qc view" and hit: "lookup_into_keyed qc now c l out = Some (Some m, out', c')"
  obtains s e question where "dc_cache c = Some s" "view s (lk_key l) = Some e"
    "slice (lk_query l) 12 (lk_question_end l) = Some question" "lookup_matches e l = Some True"
    "age_of now e < unat (e_ttl e)" "served_packet now e l question = Some out'"
    "m = \<lparr>meta_qname = (if lk_collect_qname l then Some (e_qname e) else None), meta_rule_id = e_rule_id e\<rparr>"
    "c' = c\<lparr>dc_cache := Some (snd (qc_get qc s (lk_key l)))\<rparr>"
proof -
  from hit obtain s where s: "dc_cache c = Some s"
    by (auto simp: lookup_into_keyed_def split: option.splits)
  from hit s obtain question where q: "slice (lk_query l) 12 (lk_question_end l) = Some question"
    by (auto simp: lookup_into_keyed_def get_range_def split: option.splits)
  from hit lookup_cases [OF laws s q, of now out] obtain e where e: "view s (lk_key l) = Some e"
    by (auto split: option.splits)
  from hit [unfolded lookup_cases [OF laws s q]] e have
    "lookup_matches e l = Some True" "age_of now e < unat (e_ttl e)" "served_packet now e l question = Some out'"
    "m = \<lparr>meta_qname = (if lk_collect_qname l then Some (e_qname e) else None), meta_rule_id = e_rule_id e\<rparr>"
    "c' = c\<lparr>dc_cache := Some (snd (qc_get qc s (lk_key l)))\<rparr>"
    by (auto split: bind_splits if_splits)
  then show ?thesis using that s q e by blast
qed

section \<open>What is served\<close>

text \<open>The response an entry was made from, and how it was reduced to TTL offsets.\<close>

definition stores :: "Entry \<Rightarrow> bytes \<Rightarrow> u32 \<Rightarrow> ResolvedCachePolicy \<Rightarrow> bool" where
  "stores e p t pol \<longleftrightarrow>
     e_packet e = set_id_ignoring p 0 \<and> length p \<le> 65535 \<and>
     effective_ttl_and_offsets p (e_question_end e) (pol_nodata_ttl pol) (pol_min_ttl pol) (pol_max_ttl pol)
       = Some (Some (t, e_ttl_offsets e))"

lemma set_id_store_same_answer:
  assumes "12 \<le> length p" and "12 \<le> qe" and "qe \<le> length p" and "length question = qe - 12"
  shows "\<exists>q. store_slice (set_id_ignoring (set_id_ignoring p 0) i) 12 qe question = Some q \<and>
    same_answer qe p q \<and> get_id q = Inr i \<and> drop 12 (take qe q) = question"
proof -
  let ?p = "set_id_ignoring (set_id_ignoring p 0) i"
  let ?q = "take 12 ?p @ question @ drop qe ?p"
  have st: "store_slice ?p 12 qe question = Some ?q"
    using assms by (simp add: store_slice_in)
  have p: "?p = p[0 := to_be 2 i ! 0, 1 := to_be 2 i ! 1]"
    using assms(1) by (simp add: set_id_ignoring_eq list_update_swap)
  have "same_answer qe p ?q"
    unfolding same_answer_def using assms by (auto simp: nth_append p)
  moreover have "get_id ?q = get_id ?p" using assms(1) by (simp add: get_id_def nth_append)
  then have "get_id ?q = Inr i" using get_id_set_id_ignoring assms(1) by simp
  moreover have "drop 12 (take qe ?q) = question" using assms by simp
  ultimately show ?thesis using st by blast
qed

lemma patched_before_sections:
  assumes "effective_ttl_and_offsets p qe nodata lo hi = Some (Some (t, offs))"
    and "patch_ttls_at p offs el = Some q" and "12 \<le> qe" and "length p \<le> 65535" and "i < qe"
  shows "q ! i = p ! i"
proof -
  from assms(1) obtain rrs where rrs: "section_rrs p qe = Some rrs"
    and offs: "offs = map (\<lambda>r. (of_nat (rr_rdata r - 6), served_ttl p t lo hi r))
                       (filter (\<lambda>r. rr_type r \<noteq> 41) rrs)"
    by (rule effective_ttl_SomeD)
  then have rd: "read_rrs p (ancount p + nscount p + arcount p) qe = Some rrs" and len: "qe \<le> length p"
    by (auto simp: section_rrs_def split: if_splits)
  show ?thesis
  proof (rule patch_ttls_at_frame [OF assms(2)])
    show "i < length p" using assms(5) len by simp
    fix off u assume "(off, u) \<in> set offs"
    then obtain r where r: "r \<in> set rrs" "off = of_nat (rr_rdata r - 6)" by (auto simp: offs)
    with read_rrs_ends [OF rd r(1)] assms(5)
    show "\<not> (unat off \<le> i \<and> i < unat off + 4)"
      by (simp only: r(2) rr_field_offset [OF rd r(1) assms(4)]) linarith
  qed
qed

lemma served_packet_sections:
  assumes st: "stores e p t pol" and q: "slice (lk_query l) 12 (lk_question_end l) = Some question"
    and qe: "e_question_end e = lk_question_end l"
    and out: "served_packet now e l question = Some out"
  shows "length out = length p \<and> get_id out = Inr (lk_client_id l) \<and>
    drop 12 (take (lk_question_end l) out) = question \<and>
    (\<exists>rrs. section_rrs p (lk_question_end l) = Some rrs \<and>
       section_rrs out (lk_question_end l) = Some (map (\<lambda>r. if rr_type r = 41 then r else
         rr_with_ttl (saturating_sub (served_ttl p t (pol_min_ttl pol) (pol_max_ttl pol) r)
           (of_nat (min (age_of now e) 4294967295))) r) rrs))"
proof -
  let ?qe = "lk_question_end l" and ?el = "of_nat (min (age_of now e) 4294967295) :: u32"
  have b: "12 \<le> ?qe" "length question = ?qe - 12" using q by (auto simp: slice_def split: if_splits)
  from st have eff: "effective_ttl_and_offsets p ?qe (pol_nodata_ttl pol) (pol_min_ttl pol) (pol_max_ttl pol)
      = Some (Some (t, e_ttl_offsets e))" and pk: "e_packet e = set_id_ignoring p 0" and lp: "length p \<le> 65535"
    by (auto simp: stores_def qe)
  from effective_ttl_SomeD [OF eff] obtain rrs where "section_rrs p ?qe = Some rrs" by blast
  then have len: "12 \<le> length p" "?qe \<le> length p"
    by (auto simp: section_rrs_def not_less split: if_splits)
  from set_id_store_same_answer [OF len(1) b(1) len(2) b(2)] obtain q1 where
    q1: "store_slice (set_id_ignoring (set_id_ignoring p 0) (lk_client_id l)) 12 ?qe question = Some q1"
    "same_answer ?qe p q1" "get_id q1 = Inr (lk_client_id l)" "drop 12 (take ?qe q1) = question"
    by blast
  have l1: "length q1 = length p" using q1(2) by (simp add: same_answer_def)
  have patch: "patch_ttls_at q1 (e_ttl_offsets e) ?el = Some out"
    using out q1(1) len by (simp add: served_packet_def pk Let_def)
  have eff1: "effective_ttl_and_offsets q1 ?qe (pol_nodata_ttl pol) (pol_min_ttl pol) (pol_max_ttl pol)
      = Some (Some (t, e_ttl_offsets e))" using effective_ttl_same [OF q1(2)] eff by simp
  have st1: "served_ttl q1 t lo hi r = served_ttl p t lo hi r" for lo hi r
    using same_answer_count [OF q1(2) len(1)] by (simp add: served_ttl_def)
  from patched_sections [OF eff1 b(1), of ?el] l1 lp patch section_rrs_same [OF q1(2)]
  have "\<exists>rrs. section_rrs p ?qe = Some rrs \<and> section_rrs out ?qe = Some (map (\<lambda>r. if rr_type r = 41 then r
      else rr_with_ttl (saturating_sub (served_ttl p t (pol_min_ttl pol) (pol_max_ttl pol) r) ?el) r) rrs)"
    by (auto simp: st1)
  moreover have "length out = length q1" using patch patch_ttls_at_total [of q1 "e_ttl_offsets e" ?el] by auto
  moreover have "out ! i = q1 ! i" if "i < ?qe" for i
    by (rule patched_before_sections [OF eff1 patch _ _ that]) (use b(1) l1 lp in simp_all)
  then have pre: "take ?qe out = take ?qe q1"
    using l1 len calculation(2) by (simp add: list_eq_iff_nth_eq)
  have "out ! 0 = q1 ! 0" "out ! 1 = q1 ! 1"
    by (rule take_eqD(2) [OF pre]; use b(1) l1 len in linarith)+
  then have "get_id out = get_id q1" using l1 calculation(2) by (simp add: get_id_def)
  ultimately show ?thesis using l1 q1(3,4) pre by simp
qed

section \<open>A sample\<close>

text \<open>
  A query for \<open>a\<close>, the same query from another client in upper case, and a cache that holds
  the answer to the first since time zero.
\<close>

definition plain_query :: bytes where
  "plain_query = [0x12, 0x34, 1, 0, 0, 1, 0, 0, 0, 0, 0, 0, 1, 97, 0, 0, 1, 0, 1]"

definition upper_query :: bytes where
  "upper_query = [0x56, 0x78, 1, 0, 0, 1, 0, 0, 0, 0, 0, 0, 1, 65, 0, 0, 1, 0, 1]"

definition plain_info :: FastQueryInfo where
  "plain_info = query_info (take 12 plain_query) [[97]] [0, 1, 0, 1]"

definition upper_info :: FastQueryInfo where
  "upper_info = query_info (take 12 upper_query) [[65]] [0, 1, 0, 1]"

definition plain_key :: CacheKey where
  "plain_key = 0x5ae405b07560d5ae"

definition plain_ins :: CacheInsert where
  "plain_ins = \<lparr>ins_key = plain_key, ins_qname = [97], ins_question_end = 19, ins_query = plain_query,
     ins_variant = no_edns True False False, ins_packet = sample_response\<rparr>"

definition plain_policy :: ResolvedCachePolicy where
  "plain_policy = \<lparr>pol_skip = False, pol_nodata_ttl = 0, pol_min_ttl = 0, pol_max_ttl = 0\<rparr>"

definition plain_entry :: Entry where
  "plain_entry = \<lparr>e_packet = set_id_ignoring sample_response 0, e_query = plain_query, e_qname = [97],
     e_question_end = 19, e_variant = no_edns True False False, e_inserted = 0, e_ttl = 60,
     e_ttl_offsets = [(25, 60)], e_rule_id = 3\<rparr>"

definition plain_cache :: "(CacheKey \<times> Entry) list DnsCache" where
  "plain_cache = \<lparr>dc_cache = Some [(plain_key, plain_entry)], dc_min_ttl = 0, dc_max_ttl = 0\<rparr>"

definition upper_lookup :: KeyedLookup where
  "upper_lookup = \<lparr>lk_key = plain_key, lk_query = upper_query, lk_question_end = 19, lk_client_id = 0x5678,
     lk_strip_ecs = False, lk_variant = no_edns True False False, lk_collect_qname = False\<rparr>"

definition served_upper :: bytes where
  "served_upper = (set_id_ignoring sample_response 0x5678)[13 := 65, 28 := 50]"

lemma upper_lookup_hit:
  "lookup_into_keyed alist_qc 10000000000 plain_cache upper_lookup [] =
     Some (Some \<lparr>meta_qname = None, meta_rule_id = 3\<rparr>, served_upper, plain_cache)"
  by code_simp

section \<open>Properties\<close>

text \<open>
  (C1) A hit is sound whatever the hash: under any key, the entry served was stored for a
  question that matches the client's byte for byte up to letter case, with the same EDNS
  variant (in strip mode, the same up to subnet and options), and it is still fresh. The
  entry's rule is the one attributed.
\<close>

theorem cache_hit_sound:
  assumes laws: "qc_laws qc view" and hit: "lookup_into_keyed qc now c l out = Some (Some m, out', c')"
  shows "\<exists>s e. dc_cache c = Some s \<and> view s (lk_key l) = Some e \<and> e_question_end e = lk_question_end l \<and>
    questions_match (drop 12 (take (lk_question_end l) (e_query e)))
      (drop 12 (take (lk_question_end l) (lk_query l))) = Some True \<and>
    (if lk_strip_ecs l then
       has_opt (e_variant e) = has_opt (lk_variant l) \<and> do_bit (e_variant e) = do_bit (lk_variant l) \<and>
       edns_version (e_variant e) = edns_version (lk_variant l) \<and> rd (e_variant e) = rd (lk_variant l) \<and>
       ad (e_variant e) = ad (lk_variant l) \<and> cd (e_variant e) = cd (lk_variant l)
     else e_variant e = lk_variant l) \<and>
    age_of now e < unat (e_ttl e) \<and> meta_rule_id m = e_rule_id e"
proof -
  from laws hit obtain s e question where "dc_cache c = Some s" "view s (lk_key l) = Some e"
    "slice (lk_query l) 12 (lk_question_end l) = Some question" "lookup_matches e l = Some True"
    "age_of now e < unat (e_ttl e)" "served_packet now e l question = Some out'"
    "m = \<lparr>meta_qname = (if lk_collect_qname l then Some (e_qname e) else None), meta_rule_id = e_rule_id e\<rparr>"
    "c' = c\<lparr>dc_cache := Some (snd (qc_get qc s (lk_key l)))\<rparr>"
    by (rule lookup_hitD)
  with queries_match_v_True [OF this(4) [unfolded lookup_matches_def]] show ?thesis by auto
qed

theorem cache_hit_sound_witness:
  "\<exists>s e. dc_cache plain_cache = Some s \<and> map_of s plain_key = Some e \<and> e_rule_id e = 3 \<and>
     questions_match (drop 12 (take 19 (e_query e))) (drop 12 (take 19 upper_query)) = Some True"
  using cache_hit_sound [OF alist_qc_laws upper_lookup_hit] by (auto simp: upper_lookup_def)



text \<open>
  (C9) Nothing stale and nothing invalidated is served: a lookup misses from the second the
  entry's TTL has elapsed on, and then also forgets the entry; after \<open>invalidate_all\<close> every
  lookup misses.
\<close>

theorem cache_never_stale:
  assumes laws: "qc_laws qc view" and s: "dc_cache c = Some s" and e: "view s (lk_key l) = Some e"
    and old: "unat (e_ttl e) \<le> age_of now e"
    and look: "lookup_into_keyed qc now c l out = Some (r, out', c')"
    and inv: "lookup_into_keyed qc now' (invalidate_all qc c0) l' o1 = Some (r1, o2, c2)"
  shows "r = None \<and> out' = out \<and> r1 = None \<and> o2 = o1 \<and>
    (\<forall>s'. dc_cache c' = Some s' \<longrightarrow> view s' (lk_key l) = None \<or> lookup_matches e l \<noteq> Some True)"
proof -
  have "r = None \<and> out' = out \<and>
    (\<forall>s'. dc_cache c' = Some s' \<longrightarrow> view s' (lk_key l) = None \<or> lookup_matches e l \<noteq> Some True)"
  proof (cases "slice (lk_query l) 12 (lk_question_end l)")
    case None
    with look s show ?thesis
      by (auto simp: lookup_into_keyed_def get_range_def lookup_matches_def queries_match_v_def slice_def
          split: if_splits bind_splits)
  next
    case (Some question)
    show ?thesis
      using look [unfolded lookup_cases [OF laws s Some]] e old
      by (auto simp: qc_lawsD(3,5) [OF laws] split: bind_splits if_splits)
  qed
  moreover have "r1 = None \<and> o2 = o1"
  proof (cases "dc_cache (invalidate_all qc c0)")
    case (Some s1)
    then have "view s1 = Map.empty"
      by (auto simp: invalidate_all_def qc_lawsD(6) [OF laws] split: option.splits)
    then have "fst (qc_get qc s1 (lk_key l')) = None" by (simp add: qc_lawsD(2) [OF laws])
    with inv Some show ?thesis
      by (auto simp: lookup_into_keyed_def split: option.splits prod.splits)
  qed (use inv in \<open>simp add: lookup_into_keyed_def\<close>)
  ultimately show ?thesis by blast
qed

theorem cache_never_stale_witness:
  "lookup_into_keyed alist_qc 60000000000 plain_cache upper_lookup [] =
     Some (None, [], plain_cache\<lparr>dc_cache := Some []\<rparr>) \<and>
   lookup_into_keyed alist_qc 0 (invalidate_all alist_qc plain_cache) upper_lookup [] =
     Some (None, [], plain_cache\<lparr>dc_cache := Some []\<rparr>)"
proof -
  have l: "lookup_into_keyed alist_qc 60000000000 plain_cache upper_lookup [] =
      Some (None, [], plain_cache\<lparr>dc_cache := Some []\<rparr>)"
    and i: "lookup_into_keyed alist_qc 0 (invalidate_all alist_qc plain_cache) upper_lookup [] =
      Some (None, [], plain_cache\<lparr>dc_cache := Some []\<rparr>)"
    by code_simp+
  have "age_of 60000000000 plain_entry = 60" by (simp add: age_of_def as_secs_def plain_entry_def)
  then have "unat (e_ttl plain_entry) \<le> age_of 60000000000 plain_entry" by (simp add: plain_entry_def)
  from cache_never_stale [OF alist_qc_laws _ _ this l i, of "[(plain_key, plain_entry)]"] l i
  show ?thesis by (simp add: plain_cache_def upper_lookup_def)
qed

section \<open>From an insertion to a hit\<close>

definition new_entry :: "Instant \<Rightarrow> CacheInsert \<Rightarrow> u32 \<Rightarrow> ttl_offsets \<Rightarrow> u16 \<Rightarrow> Entry" where
  "new_entry now ins t offs rid =
     \<lparr>e_packet = set_id_ignoring (ins_packet ins) 0, e_query = ins_query ins, e_qname = ins_qname ins,
      e_question_end = ins_question_end ins, e_variant = ins_variant ins, e_inserted = now, e_ttl = t,
      e_ttl_offsets = offs, e_rule_id = rid\<rparr>"

lemma cache_add_cases:
  "cache_add qc now c ins pol rid =
     Some (case dc_cache c of
         None \<Rightarrow> c
       | Some s \<Rightarrow>
           if is_truncated (ins_packet ins) then c
           else (case the (effective_ttl_and_offsets (ins_packet ins) (ins_question_end ins)
                     (pol_nodata_ttl pol) (pol_min_ttl pol) (pol_max_ttl pol)) of
               None \<Rightarrow> c
             | Some (t, offs) \<Rightarrow>
                 c\<lparr>dc_cache := Some (qc_insert qc s (ins_key ins) (new_entry now ins t offs rid))\<rparr>))"
  by (auto simp: cache_add_def effective_ttl_and_offsets_eq new_entry_def Let_def split: option.splits)

lemma cache_add_result:
  assumes "cache_add qc now c ins pol rid = Some c'"
  shows "c' = c \<or> (\<exists>s t offs. dc_cache c = Some s \<and>
    c' = c\<lparr>dc_cache := Some (qc_insert qc s (ins_key ins) (new_entry now ins t offs rid))\<rparr>)"
  using assms unfolding cache_add_cases
  by (cases "dc_cache c") (auto split: if_splits option.splits)

lemma cache_add_inv:
  assumes laws: "qc_laws qc view" and inv: "cache_inv view c"
    and qe: "16 \<le> ins_question_end ins" "ins_question_end ins \<le> length (ins_query ins)"
    and add: "cache_add qc now c ins pol rid = Some c'"
  shows "cache_inv view c'"
  using cache_add_result [OF add]
proof
  assume "\<exists>s t offs. dc_cache c = Some s \<and>
    c' = c\<lparr>dc_cache := Some (qc_insert qc s (ins_key ins) (new_entry now ins t offs rid))\<rparr>"
  then obtain s t offs where s: "dc_cache c = Some s"
    and c': "c' = c\<lparr>dc_cache := Some (qc_insert qc s (ins_key ins) (new_entry now ins t offs rid))\<rparr>" by blast
  have "entry_ok (new_entry now ins t offs rid)" using qe by (simp add: entry_ok_def new_entry_def)
  with inv s show ?thesis
    unfolding cache_inv_def c' by (auto dest!: qc_insert_view [OF laws])
qed (use inv in simp)

lemma lookup_total:
  assumes laws: "qc_laws qc view" and inv: "cache_inv view c"
  shows "\<exists>r out' c'. lookup_into_keyed qc now c l out = Some (r, out', c') \<and> cache_inv view c'"
proof (cases "dc_cache c")
  case None
  with inv show ?thesis by (simp add: lookup_into_keyed_def)
next
  case (Some s)
  show ?thesis
  proof (cases "slice (lk_query l) 12 (lk_question_end l)")
    case None
    with Some inv show ?thesis by (simp add: lookup_into_keyed_def get_range_def)
  next
    case sl: (Some question)
    let ?s' = "snd (qc_get qc s (lk_key l))"
    have inv1: "cache_inv view (c\<lparr>dc_cache := Some ?s'\<rparr>)"
      "cache_inv view (c\<lparr>dc_cache := Some (qc_remove qc ?s' (lk_key l))\<rparr>)"
      using inv Some by (auto simp: cache_inv_def qc_lawsD(3,5) [OF laws] split: if_splits)
    show ?thesis
    proof (cases "view s (lk_key l)")
      case (Some e)
      then have "entry_ok e" using inv \<open>dc_cache c = Some s\<close> by (auto simp: cache_inv_def)
      then obtain m where m: "lookup_matches e l = Some m" using lookup_matches_total by blast
      obtain out' where "served_packet now e l question = Some out'"
        using served_packet_total [OF sl] by blast
      with m Some inv1 show ?thesis
        unfolding lookup_cases [OF laws \<open>dc_cache c = Some s\<close> sl] by auto
    qed (use inv1 in \<open>auto simp: lookup_cases [OF laws \<open>dc_cache c = Some s\<close> sl]\<close>)
  qed
qed


lemma plain_cache_inv: "cache_inv map_of plain_cache"
  by (simp add: cache_inv_def plain_cache_def entry_ok_def plain_entry_def plain_query_def)


text \<open>Equivalent accepted queries: the question ends at the same place and the keys agree.\<close>

lemma equivalent_queries:
  assumes p: "parse_query_fast p = Some (Inr i)" and q: "parse_query_fast q = Some (Inr j)"
    and match: "questions_match (drop 12 (take (fast_question_end i) p))
      (drop 12 (take (fast_question_end j) q)) = Some True"
  shows "fast_question_end j = fast_question_end i" "12 \<le> fast_question_end i"
    "fast_question_end i \<le> length p" "fast_question_end i \<le> length q"
    "cache_key_with_variant_from_qname_hash q (fast_question_end j) (fast_qname_wire_hash j)
       (fast_qname_wire_hash_end j) v strip =
     cache_key_with_variant_from_qname_hash p (fast_question_end i) (fast_qname_wire_hash i)
       (fast_qname_wire_hash_end i) v strip"
proof -
  from parse_query_fast_decode [OF p] obtain hdr ls tail rest
    where ps: "query_shape hdr ls tail rest p" and i: "i = query_info hdr ls tail" by blast
  from parse_query_fast_decode [OF q] obtain hdr' ms tail' rest'
    where qs: "query_shape hdr' ms tail' rest' q" and j: "j = query_info hdr' ms tail'" by blast
  have eq: "lower_labels ls = lower_labels ms" "tail = tail'"
    using match questions_match_shape [OF ps qs] by (simp_all add: i j query_info_def)
  then have len: "length (enc_labels ls) = length (enc_labels ms)" by (metis length_enc_lower)
  then show "fast_question_end j = fast_question_end i" by (simp add: i j query_info_def)
  show "12 \<le> fast_question_end i" by (simp add: i query_info_def)
  show "fast_question_end i \<le> length p" using ps by (auto simp: i query_info_def query_shape_def)
  show "fast_question_end i \<le> length q" using qs len by (auto simp: i query_info_def query_shape_def)
  show "cache_key_with_variant_from_qname_hash q (fast_question_end j) (fast_qname_wire_hash j)
       (fast_qname_wire_hash_end j) v strip =
     cache_key_with_variant_from_qname_hash p (fast_question_end i) (fast_qname_wire_hash i)
       (fast_qname_wire_hash_end i) v strip"
    unfolding i j cache_key_shape [OF ps] cache_key_shape [OF qs] finish_cache_key_tail by (simp add: eq)
qed

lemma added_then_hit:
  assumes laws: "qc_laws qc view"
    and p: "parse_query_fast p = Some (Inr i)" and v: "extract_variant p (fast_question_end i) = Some v"
    and k: "cache_key_with_variant_from_qname_hash p (fast_question_end i) (fast_qname_wire_hash i)
      (fast_qname_wire_hash_end i) v False = Some k"
    and eff: "effective_ttl_and_offsets resp (fast_question_end i) (pol_nodata_ttl pol) (pol_min_ttl pol)
      (pol_max_ttl pol) = Some (Some (t, offs))"
    and resp: "\<not> is_truncated resp" "length resp \<le> 65535"
    and c: "dc_cache c = Some s0"
    and add: "cache_add qc t0 c \<lparr>ins_key = k, ins_qname = qn, ins_question_end = fast_question_end i,
      ins_query = p, ins_variant = v, ins_packet = resp\<rparr> pol rid = Some c'"
    and kept: "dc_cache c' = Some s'" "view s' k \<noteq> None"
    and q: "parse_query_fast q = Some (Inr j)" and vq: "extract_variant q (fast_question_end j) = Some v"
    and match: "questions_match (drop 12 (take (fast_question_end i) p))
      (drop 12 (take (fast_question_end j) q)) = Some True"
    and fresh: "as_secs (now - t0) < unat t"
  shows "\<exists>m pr out' c2 rrs. get_into_with_ecs_fallback qc now now' c' q j out b = Some (Some m, pr, out', c2) \<and>
    meta_rule_id m = rid \<and> get_id out' = Inr (fast_id j) \<and>
    drop 12 (take (fast_question_end j) out') = drop 12 (take (fast_question_end j) q) \<and>
    section_rrs resp (fast_question_end j) = Some rrs \<and>
    section_rrs out' (fast_question_end j) = Some (map (\<lambda>r. if rr_type r = 41 then r else
      rr_with_ttl (saturating_sub (served_ttl resp t (pol_min_ttl pol) (pol_max_ttl pol) r)
        (of_nat (as_secs (now - t0)))) r) rrs)"
proof -
  note eqv = equivalent_queries [OF p q match]
  let ?qe = "fast_question_end i"
  let ?ins = "\<lparr>ins_key = k, ins_qname = qn, ins_question_end = ?qe, ins_query = p, ins_variant = v,
      ins_packet = resp\<rparr>"
  let ?e = "new_entry t0 ?ins t offs rid"
  let ?l = "\<lparr>lk_key = k, lk_query = q, lk_question_end = ?qe, lk_client_id = fast_id j,
        lk_strip_ecs = False, lk_variant = v, lk_collect_qname = b\<rparr>"
  have "c' = c\<lparr>dc_cache := Some (qc_insert qc s0 k ?e)\<rparr>"
    using add c eff resp(1) by (simp add: cache_add_cases)
  with kept have s': "s' = qc_insert qc s0 k ?e" by simp
  have e: "view s' k = Some ?e"
  proof -
    have "view s' \<subseteq>\<^sub>m (view s0)(k \<mapsto> ?e)" unfolding s' by (rule qc_lawsD(4) [OF laws])
    with kept(2) show ?thesis by (metis domIff fun_upd_same map_le_def)
  qed
  have sl: "slice q 12 ?qe = Some (drop 12 (take ?qe q))"
    using eqv(1-4) by (simp add: slice_in drop_take)
  have m: "lookup_matches ?e ?l = Some True"
    using match eqv(1-4) by (simp add: lookup_matches_def queries_match_v_def new_entry_def slice_in drop_take)
  have age: "age_of now ?e = as_secs (now - t0)" "unat (e_ttl ?e) = unat t"
    by (simp_all add: age_of_def new_entry_def)
  obtain out' where out': "served_packet now ?e ?l (drop 12 (take ?qe q)) = Some out'"
    using served_packet_total [of ?l "drop 12 (take ?qe q)" now ?e] sl by auto
  have hit: "lookup_into_keyed qc now c' ?l out = Some (Some \<lparr>meta_qname = (if b then Some qn else None),
      meta_rule_id = rid\<rparr>, out', c'\<lparr>dc_cache := Some (snd (qc_get qc s' k))\<rparr>)"
    using lookup_cases [OF laws kept(1), of ?l "drop 12 (take ?qe q)" now out] sl e m age fresh out'
    by (simp add: new_entry_def)
  have "stores ?e resp t pol" using eff resp(2) by (simp add: stores_def new_entry_def)
  moreover have "slice (lk_query ?l) 12 (lk_question_end ?l) = Some (drop 12 (take ?qe q))"
    "e_question_end ?e = lk_question_end ?l" using sl by (simp_all add: new_entry_def)
  ultimately have "length out' = length resp \<and> get_id out' = Inr (fast_id j) \<and> drop 12 (take ?qe out') = drop 12 (take ?qe q) \<and>
    (\<exists>rrs. section_rrs resp ?qe = Some rrs \<and> section_rrs out' ?qe = Some (map (\<lambda>r. if rr_type r = 41 then r else
         rr_with_ttl (saturating_sub (served_ttl resp t (pol_min_ttl pol) (pol_max_ttl pol) r)
           (of_nat (min (as_secs (now - t0)) 4294967295))) r) rrs))"
    using served_packet_sections [of ?e resp t pol ?l "drop 12 (take ?qe q)" now out', unfolded age(1)] out'
    by simp
  moreover have "min (as_secs (now - t0)) 4294967295 = as_secs (now - t0)"
    using fresh unat_bound [of t] by simp
  moreover have "get_into_with_ecs_fallback qc now now' c' q j out b = Some (Some \<lparr>meta_qname = (if b then Some qn else None),
      meta_rule_id = rid\<rparr>, \<lparr>probe_variant = v, regular_key = k, stripped_key = None\<rparr>, out',
      c'\<lparr>dc_cache := Some (snd (qc_get qc s' k))\<rparr>)"
    using vq k eqv(1,5) hit by (simp add: get_into_with_ecs_fallback_def)
  ultimately show ?thesis unfolding eqv(1) by (simp only:) auto
qed

text \<open>
  (C35) A cached answer is found again: once a response has been added for an accepted query,
  then as long as the map keeps the entry and its TTL has not elapsed, every accepted query
  for the same name (in any letter case), type and class with the same variant is answered
  from the cache at the first probe, with its own id and question, the records of the
  stored response and TTLs counted down by the time passed, attributed to the rule.
\<close>

theorem cache_add_then_hit:
  assumes laws: "qc_laws qc view"
    and p: "parse_query_fast p = Some (Inr i)" and v: "extract_variant p (fast_question_end i) = Some v"
    and k: "cache_key_with_variant_from_qname_hash p (fast_question_end i) (fast_qname_wire_hash i)
      (fast_qname_wire_hash_end i) v False = Some k"
    and eff: "effective_ttl_and_offsets resp (fast_question_end i) (pol_nodata_ttl pol) (pol_min_ttl pol)
      (pol_max_ttl pol) = Some (Some (t, offs))"
    and resp: "\<not> is_truncated resp" "length resp \<le> 65535"
    and c: "dc_cache c = Some s0"
    and add: "cache_add qc t0 c \<lparr>ins_key = k, ins_qname = qn, ins_question_end = fast_question_end i,
      ins_query = p, ins_variant = v, ins_packet = resp\<rparr> pol rid = Some c'"
    and kept: "dc_cache c' = Some s'" "view s' k \<noteq> None"
    and q: "parse_query_fast q = Some (Inr j)" and vq: "extract_variant q (fast_question_end j) = Some v"
    and match: "questions_match (drop 12 (take (fast_question_end i) p))
      (drop 12 (take (fast_question_end j) q)) = Some True"
    and fresh: "as_secs (now - t0) < unat t"
  shows "\<exists>m pr out' c2 rrs. get_into_with_ecs_fallback qc now now' c' q j out b = Some (Some m, pr, out', c2) \<and>
    meta_rule_id m = rid \<and> get_id out' = Inr (fast_id j) \<and>
    drop 12 (take (fast_question_end j) out') = drop 12 (take (fast_question_end j) q) \<and>
    section_rrs resp (fast_question_end j) = Some rrs \<and>
    section_rrs out' (fast_question_end j) = Some (map (\<lambda>r. if rr_type r = 41 then r else
      rr_with_ttl (saturating_sub (served_ttl resp t (pol_min_ttl pol) (pol_max_ttl pol) r)
        (of_nat (as_secs (now - t0)))) r) rrs)"
  by (rule added_then_hit [OF assms])

theorem cache_add_then_hit_witness:
  "\<exists>m pr out' c2. get_into_with_ecs_fallback alist_qc 10000000000 10000000000 plain_cache upper_query upper_info [] False
     = Some (Some m, pr, out', c2) \<and> meta_rule_id m = 3 \<and> get_id out' = Inr (fast_id upper_info)"
proof -
  let ?c = "\<lparr>dc_cache = Some [], dc_min_ttl = 0, dc_max_ttl = 0\<rparr> :: (CacheKey \<times> Entry) list DnsCache"
  have a: "parse_query_fast plain_query = Some (Inr plain_info)"
    "extract_variant plain_query (fast_question_end plain_info) = Some (no_edns True False False)"
    "cache_key_with_variant_from_qname_hash plain_query (fast_question_end plain_info)
      (fast_qname_wire_hash plain_info) (fast_qname_wire_hash_end plain_info) (no_edns True False False) False
      = Some plain_key"
    "effective_ttl_and_offsets sample_response (fast_question_end plain_info) (pol_nodata_ttl plain_policy)
      (pol_min_ttl plain_policy) (pol_max_ttl plain_policy) = Some (Some (60, [(25, 60)]))"
    "\<not> is_truncated sample_response" "length sample_response \<le> 65535"
    by code_simp+
  have b: "dc_cache ?c = Some []"
    "cache_add alist_qc 0 ?c \<lparr>ins_key = plain_key, ins_qname = [97],
       ins_question_end = fast_question_end plain_info, ins_query = plain_query,
       ins_variant = no_edns True False False, ins_packet = sample_response\<rparr> plain_policy 3 = Some plain_cache"
    "dc_cache plain_cache = Some [(plain_key, plain_entry)]"
    by code_simp+
  have c: "map_of [(plain_key, plain_entry)] plain_key \<noteq> None" by simp
  have d: "parse_query_fast upper_query = Some (Inr upper_info)"
    "extract_variant upper_query (fast_question_end upper_info) = Some (no_edns True False False)"
    "questions_match (drop 12 (take (fast_question_end plain_info) plain_query))
      (drop 12 (take (fast_question_end upper_info) upper_query)) = Some True"
    "as_secs (10000000000 - 0) < unat (60 :: u32)"
    by code_simp+
  from cache_add_then_hit [OF alist_qc_laws a b c d, of 10000000000 "[]" False] show ?thesis by blast
qed

end
