(* ===== verification/Cache_Persist.thy ===== *)
theory Cache_Persist
  imports Cache_Correct
begin

text \<open>
  The saved response cache: the file format of \<open>save_to_file\<close> and \<open>load_from_file\<close> as a codec,
  and that a cache that is saved and loaded again, possibly after a restart that reset the
  monotonic clock, holds the same responses for the time they had left.
\<close>

section \<open>The file format\<close>

definition file_entry_of :: "u64 \<Rightarrow> CacheKey \<times> Entry \<times> nat \<Rightarrow> file_entry" where
  "file_entry_of now_unix x =
     (case x of (key, e, remaining) \<Rightarrow>
       (key, now_unix + of_nat remaining, e_ttl e,
        case get_range (e_query e) 12 (e_question_end e) of Some q \<Rightarrow> q | None \<Rightarrow> [],
        e_packet e, e_query e, e_qname e, e_ttl_offsets e, e_rule_id e))"

definition enc_file_entry :: "file_entry \<Rightarrow> bytes" where
  "enc_file_entry fe =
     (case fe of (key, expire_unix, t, question, pk, qu, qn, offs, rid) \<Rightarrow>
       to_le 8 key @ to_le 8 expire_unix @ to_le 4 t @ write_bytes question @ write_bytes pk
       @ write_bytes qu @ write_bytes qn @ to_le 4 (of_nat (length offs) :: u32)
       @ concat (map write_offset offs) @ to_le 2 rid)"

definition file_entry_ok :: "file_entry \<Rightarrow> bool" where
  "file_entry_ok fe \<longleftrightarrow>
     (case fe of (key, expire_unix, t, question, pk, qu, qn, offs, rid) \<Rightarrow>
       length question \<le> 65536 \<and> length pk \<le> 65536 \<and> length qu \<le> 65536 \<and> length qn \<le> 65536 \<and>
       length offs \<le> 65535)"

lemma write_entry_enc: "write_entry now x = enc_file_entry (file_entry_of now x)"
  by (simp add: write_entry_def enc_file_entry_def file_entry_of_def Let_def split: prod.split)

interpretation offset_codec: codec write_offset read_offset "\<lambda>_. True"
  by unfold_locales (simp add: write_offset_def read_offset_def rbind_def rreturn_def read_ints)

lemma read_offsets_write:
  assumes "length offs \<le> 65535"
  shows "unat (of_nat (length offs) :: u32) = length offs"
    and "read_n read_offset (length offs) (concat (map write_offset offs) @ r) = Inr (offs, r)"
proof -
  show "unat (of_nat (length offs) :: u32) = length offs" using assms by (simp add: unat_of_nat)
  show "read_n read_offset (length offs) (concat (map write_offset offs) @ r) = Inr (offs, r)"
    by (rule offset_codec.read_n_enc) (simp add: list_all_iff)
qed

interpretation entry_codec: codec enc_file_entry read_entry file_entry_ok
proof
  fix fe r assume ok: "file_entry_ok fe"
  obtain key ex t qs pk qu qn offs rid where fe: "fe = (key, ex, t, qs, pk, qu, qn, offs, rid)"
    by (metis prod.exhaust)
  with ok have "length offs \<le> 65535" by (simp add: file_entry_ok_def)
  note ro = read_offsets_write [OF this]
  from ok fe ro show "read_entry (enc_file_entry fe @ r) = Inr (fe, r)"
    by (simp add: enc_file_entry_def file_entry_ok_def read_entry_def rbind_def rreturn_def
        read_ints read_bytes_write not_less)
qed

section \<open>Loading\<close>

lemma load_entry_total: "\<exists>x. load_entry ni nu fe = Some x"
proof -
  obtain key ex t qs pk qu qn offs rid where fe: "fe = (key, ex, t, qs, pk, qu, qn, offs, rid)"
    by (metis prod.exhaust)
  obtain v where "extract_variant qu (12 + length qs) = Some v" using extract_variant_total by blast
  then show ?thesis by (simp add: load_entry_def fe Let_def)
qed

definition loaded_entries :: "Instant \<Rightarrow> u64 \<Rightarrow> file_entry list \<Rightarrow> (CacheKey \<times> Entry) list" where
  "loaded_entries ni nu fes = List.map_filter (\<lambda>fe. the (load_entry ni nu fe)) fes"

lemma load_loop_enc:
  "list_all file_entry_ok fes \<Longrightarrow>
   load_loop qc ni nu (length fes) s n (concat (map enc_file_entry fes) @ r) =
     Some (insert_all qc (loaded_entries ni nu fes) s, Inr (n + length (loaded_entries ni nu fes)))"
proof (induction fes arbitrary: s n)
  case Nil
  then show ?case by (simp add: insert_all_def loaded_entries_def map_filter_simps)
next
  case (Cons fe fes)
  obtain x where x: "load_entry ni nu fe = Some x" using load_entry_total by blast
  show ?case
    using Cons x entry_codec.dec_enc [of fe]
    by (cases x) (auto simp: insert_all_def loaded_entries_def map_filter_simps)
qed

section \<open>Lifetimes\<close>

text \<open>Entries the server makes itself can be saved.\<close>

definition saveable :: "Entry \<Rightarrow> bool" where
  "saveable e \<longleftrightarrow> entry_ok e \<and> length (e_packet e) \<le> 65536 \<and> length (e_query e) \<le> 65536 \<and>
     length (e_qname e) \<le> 65536 \<and> length (e_ttl_offsets e) \<le> 65535 \<and> utf8_valid (e_qname e) \<and>
     extract_variant (e_query e) (e_question_end e) = Some (e_variant e)"

definition left_of :: "Instant \<Rightarrow> Entry \<Rightarrow> nat" where
  "left_of now e = unat (e_ttl e) - age_of now e"

lemma left_of_le: "left_of now e < 4294967296"
  using unat_bound [of "e_ttl e"] by (simp add: left_of_def)

lemma file_entry_of_ok: "saveable e \<Longrightarrow> file_entry_ok (file_entry_of nu (k, e, r))"
  by (auto simp: saveable_def file_entry_ok_def file_entry_of_def get_range_def slice_def entry_ok_def)

text \<open>
  \<open>same_response e e'\<close>: the two entries answer the same query with the same packet.
\<close>

definition same_response :: "Entry \<Rightarrow> Entry \<Rightarrow> bool" where
  "same_response e e' \<longleftrightarrow> e_packet e' = e_packet e \<and> e_query e' = e_query e \<and> e_qname e' = e_qname e \<and>
     e_question_end e' = e_question_end e \<and> e_variant e' = e_variant e \<and>
     e_ttl_offsets e' = e_ttl_offsets e \<and> e_rule_id e' = e_rule_id e"

lemma as_secs_mult [simp]: "as_secs (n * 1000000000) = n"
  by (simp add: as_secs_def)

lemma load_saved_entry:
  assumes e: "saveable e" and r: "0 < left_of now e" and nu: "nu \<le> nu'" "unat nu < 2 ^ 63"
    and x: "load_entry ni nu' (file_entry_of nu (k, e, left_of now e)) = Some (Some (k', e'))"
  shows "k' = k \<and> same_response e e' \<and>
    left_of ni e' = left_of now e - (unat nu' - unat nu) \<and> 0 < left_of ni e'"
proof -
  let ?r = "left_of now e"
  have le: "unat nu \<le> unat nu'" using nu(1) by (simp add: word_le_nat_alt)
  have ex: "unat (nu + of_nat ?r) = unat nu + ?r"
    using left_of_le [of now e] nu(2) by (simp add: unat_word_ariths unat_of_nat)
  have q: "slice (e_query e) 12 (e_question_end e) = Some (take (e_question_end e - 12) (drop 12 (e_query e)))"
    and qe: "12 + length (take (e_question_end e - 12) (drop 12 (e_query e))) = e_question_end e"
    using e by (auto simp: saveable_def entry_ok_def slice_in)
  from x have fresh: "unat nu' < unat nu + ?r"
    using ex by (auto simp: load_entry_def file_entry_of_def word_le_nat_alt Let_def not_le split: if_splits)
  have rem: "unat (saturating_sub (nu + of_nat ?r) nu') = ?r - (unat nu' - unat nu)"
    using ex fresh le by (simp add: unat_saturating_sub)
  have rt: "?r \<le> unat (e_ttl e)" by (simp add: left_of_def)
  let ?age = "unat (e_ttl e) - (?r - (unat nu' - unat nu))"
  have v: "extract_variant (e_query e) (e_question_end e) = Some (e_variant e)" "utf8_valid (e_qname e)"
    using e by (simp_all add: saveable_def)
  have "k' = k \<and> same_response e e' \<and> (e_inserted e', e_ttl e') =
      (if ?age * 1000000000 \<le> ni then (ni - ?age * 1000000000, e_ttl e)
       else (ni, of_nat (min (?r - (unat nu' - unat nu)) (unat (e_ttl e)))))"
    using x q qe v fresh rem ex
    by (auto simp: load_entry_def file_entry_of_def get_range_def same_response_def word_le_nat_alt not_le
        Let_def split: if_splits)
  moreover have "left_of ni e' = ?r - (unat nu' - unat nu)"
  proof (cases "?age * 1000000000 \<le> ni")
    case True
    with calculation have "age_of ni e' = ?age" "e_ttl e' = e_ttl e" by (simp_all add: age_of_def)
    then show ?thesis using rt by (simp add: left_of_def)
  next
    case False
    have "unat (of_nat (min (?r - (unat nu' - unat nu)) (unat (e_ttl e))) :: u32) = ?r - (unat nu' - unat nu)"
    proof -
      have "?r - (unat nu' - unat nu) \<le> unat (e_ttl e)" using rt by linarith
      moreover have "?r - (unat nu' - unat nu) < 4294967296" using left_of_le [of now e] by linarith
      ultimately show ?thesis by (simp add: unat_of_nat min_absorb1)
    qed
    with False calculation show ?thesis by (simp add: left_of_def age_of_def as_secs_def)
  qed
  ultimately show ?thesis using fresh le by simp
qed

lemma live_entries_mem:
  assumes "x \<in> set (live_entries clock es)"
  shows "\<exists>i k e. x = (k, e, left_of (clock i) e) \<and> (k, e) \<in> set es \<and> 0 < left_of (clock i) e"
proof -
  from assms obtain i k e where x: "x = (k, e, left_of (clock i) e)" "0 < left_of (clock i) e"
    and m: "(i, k, e) \<in> set (enumerate 0 es)"
    by (auto simp: live_entries_def left_of_def age_of_def)
  from m have "i < length es" "es ! i = (k, e)" by (auto simp: in_set_enumerate_eq)
  then have "(k, e) \<in> set es" by (metis nth_mem)
  with x show ?thesis by blast
qed

lemma saved_view:
  assumes "qc_laws qc view" and "x \<in> set (live_entries clock (qc_iter qc s))"
  shows "\<exists>i k e. x = (k, e, left_of (clock i) e) \<and> view s k = Some e \<and> 0 < left_of (clock i) e"
proof -
  from live_entries_mem [OF assms(2)] obtain i k e where x: "x = (k, e, left_of (clock i) e)"
    "(k, e) \<in> set (qc_iter qc s)" "0 < left_of (clock i) e" by blast
  have "map_of (qc_iter qc s) k = Some e"
    by (rule map_of_is_SomeI [OF qc_lawsD(8) [OF assms(1)] x(2)])
  then have "view s k = Some e" by (simp add: qc_lawsD(7) [OF assms(1)])
  with x show ?thesis by blast
qed

section \<open>Properties\<close>


definition saved_file :: bytes where
  "saved_file = write_header CACHE_MAGIC 7 1 @ write_entry 1000 (plain_key, plain_entry, 10)"

lemma plain_cache_saved:
  "save_to_file alist_qc (\<lambda>_. 50000000000) 1000 plain_cache 7 = (Some saved_file, 1)"
  by (simp add: save_to_file_def plain_cache_def live_entries_def alist_qc_def plain_entry_def
      as_secs_def saved_file_def enumerate_eq_zip)

definition empty_cache :: "(CacheKey \<times> Entry) list DnsCache" where
  "empty_cache = \<lparr>dc_cache = Some [], dc_min_ttl = 0, dc_max_ttl = 0\<rparr>"


section \<open>Two limits of the loader\<close>

text \<open>
  The loader re-anchors an entry whose age exceeds the uptime: it is inserted now with the
  remaining seconds as its lifetime, but its TTL offsets keep the original TTLs, so a client
  asking right after such a restart is served 60 seconds for a record that has 10 left.
\<close>

lemma reanchored_ttl_served_too_large:
  "load_from_file alist_qc 0 1000 empty_cache 7 saved_file =
     Some (empty_cache\<lparr>dc_cache := Some [(plain_key, plain_entry\<lparr>e_ttl := 10\<rparr>)]\<rparr>, Inr 1) \<and>
   lookup_into_keyed alist_qc 0 (empty_cache\<lparr>dc_cache := Some [(plain_key, plain_entry\<lparr>e_ttl := 10\<rparr>)]\<rparr>)
       upper_lookup [] =
     Some (Some \<lparr>meta_qname = None, meta_rule_id = 3\<rparr>, served_upper[28 := 60],
       empty_cache\<lparr>dc_cache := Some [(plain_key, plain_entry\<lparr>e_ttl := 10\<rparr>)]\<rparr>)"
  by (rule conjI; code_simp)

text \<open>
  The loader accepts an entry whose query is shorter than its question, and a lookup of its key
  then slices past the end of the stored query and panics.
\<close>

lemma loaded_short_query_panics:
  "\<exists>e. load_entry 0 1000 (plain_key, 1010, 60, drop 12 plain_query, sample_response, take 14 plain_query, [97], [], 3)
      = Some (Some (plain_key, e)) \<and>
     lookup_into_keyed alist_qc 0 (empty_cache\<lparr>dc_cache := Some [(plain_key, e)]\<rparr>) upper_lookup [] = None"
proof -
  let ?e = "\<lparr>e_packet = sample_response, e_query = take 14 plain_query, e_qname = [97], e_question_end = 19,
    e_variant = no_edns True False False, e_inserted = 0, e_ttl = 10, e_ttl_offsets = [], e_rule_id = 3\<rparr>"
  have "load_entry 0 1000 (plain_key, 1010, 60, drop 12 plain_query, sample_response, take 14 plain_query, [97], [], 3)
      = Some (Some (plain_key, ?e))"
    "lookup_into_keyed alist_qc 0 (empty_cache\<lparr>dc_cache := Some [(plain_key, ?e)]\<rparr>) upper_lookup [] = None"
    by code_simp+
  then show ?thesis by blast
qed

end
