(* ===== verification/Rust_Text.thy ===== *)
theory Rust_Text
  imports Dns_Builder
begin

text \<open>
  The string functions of the Rust standard library that the configuration and rule-set
  components call. A string is the list of its UTF-8 bytes; every function below cuts only at
  character boundaries. The address parser follows \<open>core::net::parser\<close>: a reader
  returns the value and the bytes that are left, and \<open>None\<close> restores the state.
\<close>

section \<open>Cutting strings\<close>

definition strip_prefix :: "bytes \<Rightarrow> bytes \<Rightarrow> bytes option" where
  "strip_prefix p s = (if take (length p) s = p then Some (drop (length p) s) else None)"

definition starts_with :: "bytes \<Rightarrow> bytes \<Rightarrow> bool" where
  "starts_with s p \<longleftrightarrow> take (length p) s = p"

definition split_once :: "u8 \<Rightarrow> bytes \<Rightarrow> (bytes \<times> bytes) option" where
  "split_once c s =
     (case dropWhile (\<lambda>b. b \<noteq> c) s of [] \<Rightarrow> None | _ # r \<Rightarrow> Some (takeWhile (\<lambda>b. b \<noteq> c) s, r))"

fun split_on :: "u8 \<Rightarrow> bytes \<Rightarrow> bytes list" where
  "split_on c [] = [[]]"
| "split_on c (b # bs) =
     (if b = c then [] # split_on c bs
      else case split_on c bs of [] \<Rightarrow> [[b]] | l # ls \<Rightarrow> (b # l) # ls)"

text \<open>\<open>str::lines\<close>: the line feed ends a line, with one carriage return before it.\<close>

definition strip_cr :: "bytes \<Rightarrow> bytes" where
  "strip_cr l = (if l \<noteq> [] \<and> last l = 13 then butlast l else l)"

function str_lines :: "bytes \<Rightarrow> bytes list" where
  "str_lines s =
     (if s = [] then []
      else case split_once 10 s of None \<Rightarrow> [s] | Some (l, r) \<Rightarrow> strip_cr l # str_lines r)"
  by pat_completeness auto
termination
proof (relation "measure length", goal_cases)
  case (2 s x l r)
  then have "dropWhile (\<lambda>b. b \<noteq> 10) s = 10 # r"
    by (auto simp: split_once_def split: list.splits dest: dropWhile_eq_Cons_conv [THEN iffD1])
  then have "Suc (length r) \<le> length s" by (metis length_Cons length_dropWhile_le)
  then show ?case by simp
qed simp

declare str_lines.simps [simp del]

text \<open>The characters with the Unicode property \<open>White_Space\<close>, in UTF-8.\<close>

definition white_space :: "bytes list" where
  "white_space = [[9], [10], [11], [12], [13], [32], [0xc2, 0x85], [0xc2, 0xa0], [0xe1, 0x9a, 0x80],
     [0xe2, 0x80, 0x80], [0xe2, 0x80, 0x81], [0xe2, 0x80, 0x82], [0xe2, 0x80, 0x83], [0xe2, 0x80, 0x84],
     [0xe2, 0x80, 0x85], [0xe2, 0x80, 0x86], [0xe2, 0x80, 0x87], [0xe2, 0x80, 0x88], [0xe2, 0x80, 0x89],
     [0xe2, 0x80, 0x8a], [0xe2, 0x80, 0xa8], [0xe2, 0x80, 0xa9], [0xe2, 0x80, 0xaf], [0xe2, 0x81, 0x9f],
     [0xe3, 0x80, 0x80]]"

fun match_front :: "bytes list \<Rightarrow> bytes \<Rightarrow> nat" where
  "match_front [] s = 0"
| "match_front (w # ws) s = (if take (length w) s = w then length w else match_front ws s)"

lemma match_front_le: "match_front ws s \<le> length s"
  by (induction ws) (auto, metis length_take min.cobounded1)

function trim_front :: "bytes list \<Rightarrow> bytes \<Rightarrow> bytes" where
  "trim_front ws s = (let n = match_front ws s in if n = 0 then s else trim_front ws (drop n s))"
  by pat_completeness auto
termination
proof (relation "measure (\<lambda>(ws, s). length s)", goal_cases)
  case (2 ws s n)
  with match_front_le [of ws s] show ?case by simp
qed simp

declare trim_front.simps [simp del]

definition trim_start :: "bytes \<Rightarrow> bytes" where
  "trim_start s = trim_front white_space s"

definition trim_end :: "bytes \<Rightarrow> bytes" where
  "trim_end s = rev (trim_front (map rev white_space) (rev s))"

definition trim :: "bytes \<Rightarrow> bytes" where
  "trim s = trim_end (trim_start s)"

abbreviation lowercase :: "bytes \<Rightarrow> bytes" where
  "lowercase s \<equiv> map to_ascii_lowercase s"

section \<open>Numbers\<close>

definition is_digit :: "u8 \<Rightarrow> bool" where
  "is_digit b \<longleftrightarrow> 48 \<le> b \<and> b \<le> 57"

text \<open>\<open>from_str\<close> of an unsigned integer of \<open>w\<close> bits: digits after an optional plus sign.\<close>

definition parse_uint :: "nat \<Rightarrow> bytes \<Rightarrow> nat option" where
  "parse_uint w s =
     (let ds = (if length s > 1 \<and> hd s = 43 then tl s else s)
      in if ds = [] \<or> \<not> list_all is_digit ds then None
         else let v = foldl (\<lambda>a d. 10 * a + unat (d - 48)) 0 ds
              in if v < 2 ^ w then Some v else None)"

definition hex_digit :: "u8 \<Rightarrow> nat option" where
  "hex_digit b =
     (if is_digit b then Some (unat (b - 48))
      else if 97 \<le> b \<and> b \<le> 102 then Some (unat (b - 87))
      else if 65 \<le> b \<and> b \<le> 70 then Some (unat (b - 55)) else None)"

section \<open>Addresses\<close>

definition dec_digit :: "u8 \<Rightarrow> nat option" where
  "dec_digit b = (if is_digit b then Some (unat (b - 48)) else None)"

definition read_number :: "(u8 \<Rightarrow> nat option) \<Rightarrow> nat \<Rightarrow> nat \<Rightarrow> bool \<Rightarrow> bytes \<Rightarrow> (nat \<times> bytes) option" where
  "read_number to_digit radix max_digits allow_zero_prefix s =
     (let ds = takeWhile (\<lambda>b. to_digit b \<noteq> None) s
      in if length ds > max_digits \<or> ds = [] then None
         else if \<not> allow_zero_prefix \<and> hd ds = 48 \<and> length ds > 1 then None
         else Some (foldl (\<lambda>a d. radix * a + the (to_digit d)) 0 ds, drop (length ds) s))"

definition read_octet :: "bytes \<Rightarrow> (u8 \<times> bytes) option" where
  "read_octet s =
     (case read_number dec_digit 10 3 False s of
        Some (v, r) \<Rightarrow> if v < 256 then Some (of_nat v, r) else None
      | None \<Rightarrow> None)"

definition read_given_char :: "u8 \<Rightarrow> bytes \<Rightarrow> bytes option" where
  "read_given_char c s = (case s of b # r \<Rightarrow> if b = c then Some r else None | [] \<Rightarrow> None)"

definition read_separator :: "u8 \<Rightarrow> nat \<Rightarrow> (bytes \<Rightarrow> ('a \<times> bytes) option) \<Rightarrow> bytes \<Rightarrow> ('a \<times> bytes) option" where
  "read_separator c i inner s =
     (if i > 0 then (case read_given_char c s of Some r \<Rightarrow> inner r | None \<Rightarrow> None) else inner s)"

definition read_ipv4_addr :: "bytes \<Rightarrow> (bytes \<times> bytes) option" where
  "read_ipv4_addr s = do {
     (a, s) \<leftarrow> read_separator 46 0 read_octet s;
     (b, s) \<leftarrow> read_separator 46 1 read_octet s;
     (c, s) \<leftarrow> read_separator 46 2 read_octet s;
     (d, s) \<leftarrow> read_separator 46 3 read_octet s;
     Some ([a, b, c, d], s) }"

definition read_group :: "bytes \<Rightarrow> (u16 \<times> bytes) option" where
  "read_group s =
     (case read_number hex_digit 16 4 True s of Some (v, r) \<Rightarrow> Some (of_nat v, r) | None \<Rightarrow> None)"

function read_groups :: "nat \<Rightarrow> nat \<Rightarrow> u16 list \<Rightarrow> bytes \<Rightarrow> u16 list \<times> bool \<times> bytes" where
  "read_groups limit i groups s =
     (if limit \<le> i then (groups, False, s)
      else case (if i + 1 < limit then read_separator 58 i read_ipv4_addr s else None) of
        Some (os, r) \<Rightarrow> (groups @ [be16 (os ! 0) (os ! 1), be16 (os ! 2) (os ! 3)], True, r)
      | None \<Rightarrow> (case read_separator 58 i read_group s of
          Some (g, r) \<Rightarrow> read_groups limit (i + 1) (groups @ [g]) r
        | None \<Rightarrow> (groups, False, s)))"
  by pat_completeness auto
termination
  by (relation "measure (\<lambda>(limit, i, _). limit - i)") auto

declare read_groups.simps [simp del]

definition read_ipv6_addr :: "bytes \<Rightarrow> (u16 list \<times> bytes) option" where
  "read_ipv6_addr s =
     (case read_groups 8 0 [] s of (hd_groups, head_ipv4, s) \<Rightarrow>
        if length hd_groups = 8 then Some (hd_groups, s)
        else if head_ipv4 then None
        else do {
          s \<leftarrow> read_given_char 58 s;
          s \<leftarrow> read_given_char 58 s;
          case read_groups (8 - (length hd_groups + 1)) 0 [] s of (tl_groups, _, s) \<Rightarrow>
            Some (hd_groups @ replicate (8 - length hd_groups - length tl_groups) 0 @ tl_groups, s) })"

definition parse_ip_addr :: "bytes \<Rightarrow> IpAddr option" where
  "parse_ip_addr s =
     (case read_ipv4_addr s of
        Some (os, r) \<Rightarrow> if r = [] then Some (V4 (of_be os)) else None
      | None \<Rightarrow> (case read_ipv6_addr s of
          Some (gs, r) \<Rightarrow> if r = [] then Some (V6 (of_be (concat (map (to_be 2) gs)))) else None
        | None \<Rightarrow> None))"

section \<open>Stores of patterns\<close>

text \<open>
  A structure that patterns are added to and that is then asked whether an item matches one of
  them: the domain matchers and the address range sets have this contract.
\<close>

locale pattern_store =
  fixes empty :: 'm and add :: "'m \<Rightarrow> 'p \<Rightarrow> 'm" and inv :: "'m \<Rightarrow> bool"
    and hit :: "'m \<Rightarrow> 'q \<Rightarrow> bool" and denotes :: "'p \<Rightarrow> 'q \<Rightarrow> bool"
  assumes inv_empty: "inv empty"
    and inv_add: "inv m \<Longrightarrow> inv (add m p)"
    and hit_empty: "\<not> hit empty q"
    and hit_add: "inv m \<Longrightarrow> hit (add m p) q \<longleftrightarrow> hit m q \<or> denotes p q"
begin

lemma foldl_add: "inv m \<Longrightarrow> inv (foldl add m ps) \<and> (hit (foldl add m ps) q \<longleftrightarrow> hit m q \<or> (\<exists>p\<in>set ps. denotes p q))"
  by (induction ps arbitrary: m) (auto simp: inv_add hit_add)

lemma inv_all: "inv (foldl add empty ps)"
  using foldl_add inv_empty by blast

lemma hit_all: "hit (foldl add empty ps) q \<longleftrightarrow> (\<exists>p\<in>set ps. denotes p q)"
  using foldl_add [OF inv_empty] hit_empty by blast

end

section \<open>Facts\<close>

lemma split_on_nonempty: "split_on c s \<noteq> []"
  by (induction s) (auto split: list.splits)

lemma split_once_Some: "split_once c s = Some (l, r) \<longleftrightarrow> s = l @ c # r \<and> c \<notin> set l"
proof
  assume "split_once c s = Some (l, r)"
  then obtain x where x: "dropWhile (\<lambda>b. b \<noteq> c) s = x # r" "l = takeWhile (\<lambda>b. b \<noteq> c) s"
    by (auto simp: split_once_def split: list.splits)
  then have "x = c" by (simp add: dropWhile_eq_Cons_conv)
  with x show "s = l @ c # r \<and> c \<notin> set l"
    by (metis (full_types) set_takeWhileD takeWhile_dropWhile_id)
next
  assume s: "s = l @ c # r \<and> c \<notin> set l"
  then have "dropWhile (\<lambda>b. b \<noteq> c) s = c # r" "takeWhile (\<lambda>b. b \<noteq> c) s = l"
    by (auto simp: dropWhile_append takeWhile_append)
  then show "split_once c s = Some (l, r)" by (simp add: split_once_def)
qed

lemma trim_front_stop: "match_front ws s = 0 \<Longrightarrow> trim_front ws s = s"
  by (simp add: trim_front.simps)

lemma match_front_0: "[] \<notin> set ws \<Longrightarrow> match_front ws s = 0 \<longleftrightarrow> (\<forall>w\<in>set ws. take (length w) s \<noteq> w)"
  by (induction ws) auto

section \<open>Labels\<close>

lemma lowercase_dot [simp]: "to_ascii_lowercase b = 46 \<longleftrightarrow> b = 46"
proof (cases "65 \<le> b \<and> b \<le> 90")
  case True
  then have "65 \<le> b OR 0x20" using le_word_or2 [of b "0x20"] by (metis order.trans)
  then have "b OR 0x20 \<noteq> 46" by auto
  with True show ?thesis by (auto simp: to_ascii_lowercase_def)
next
  case False
  then show ?thesis by (auto simp: to_ascii_lowercase_def)
qed

lemma lowercase_has_dot [simp]: "46 \<in> to_ascii_lowercase ` S \<longleftrightarrow> 46 \<in> S"
  by (metis image_iff lowercase_dot)

lemma split_dots_no_dot: "46 \<notin> set s \<Longrightarrow> split_dots s = [s]"
  by (induction s) auto

lemma split_dots_append: "46 \<notin> set a \<Longrightarrow> split_dots (a @ 46 # b) = a # split_dots b"
  by (induction a) auto

lemma split_dots_cases:
  obtains (last) "46 \<notin> set s" "split_dots s = [s]"
  | (dot) a b where "s = a @ 46 # b" "46 \<notin> set a" "split_dots s = a # split_dots b"
proof (cases "46 \<in> set s")
  case True
  then obtain a b where "s = a @ 46 # b" "46 \<notin> set a" by (meson split_list_first)
  with dot show thesis by (simp add: split_dots_append)
next
  case False
  with last show thesis by (simp add: split_dots_no_dot)
qed

lemma split_dots_labels: "l \<in> set (split_dots s) \<Longrightarrow> 46 \<notin> set l"
  by (induction s arbitrary: l) (auto split: if_splits list.splits)

lemma split_join_dots:
  "ls \<noteq> [] \<Longrightarrow> \<forall>l\<in>set ls. 46 \<notin> set l \<Longrightarrow> split_dots (join_dots ls) = ls"
  by (induction ls rule: join_dots.induct) (auto simp: split_dots_no_dot split_dots_append)

lemma split_dots_inject: "split_dots s = split_dots t \<longleftrightarrow> s = t"
  by (metis join_split_dots)

lemma lowercase_split: "split_dots (lowercase s) = map lowercase (split_dots s)"
  by (induction s) (auto split: list.splits)

end
