(* ===== verification/Domain.thy ===== *)
theory Domain
  imports Rust_Text "HOL-Library.AList"
begin

text \<open>
  \<open>src/domain.rs\<close>: normalisation of domain names, the classification of patterns, and the matcher
  with its exact, suffix and regular-expression tiers. The \<open>regex\<close> crate is a parameter: a
  record of the operations the code calls. The lemmas read a name as its list of labels
  and say which names each kind of pattern matches.
\<close>

section \<open>Definitions\<close>

record 're regex_ops =
  rx_new :: "bytes \<Rightarrow> 're option"
  rx_escape :: "bytes \<Rightarrow> bytes"
  rx_is_match :: "'re \<Rightarrow> bytes \<Rightarrow> bool"

text \<open>The hash maps are association lists with distinct keys; their order is never observed.\<close>

record ('re, 'v) DomainMatcher =
  dm_full :: "(bytes \<times> 'v) list"
  dm_suffix :: "(bytes \<times> 'v) list"
  dm_regex :: "('re \<times> 'v) list"

definition dm_default :: "('re, 'v) DomainMatcher" where
  "dm_default = \<lparr>dm_full = [], dm_suffix = [], dm_regex = []\<rparr>"

definition insert_full :: "('re, 'v) DomainMatcher \<Rightarrow> bytes \<Rightarrow> 'v \<Rightarrow> ('re, 'v) DomainMatcher" where
  "insert_full m name v = m\<lparr>dm_full := AList.update name v (dm_full m)\<rparr>"

definition insert_suffix :: "('re, 'v) DomainMatcher \<Rightarrow> bytes \<Rightarrow> 'v \<Rightarrow> ('re, 'v) DomainMatcher" where
  "insert_suffix m name v = m\<lparr>dm_suffix := AList.update name v (dm_suffix m)\<rparr>"

definition insert_regex :: "('re, 'v) DomainMatcher \<Rightarrow> 're \<Rightarrow> 'v \<Rightarrow> ('re, 'v) DomainMatcher" where
  "insert_regex m re v = m\<lparr>dm_regex := dm_regex m @ [(re, v)]\<rparr>"

definition dm_is_empty :: "('re, 'v) DomainMatcher \<Rightarrow> bool" where
  "dm_is_empty m \<longleftrightarrow> dm_full m = [] \<and> dm_suffix m = [] \<and> dm_regex m = []"

definition dm_len :: "('re, 'v) DomainMatcher \<Rightarrow> nat" where
  "dm_len m = length (dm_full m) + length (dm_suffix m) + length (dm_regex m)"

text \<open>The walk over the segments of the name that start after a dot; \<open>s\<close> is \<open>&qname[idx..]\<close>.\<close>

function suffix_walk :: "(bytes \<times> 'v) list \<Rightarrow> bytes \<Rightarrow> 'v option" where
  "suffix_walk suffix s =
     (case map_of suffix s of
        Some v \<Rightarrow> Some v
      | None \<Rightarrow> (case split_once 46 s of None \<Rightarrow> None | Some (_, r) \<Rightarrow> suffix_walk suffix r))"
  by pat_completeness auto
termination
  by (relation "measure (\<lambda>(_, s). length s)") (auto simp: split_once_Some)

declare suffix_walk.simps [simp del]

definition lookup_specific :: "('re, 'v) DomainMatcher \<Rightarrow> bytes \<Rightarrow> 'v option" where
  "lookup_specific m qname =
     (case map_of (dm_full m) qname of
        Some v \<Rightarrow> Some v
      | None \<Rightarrow> if dm_suffix m = [] then None else suffix_walk (dm_suffix m) qname)"

fun fuzzy_loop :: "'re regex_ops \<Rightarrow> ('re \<times> 'v) list \<Rightarrow> bytes \<Rightarrow> 'v option" where
  "fuzzy_loop rx [] qname = None"
| "fuzzy_loop rx ((re, v) # rest) qname =
     (if rx_is_match rx re qname then Some v else fuzzy_loop rx rest qname)"

definition lookup_fuzzy :: "'re regex_ops \<Rightarrow> ('re, 'v) DomainMatcher \<Rightarrow> bytes \<Rightarrow> 'v option" where
  "lookup_fuzzy rx m qname = fuzzy_loop rx (dm_regex m) qname"

fun push_parts :: "'re regex_ops \<Rightarrow> nat \<Rightarrow> bytes list \<Rightarrow> bytes \<Rightarrow> bytes" where
  "push_parts rx i [] re = re"
| "push_parts rx i (part # parts) re =
     (let re = (if i > 0 then re @ [92, 46] else re);
          re = (if part = [42] then re @ str ''[^.]+'' else re @ rx_escape rx (lowercase part))
      in push_parts rx (i + 1) parts re)"

definition wildcard_domain_regex :: "'re regex_ops \<Rightarrow> bytes \<Rightarrow> 're option" where
  "wildcard_domain_regex rx pat =
     (if 42 \<notin> set pat then None
      else rx_new rx (push_parts rx 0 (split_dots pat) (str ''^'') @ str ''$''))"

datatype 're PatternKind = SuffixP bytes | FullP bytes | WildcardP 're | InvalidP

definition normalize_domain :: "bytes \<Rightarrow> bytes option" where
  "normalize_domain name =
     (let name = lowercase (trim_end_dots (trim name))
      in if name = [] \<or> 253 < length name \<or> list_ex (\<lambda>label. label = [] \<or> 63 < length label) (split_dots name)
         then None else Some name)"

definition classify_pattern :: "'re regex_ops \<Rightarrow> bytes \<Rightarrow> 're PatternKind" where
  "classify_pattern rx pat =
     (case strip_prefix (str ''+.'') pat of
        Some rest \<Rightarrow> (case normalize_domain rest of None \<Rightarrow> InvalidP | Some n \<Rightarrow> SuffixP n)
      | None \<Rightarrow>
          (case strip_prefix (str ''.'') pat of
             Some rest \<Rightarrow> (case normalize_domain rest of None \<Rightarrow> InvalidP | Some n \<Rightarrow> SuffixP n)
           | None \<Rightarrow>
               (case wildcard_domain_regex rx pat of
                  Some re \<Rightarrow> WildcardP re
                | None \<Rightarrow> (case normalize_domain pat of None \<Rightarrow> InvalidP | Some n \<Rightarrow> FullP n))))"

definition split_csv :: "bytes \<Rightarrow> bytes list" where
  "split_csv s = filter (\<lambda>t. t \<noteq> []) (map trim (split_on 44 s))"

section \<open>Suffixes\<close>

definition label_suffixes :: "bytes \<Rightarrow> bytes list" where
  "label_suffixes s = map (\<lambda>i. join_dots (drop i (split_dots s))) [0..<length (split_dots s)]"

lemma label_suffixes_last: "46 \<notin> set s \<Longrightarrow> label_suffixes s = [s]"
  by (simp add: label_suffixes_def split_dots_no_dot)

lemma label_suffixes_dot:
  assumes "46 \<notin> set a"
  shows "label_suffixes (a @ 46 # b) = (a @ 46 # b) # label_suffixes b"
proof -
  have "[0..<length (split_dots (a @ 46 # b))] = 0 # map Suc [0..<length (split_dots b)]"
    using assms by (simp add: split_dots_append upt_conv_Cons map_Suc_upt del: upt_Suc)
  moreover have "join_dots (split_dots (a @ 46 # b)) = a @ 46 # b" by (rule join_split_dots)
  ultimately show ?thesis using assms by (simp add: label_suffixes_def split_dots_append)
qed

lemma suffix_walk_find:
  "suffix_walk m s =
     (case find (\<lambda>t. map_of m t \<noteq> None) (label_suffixes s) of Some t \<Rightarrow> map_of m t | None \<Rightarrow> None)"
proof (induction s rule: length_induct)
  case (1 s)
  show ?case
  proof (cases s rule: split_dots_cases)
    case last
    then have "split_once 46 s = None"
      by (metis in_set_conv_decomp option.exhaust prod.exhaust split_once_Some)
    with last show ?thesis by (simp add: suffix_walk.simps [of m s] label_suffixes_last split: option.splits)
  next
    case (dot a b)
    then have "split_once 46 s = Some (a, b)" by (simp add: split_once_Some)
    with 1 [rule_format, of b] dot show ?thesis
      unfolding dot(1) suffix_walk.simps [of m "a @ 46 # b"] label_suffixes_dot [OF dot(2)]
      by (auto split: option.splits)
  qed
qed

lemma set_label_suffixes:
  "t \<in> set (label_suffixes s) \<longleftrightarrow> (\<exists>pre. split_dots s = pre @ split_dots t)"
proof
  assume "t \<in> set (label_suffixes s)"
  then obtain i where i: "i < length (split_dots s)" "t = join_dots (drop i (split_dots s))"
    by (auto simp: label_suffixes_def)
  then have "split_dots t = drop i (split_dots s)"
    using split_dots_labels by (auto intro!: split_join_dots dest: in_set_dropD)
  then show "\<exists>pre. split_dots s = pre @ split_dots t" by (metis append_take_drop_id)
next
  assume "\<exists>pre. split_dots s = pre @ split_dots t"
  then obtain pre where pre: "split_dots s = pre @ split_dots t" by blast
  then have "t = join_dots (drop (length pre) (split_dots s))" by (simp add: join_split_dots)
  moreover have "length pre < length (split_dots s)" using pre split_dots_nonempty [of t] by simp
  ultimately show "t \<in> set (label_suffixes s)" by (auto simp: label_suffixes_def)
qed

text \<open>\<open>sub_of s t\<close>: \<open>s\<close> is the domain \<open>t\<close> or lies below it.\<close>

definition sub_of :: "bytes \<Rightarrow> bytes \<Rightarrow> bool" where
  "sub_of s t \<longleftrightarrow> (\<exists>pre. split_dots s = pre @ split_dots t)"

lemma suffix_walk_hit: "suffix_walk m s \<noteq> None \<longleftrightarrow> (\<exists>t. map_of m t \<noteq> None \<and> sub_of s t)"
proof -
  have "suffix_walk m s \<noteq> None \<longleftrightarrow> (\<exists>t\<in>set (label_suffixes s). map_of m t \<noteq> None)"
    unfolding suffix_walk_find by (auto simp: find_None_iff find_Some_iff split: option.splits)
  then show ?thesis by (auto simp: set_label_suffixes sub_of_def)
qed

section \<open>Hits\<close>

definition dm_hit :: "'re regex_ops \<Rightarrow> ('re, 'v) DomainMatcher \<Rightarrow> bytes \<Rightarrow> bool" where
  "dm_hit rx m q \<longleftrightarrow> lookup_specific m q \<noteq> None \<or> lookup_fuzzy rx m q \<noteq> None"

lemma fuzzy_hit: "fuzzy_loop rx rs q \<noteq> None \<longleftrightarrow> (\<exists>(re, v)\<in>set rs. rx_is_match rx re q)"
  by (induction rx rs q rule: fuzzy_loop.induct) auto

lemma dm_hit_iff:
  "dm_hit rx m q \<longleftrightarrow> map_of (dm_full m) q \<noteq> None \<or> (\<exists>t. map_of (dm_suffix m) t \<noteq> None \<and> sub_of q t)
     \<or> (\<exists>(re, v)\<in>set (dm_regex m). rx_is_match rx re q)"
proof -
  have "lookup_specific m q \<noteq> None \<longleftrightarrow>
      map_of (dm_full m) q \<noteq> None \<or> (\<exists>t. map_of (dm_suffix m) t \<noteq> None \<and> sub_of q t)"
    using suffix_walk_hit [of "dm_suffix m" q] by (auto simp: lookup_specific_def split: option.splits)
  then show ?thesis unfolding dm_hit_def lookup_fuzzy_def fuzzy_hit by blast
qed

definition kind_hits :: "'re regex_ops \<Rightarrow> 're PatternKind \<Rightarrow> bytes \<Rightarrow> bool" where
  "kind_hits rx k q =
     (case k of SuffixP t \<Rightarrow> sub_of q t | FullP t \<Rightarrow> q = t | WildcardP re \<Rightarrow> rx_is_match rx re q
      | InvalidP \<Rightarrow> False)"

definition dm_add :: "('re, unit) DomainMatcher \<Rightarrow> 're PatternKind \<Rightarrow> ('re, unit) DomainMatcher" where
  "dm_add m k =
     (case k of SuffixP n \<Rightarrow> insert_suffix m n () | FullP n \<Rightarrow> insert_full m n ()
      | WildcardP re \<Rightarrow> insert_regex m re () | InvalidP \<Rightarrow> m)"

lemma update_hit:
  "(\<exists>t. map_of (AList.update n v xs) t \<noteq> None \<and> P t) \<longleftrightarrow> P n \<or> (\<exists>t. map_of xs t \<noteq> None \<and> P t)"
  unfolding update_conv' fun_upd_apply by (metis option.distinct(1))

lemma insert_sel:
  "dm_full (insert_full m n v) = AList.update n v (dm_full m)" "dm_suffix (insert_full m n v) = dm_suffix m"
  "dm_regex (insert_full m n v) = dm_regex m" "dm_full (insert_suffix m n v) = dm_full m"
  "dm_suffix (insert_suffix m n v) = AList.update n v (dm_suffix m)" "dm_regex (insert_suffix m n v) = dm_regex m"
  "dm_full (insert_regex m re v) = dm_full m" "dm_suffix (insert_regex m re v) = dm_suffix m"
  "dm_regex (insert_regex m re v) = dm_regex m @ [(re, v)]"
  by (simp_all add: insert_full_def insert_suffix_def insert_regex_def)

interpretation dm: pattern_store "dm_default :: ('re, unit) DomainMatcher" dm_add "\<lambda>_. True"
  "dm_hit rx" "kind_hits rx" for rx :: "'re regex_ops"
proof
  show "\<not> dm_hit rx dm_default q" for q
    by (simp add: dm_hit_iff dm_default_def)
  show "dm_hit rx (dm_add m k) q \<longleftrightarrow> dm_hit rx m q \<or> kind_hits rx k q" for m k q
    by (cases k; simp only: dm_hit_iff dm_add_def kind_hits_def PatternKind.case insert_sel update_hit)
      (auto simp: update_conv')
qed simp_all

section \<open>Wildcards\<close>

datatype rx_item = RxLit bytes | RxDot | RxLabel

fun rx_item_text :: "'re regex_ops \<Rightarrow> rx_item \<Rightarrow> bytes" where
  "rx_item_text rx (RxLit s) = rx_escape rx s"
| "rx_item_text rx RxDot = [92, 46]"
| "rx_item_text rx RxLabel = str ''[^.]+''"

text \<open>
  The language of a sequence of items: an escaped literal matches itself, an escaped dot
  matches a dot, and \<open>[^.]+\<close> matches one or more characters other than a dot.
\<close>

fun rx_lang :: "rx_item list \<Rightarrow> bytes \<Rightarrow> bool" where
  "rx_lang [] h \<longleftrightarrow> h = []"
| "rx_lang (RxLit s # is) h \<longleftrightarrow> (\<exists>r. h = s @ r \<and> rx_lang is r)"
| "rx_lang (RxDot # is) h \<longleftrightarrow> (\<exists>r. h = 46 # r \<and> rx_lang is r)"
| "rx_lang (RxLabel # is) h \<longleftrightarrow> (\<exists>l r. h = l @ r \<and> l \<noteq> [] \<and> 46 \<notin> set l \<and> rx_lang is r)"

text \<open>
  What the code relies on of the \<open>regex\<close> crate: a compiled expression anchored at both ends
  matches the strings in the language of its items.
\<close>

definition regex_laws :: "'re regex_ops \<Rightarrow> bool" where
  "regex_laws rx \<longleftrightarrow>
     (\<forall>is re h. rx_new rx (str ''^'' @ concat (map (rx_item_text rx) is) @ str ''$'') = Some re \<longrightarrow>
        rx_is_match rx re h = rx_lang is h)"

definition part_item :: "bytes \<Rightarrow> rx_item" where
  "part_item p = (if p = [42] then RxLabel else RxLit (lowercase p))"

fun dotted :: "rx_item list \<Rightarrow> rx_item list" where
  "dotted [] = []"
| "dotted [i] = [i]"
| "dotted (i # j # is) = i # RxDot # dotted (j # is)"

lemma push_parts_dotted:
  "push_parts rx i ps re =
     re @ (if i > 0 \<and> ps \<noteq> [] then [92, 46] else [])
        @ concat (map (rx_item_text rx) (dotted (map part_item ps)))"
proof (induction rx i ps re rule: push_parts.induct)
  case (2 rx i part parts re)
  then show ?case by (cases parts) (auto simp: Let_def part_item_def)
qed simp

text \<open>A wildcard pattern matches label by label; the label \<open>*\<close> stands for any label.\<close>

definition wildcard_match :: "bytes list \<Rightarrow> bytes list \<Rightarrow> bool" where
  "wildcard_match ps ls = list_all2 (\<lambda>p l. if p = [42] then l \<noteq> [] else l = lowercase p) ps ls"

lemma rx_lang_part:
  assumes "46 \<notin> set p"
  shows "rx_lang (part_item p # is) h \<longleftrightarrow>
    (\<exists>l r. h = l @ r \<and> 46 \<notin> set l \<and> (if p = [42] then l \<noteq> [] else l = lowercase p) \<and> rx_lang is r)"
  using assms by (auto simp: part_item_def)

lemma rx_lang_dotted:
  "ps \<noteq> [] \<Longrightarrow> \<forall>p\<in>set ps. 46 \<notin> set p \<Longrightarrow>
   rx_lang (dotted (map part_item ps)) h \<longleftrightarrow> wildcard_match ps (split_dots h)"
proof (induction ps arbitrary: h rule: induct_list012)
  case (2 p)
  show ?case
  proof (cases h rule: split_dots_cases)
    case last
    with 2 show ?thesis by (auto simp: rx_lang_part wildcard_match_def)
  next
    case (dot a b)
    with 2 show ?thesis using split_dots_nonempty [of b] by (auto simp: rx_lang_part wildcard_match_def)
  qed
next
  case (3 p p' ps)
  then have IH: "rx_lang (dotted (map part_item (p' # ps))) r \<longleftrightarrow> wildcard_match (p' # ps) (split_dots r)" for r
    by simp
  have step: "rx_lang (dotted (map part_item (p # p' # ps))) h \<longleftrightarrow>
     (\<exists>l r. h = l @ 46 # r \<and> 46 \<notin> set l \<and> (if p = [42] then l \<noteq> [] else l = lowercase p) \<and>
        wildcard_match (p' # ps) (split_dots r))"
  proof -
    have "dotted (map part_item (p # p' # ps)) = part_item p # RxDot # dotted (map part_item (p' # ps))" by simp
    moreover have p: "46 \<notin> set p" using 3 by simp
    ultimately show ?thesis by (simp only: rx_lang_part [OF p] rx_lang.simps IH) blast
  qed
  show ?case
  proof (cases h rule: split_dots_cases)
    case last
    with step show ?thesis by (auto simp: wildcard_match_def)
  next
    case (dot a b)
    then have "(\<exists>l r. h = l @ 46 # r \<and> 46 \<notin> set l \<and> Q l r) \<longleftrightarrow> Q a b" for Q
      by (metis option.inject prod.inject split_once_Some)
    with step dot show ?thesis by (auto simp: wildcard_match_def)
  qed
qed simp

lemma wildcard_regex_match:
  assumes "regex_laws rx" and "wildcard_domain_regex rx pat = Some re"
  shows "rx_is_match rx re h \<longleftrightarrow> wildcard_match (split_dots pat) (split_dots h)"
proof -
  have "rx_new rx (str ''^'' @ concat (map (rx_item_text rx) (dotted (map part_item (split_dots pat)))) @ str ''$'')
      = Some re"
    using assms(2) by (simp add: wildcard_domain_regex_def push_parts_dotted split: if_splits)
  then have "rx_is_match rx re h \<longleftrightarrow> rx_lang (dotted (map part_item (split_dots pat))) h"
    using assms(1) unfolding regex_laws_def by blast
  then show ?thesis
    using rx_lang_dotted [of "split_dots pat" h] split_dots_nonempty [of pat] split_dots_labels by blast
qed

section \<open>A regular-expression engine for these patterns\<close>

text \<open>A small matcher for the fragment the code uses; it shows that the laws can hold.\<close>

datatype rx_token = TByte u8 | TLabel

function rx_parse :: "bytes \<Rightarrow> rx_token list option" where
  "rx_parse [] = None"
| "rx_parse (c # r) =
     (if c = 36 \<and> r = [] then Some []
      else if c = 92 then (case r of [] \<Rightarrow> None | b # r' \<Rightarrow> map_option (Cons (TByte b)) (rx_parse r'))
      else if c = 91 \<and> take 4 r = [94, 46, 93, 43] then map_option (Cons TLabel) (rx_parse (drop 4 r))
      else None)"
  by pat_completeness auto
termination
  by (relation "measure length") auto

fun tok_match :: "rx_token list \<Rightarrow> bytes \<Rightarrow> bool" where
  "tok_match [] h \<longleftrightarrow> h = []"
| "tok_match (TByte b # ts) [] \<longleftrightarrow> False"
| "tok_match (TByte b # ts) (c # r) \<longleftrightarrow> c = b \<and> tok_match ts r"
| "tok_match (TLabel # ts) [] \<longleftrightarrow> False"
| "tok_match (TLabel # ts) (c # r) \<longleftrightarrow> c \<noteq> 46 \<and> (tok_match ts r \<or> tok_match (TLabel # ts) r)"

definition label_regex :: "rx_token list regex_ops" where
  "label_regex = \<lparr>rx_new = (\<lambda>t. if t \<noteq> [] \<and> hd t = 94 then rx_parse (tl t) else None),
     rx_escape = (\<lambda>s. concat (map (\<lambda>b. [92, b]) s)), rx_is_match = tok_match\<rparr>"

fun item_tokens :: "rx_item \<Rightarrow> rx_token list" where
  "item_tokens (RxLit s) = map TByte s"
| "item_tokens RxDot = [TByte 46]"
| "item_tokens RxLabel = [TLabel]"

lemma rx_parse_escape: "rx_parse (concat (map (\<lambda>b. [92, b]) s) @ r) = map_option (append (map TByte s)) (rx_parse r)"
  by (induction s) (auto simp: option.map_comp option.map_id0 comp_def option.map_ident)

lemma rx_parse_item:
  "rx_parse (rx_item_text label_regex i @ r) = map_option (append (item_tokens i)) (rx_parse r)"
  by (cases i; cases "rx_parse r") (simp_all add: label_regex_def rx_parse_escape str_def)

lemma rx_parse_items:
  "rx_parse (concat (map (rx_item_text label_regex) is) @ [36]) = Some (concat (map item_tokens is))"
  by (induction "is") (simp_all add: rx_parse_item)

lemma tok_match_label:
  "tok_match (TLabel # ts) h \<longleftrightarrow> (\<exists>l r. h = l @ r \<and> l \<noteq> [] \<and> 46 \<notin> set l \<and> tok_match ts r)"
proof (induction h)
  case (Cons c h)
  have "(\<exists>l r. c # h = l @ r \<and> l \<noteq> [] \<and> 46 \<notin> set l \<and> tok_match ts r) \<longleftrightarrow>
      c \<noteq> 46 \<and> (tok_match ts h \<or> (\<exists>l r. h = l @ r \<and> l \<noteq> [] \<and> 46 \<notin> set l \<and> tok_match ts r))"
    (is "?L \<longleftrightarrow> c \<noteq> 46 \<and> (_ \<or> ?R)")
  proof
    assume "c \<noteq> 46 \<and> (tok_match ts h \<or> ?R)"
    then consider "c \<noteq> 46" "tok_match ts h"
      | l r where "c \<noteq> 46" "h = l @ r" "46 \<notin> set l" "tok_match ts r" by blast
    then show ?L
    proof cases
      case 1
      then show ?thesis by (intro exI [of _ "[c]"] exI [of _ h]) simp
    next
      case (2 l r)
      then show ?thesis by (intro exI [of _ "c # l"] exI [of _ r]) simp
    qed
  next
    assume ?L
    then obtain l r where "h = l @ r" "c \<noteq> 46" "46 \<notin> set l" "tok_match ts r"
      by (auto simp: Cons_eq_append_conv)
    then show "c \<noteq> 46 \<and> (tok_match ts h \<or> ?R)" by (cases "l = []") auto
  qed
  with Cons show ?case by simp
qed simp

lemma tok_match_bytes: "tok_match (map TByte s @ ts) h \<longleftrightarrow> (\<exists>r. h = s @ r \<and> tok_match ts r)"
proof (induction s arbitrary: h)
  case (Cons b s)
  then show ?case by (cases h) auto
qed simp

lemma tok_match_items: "tok_match (concat (map item_tokens is)) h \<longleftrightarrow> rx_lang is h"
proof (induction "is" arbitrary: h)
  case (Cons i "is")
  then show ?case
    using tok_match_bytes [of "[46]" "concat (map item_tokens is)" h]
    by (cases i) (auto simp: tok_match_bytes tok_match_label)
qed simp

lemma label_regex_laws: "regex_laws label_regex"
proof -
  have "rx_new label_regex (str ''^'' @ concat (map (rx_item_text label_regex) is) @ str ''$'') =
      Some (concat (map item_tokens is))" for "is"
    using rx_parse_items [of "is"] by (simp add: label_regex_def str_def)
  then show ?thesis by (simp add: regex_laws_def label_regex_def tok_match_items)
qed

end
