(* ===== verification/Iprange.thy ===== *)
theory Iprange
  imports Rust_Text "HOL-Library.Multiset"
begin

text \<open>
  \<open>src/iprange.rs\<close>: the set of address ranges of an \<open>ipcidr\<close> rule-set. A builder collects
  ranges in any order, \<open>build\<close> sorts and merges them, and \<open>contains\<close> finds an address by a
  binary search. The lemmas give the meaning of a set as the addresses it covers, show that the
  merged form is canonical, and that a CIDR line denotes the addresses with its prefix.
\<close>

section \<open>Definitions\<close>

record IpRangeSet =
  ir_ranges :: "(u128 \<times> u128) list"

record IpRangeSetBuilder =
  ib_ranges :: "(u128 \<times> u128) list"

text \<open>An IPv4 address becomes its IPv4-mapped IPv6 address.\<close>

fun to_u128 :: "IpAddr \<Rightarrow> u128" where
  "to_u128 (V4 v4) = 0xffff00000000 OR ucast v4"
| "to_u128 (V6 v6) = v6"

definition contains :: "IpRangeSet \<Rightarrow> IpAddr \<Rightarrow> bool" where
  "contains s ip =
     (let v = to_u128 ip; i = partition_point (\<lambda>(from, _). from \<le> v) (ir_ranges s)
      in i > 0 \<and> v \<le> snd (ir_ranges s ! (i - 1)))"

definition ir_len :: "IpRangeSet \<Rightarrow> nat" where
  "ir_len s = length (ir_ranges s)"

definition ir_is_empty :: "IpRangeSet \<Rightarrow> bool" where
  "ir_is_empty s \<longleftrightarrow> ir_ranges s = []"

definition builder_default :: IpRangeSetBuilder where
  "builder_default = \<lparr>ib_ranges = []\<rparr>"

definition push_range :: "IpRangeSetBuilder \<Rightarrow> u128 \<Rightarrow> u128 \<Rightarrow> IpRangeSetBuilder" where
  "push_range b from to = (if from \<le> to then b\<lparr>ib_ranges := ib_ranges b @ [(from, to)]\<rparr> else b)"

definition parse_cidr_range :: "bytes \<Rightarrow> (u128 \<times> u128) res" where
  "parse_cidr_range line =
     (let (addr, prefix) = (case split_once 47 line of Some (a, p) \<Rightarrow> (a, Some p) | None \<Rightarrow> (line, None))
      in case parse_ip_addr addr of
           None \<Rightarrow> Inl ''not an IP address''
         | Some ip \<Rightarrow>
             (let family_bits = (case ip of V4 _ \<Rightarrow> 32 | V6 _ \<Rightarrow> 128)
              in case (case prefix of Some p \<Rightarrow> parse_uint 32 p | None \<Rightarrow> Some family_bits) of
                   None \<Rightarrow> Inl ''not a valid prefix length''
                 | Some prefix_len \<Rightarrow>
                     if family_bits < prefix_len then Inl ''prefix length exceeds the address family''
                     else
                       let base = to_u128 ip;
                           host_bits = family_bits - prefix_len;
                           mask = (if 128 \<le> host_bits then 0 else push_bit host_bits (- 1))
                       in Inr (base AND mask, base OR NOT mask)))"

text \<open>A code equation that avoids the shift of an all-ones word.\<close>

lemma high_mask: "push_bit h (- 1) = NOT (mask h :: 'w::len word)"
  by (rule bit_word_eqI) (auto simp: bit_simps)

lemma parse_cidr_range_code [code]:
  "parse_cidr_range line =
     (let (addr, prefix) = (case split_once 47 line of Some (a, p) \<Rightarrow> (a, Some p) | None \<Rightarrow> (line, None))
      in case parse_ip_addr addr of
           None \<Rightarrow> Inl ''not an IP address''
         | Some ip \<Rightarrow>
             (let family_bits = (case ip of V4 _ \<Rightarrow> 32 | V6 _ \<Rightarrow> 128)
              in case (case prefix of Some p \<Rightarrow> parse_uint 32 p | None \<Rightarrow> Some family_bits) of
                   None \<Rightarrow> Inl ''not a valid prefix length''
                 | Some prefix_len \<Rightarrow>
                     if family_bits < prefix_len then Inl ''prefix length exceeds the address family''
                     else
                       let base = to_u128 ip;
                           host_bits = family_bits - prefix_len;
                           low = (if 128 \<le> host_bits then - 1 else mask host_bits)
                       in Inr (base AND NOT low, base OR low)))"
  unfolding parse_cidr_range_def Let_def
  by (auto simp: high_mask split: option.splits prod.splits)

definition push_cidr_line :: "IpRangeSetBuilder \<Rightarrow> bytes \<Rightarrow> IpRangeSetBuilder res" where
  "push_cidr_line b line =
     (case parse_cidr_range line of Inl e \<Rightarrow> Inl e | Inr (from, to) \<Rightarrow> Inr (push_range b from to))"

fun merge_loop :: "(u128 \<times> u128) list \<Rightarrow> (u128 \<times> u128) list \<Rightarrow> (u128 \<times> u128) list" where
  "merge_loop merged [] = merged"
| "merge_loop merged ((from, to) # rest) =
     (if merged \<noteq> [] \<and> from \<le> saturating_add (snd (last merged)) 1
      then merge_loop
             (if snd (last merged) < to then butlast merged @ [(fst (last merged), to)] else merged) rest
      else merge_loop (merged @ [(from, to)]) rest)"

text \<open>
  The sort is unstable: any order of ranges with the same start is allowed. The model takes the
  stable one; \<open>merge_canonical\<close> below shows that the choice does not matter.
\<close>

definition ip_build :: "IpRangeSetBuilder \<Rightarrow> IpRangeSet" where
  "ip_build b = \<lparr>ir_ranges = merge_loop [] (sort_key fst (ib_ranges b))\<rparr>"

section \<open>Covered addresses\<close>

definition covered :: "(u128 \<times> u128) list \<Rightarrow> nat set" where
  "covered rs = (\<Union>(f, t)\<in>set rs. {unat f..unat t})"

definition gap :: "u128 \<times> u128 \<Rightarrow> u128 \<times> u128 \<Rightarrow> bool" where
  "gap r s \<longleftrightarrow> unat (snd r) + 1 < unat (fst s)"

definition wf_ranges :: "(u128 \<times> u128) list \<Rightarrow> bool" where
  "wf_ranges rs \<longleftrightarrow> list_all (\<lambda>(f, t). f \<le> t) rs \<and> sorted_wrt gap rs"

lemma covered_simps [simp]:
  "covered [] = {}" "covered (r # rs) = {unat (fst r)..unat (snd r)} \<union> covered rs"
  "covered (rs @ ss) = covered rs \<union> covered ss"
  by (auto simp: covered_def split: prod.splits)

lemma covered_iff: "n \<in> covered rs \<longleftrightarrow> (\<exists>f t. (f, t) \<in> set rs \<and> unat f \<le> n \<and> n \<le> unat t)"
  by (force simp: covered_def)

lemma covered_mset: "mset xs = mset ys \<Longrightarrow> covered xs = covered ys"
  by (metis covered_def mset_eq_setD)

lemma wf_ranges_Nil [simp]: "wf_ranges []"
  by (simp add: wf_ranges_def)

lemma wf_ranges_Cons:
  "wf_ranges (r # rs) \<longleftrightarrow> fst r \<le> snd r \<and> (\<forall>n\<in>covered rs. unat (snd r) + 1 < n) \<and> wf_ranges rs"
proof -
  have "(\<forall>s\<in>set rs. gap r s) \<longleftrightarrow> (\<forall>n\<in>covered rs. unat (snd r) + 1 < n)" if "list_all (\<lambda>(f, t). f \<le> t) rs"
    using that by (induction rs) (fastforce simp: gap_def word_le_nat_alt)+
  then show ?thesis by (auto simp: wf_ranges_def split: prod.splits)
qed

lemma wf_ranges_snoc:
  "wf_ranges (rs @ [r]) \<longleftrightarrow> wf_ranges rs \<and> fst r \<le> snd r \<and> (\<forall>s\<in>set rs. gap s r)"
  by (auto simp: wf_ranges_def sorted_wrt_append split: prod.splits)

lemma merge_loop_wf:
  assumes "wf_ranges merged" and "list_all (\<lambda>(f, t). f \<le> t) xs" and "sorted (map fst xs)"
    and "\<forall>m\<in>set merged. \<forall>x\<in>set xs. fst m \<le> fst x"
  shows "wf_ranges (merge_loop merged xs) \<and> covered (merge_loop merged xs) = covered merged \<union> covered xs"
  using assms
proof (induction merged xs rule: merge_loop.induct)
  case (2 merged a c rest)
  show ?case
  proof (cases "merged \<noteq> [] \<and> a \<le> saturating_add (snd (last merged)) 1")
    case True
    then obtain ms f t where m: "merged = ms @ [(f, t)]" by (cases merged rule: rev_cases) auto
    let ?m = "if t < c then ms @ [(f, c)] else merged"
    have ft: "f \<le> a" "a \<le> c" "unat a \<le> unat t + 1" "f \<le> t"
      using 2(3-6) True m by (auto simp: le_saturating_add_1 wf_ranges_snoc)
    have wf: "wf_ranges ?m" using 2(3) ft m by (auto simp: wf_ranges_snoc gap_def)
    have "covered ?m = covered merged \<union> {unat a..unat c}"
      using ft m by (auto simp: word_le_nat_alt word_less_nat_alt)
    moreover have "\<forall>m\<in>set ?m. \<forall>x\<in>set rest. fst m \<le> fst x"
      using 2(6) m by (auto split: if_splits)
    moreover have "(if snd (last merged) < c then butlast merged @ [(fst (last merged), c)] else merged) = ?m"
      using m by simp
    ultimately show ?thesis
      using 2(1) [OF True] wf 2(4,5) True by (simp only: merge_loop.simps) (simp add: Un_assoc)
  next
    case False
    have "gap s (a, c)" if s: "s \<in> set merged" for s
    proof -
      from False s have nz: "merged \<noteq> []" and l: "unat (snd (last merged)) + 1 < unat a"
        by (auto simp: le_saturating_add_1)
      then obtain ms m where m: "merged = ms @ [m]" by (cases merged rule: rev_cases) auto
      have "unat (snd s) \<le> unat (snd m)"
        using s 2(3) m by (auto simp: wf_ranges_snoc gap_def word_le_nat_alt)
      with l m show ?thesis by (simp add: gap_def)
    qed
    then have "wf_ranges (merged @ [(a, c)])" using 2(3,4) by (simp add: wf_ranges_snoc)
    moreover have "\<forall>m\<in>set (merged @ [(a, c)]). \<forall>x\<in>set rest. fst m \<le> fst x"
      using 2(5,6) by auto
    moreover have "merge_loop merged ((a, c) # rest) = merge_loop (merged @ [(a, c)]) rest"
      using False by auto
    ultimately show ?thesis using 2(2) [OF False] 2(4,5) by (simp only:) (simp add: Un_assoc)
  qed
qed simp

lemma wf_ranges_unique:
  "wf_ranges rs \<Longrightarrow> wf_ranges ss \<Longrightarrow> covered rs = covered ss \<Longrightarrow> rs = ss"
proof (induction rs arbitrary: ss)
  case Nil
  then show ?case by (cases ss) (auto simp: wf_ranges_Cons word_le_nat_alt)
next
  case (Cons r rs)
  from Cons.prems obtain s ss' where ss: "ss = s # ss'"
    by (cases ss) (auto simp: wf_ranges_Cons word_le_nat_alt)
  have r: "unat (fst r) \<le> unat (snd r)" "\<And>n. n \<in> covered rs \<Longrightarrow> unat (snd r) + 1 < n"
    and s: "unat (fst s) \<le> unat (snd s)" "\<And>n. n \<in> covered ss' \<Longrightarrow> unat (snd s) + 1 < n"
    using Cons.prems ss by (auto simp: wf_ranges_Cons word_le_nat_alt)
  have mem: "n \<in> {unat (fst r)..unat (snd r)} \<union> covered rs \<longleftrightarrow> n \<in> {unat (fst s)..unat (snd s)} \<union> covered ss'" for n
    using Cons.prems(3) ss by simp
  have lo: "unat (fst r) = unat (fst s)"
    using mem [of "unat (fst r)"] mem [of "unat (fst s)"] r s by fastforce
  have hi: "unat (snd r) = unat (snd s)"
    using mem [of "unat (snd r) + 1"] mem [of "unat (snd s) + 1"] r s lo by fastforce
  have "n \<in> covered rs \<longleftrightarrow> n \<in> covered ss'" for n
    using mem [of n] lo hi r(2) [of n] s(2) [of n] by auto
  then have "covered rs = covered ss'" by blast
  with Cons ss have "rs = ss'" by (simp add: wf_ranges_Cons)
  with lo hi ss show ?case by (simp add: prod_eq_iff word_unat_eq_iff)
qed

lemma merge_sorted:
  assumes "list_all (\<lambda>(f, t). f \<le> t) xs" and "sorted (map fst xs)"
  shows "wf_ranges (merge_loop [] xs)" "covered (merge_loop [] xs) = covered xs"
  using merge_loop_wf [of "[]" xs] assms by simp_all

lemma merge_canonical:
  assumes "mset xs = mset (ib_ranges b)" and "sorted (map fst xs)" and "list_all (\<lambda>(f, t). f \<le> t) xs"
  shows "merge_loop [] xs = ir_ranges (ip_build b)"
proof -
  let ?ys = "sort_key fst (ib_ranges b)"
  have eq: "mset ?ys = mset xs" using assms(1) by simp
  have "list_all (\<lambda>(f, t). f \<le> t) ?ys"
    using assms(3) mset_eq_setD [OF eq] by (simp add: list_all_iff)
  note ys = merge_sorted [OF this sorted_sort_key] and xs = merge_sorted [OF assms(3,2)]
  have "merge_loop [] xs = merge_loop [] ?ys"
    using xs ys covered_mset [OF eq] by (intro wf_ranges_unique) simp_all
  then show ?thesis by (simp add: ip_build_def)
qed

lemma contains_covered:
  assumes "wf_ranges (ir_ranges s)"
  shows "contains s ip \<longleftrightarrow> unat (to_u128 ip) \<in> covered (ir_ranges s)"
proof -
  let ?v = "to_u128 ip"
  have "(let i = partition_point (\<lambda>(from, _). from \<le> ?v) rs in i > 0 \<and> ?v \<le> snd (rs ! (i - 1)))
      \<longleftrightarrow> unat ?v \<in> covered rs" if "wf_ranges rs" for rs
    using that
  proof (induction rs)
    case Nil
    then show ?case by (simp add: partition_point_def)
  next
    case (Cons r rs)
    let ?i = "partition_point (\<lambda>(from, _). from \<le> ?v) rs"
    have w: "wf_ranges rs" "\<And>n. n \<in> covered rs \<Longrightarrow> unat (snd r) + 1 < n" "unat (fst r) \<le> unat (snd r)"
      using Cons.prems by (auto simp: wf_ranges_Cons word_le_nat_alt)
    show ?case
    proof (cases "fst r \<le> ?v")
      case True
      then have pp: "partition_point (\<lambda>(from, _). from \<le> ?v) (r # rs) = Suc ?i"
        by (cases r) (simp add: partition_point_def)
      show ?thesis
      proof (cases "?i = 0")
        case True
        then have "unat ?v \<notin> covered rs" using Cons.IH [OF w(1)] by simp
        with True \<open>fst r \<le> ?v\<close> pp show ?thesis by (simp add: word_le_nat_alt)
      next
        case False
        then have "rs \<noteq> []" "fst (hd rs) \<le> ?v"
          by (cases rs; auto simp: partition_point_def split: if_splits)+
        then have "unat (snd r) < unat ?v"
          using Cons.prems by (cases rs) (auto simp: wf_ranges_def gap_def word_le_nat_alt)
        with False pp Cons.IH [OF w(1)] show ?thesis by (simp add: Let_def nth_Cons')
      qed
    next
      case False
      then have "partition_point (\<lambda>(from, _). from \<le> ?v) (r # rs) = 0"
        by (cases r) (simp add: partition_point_def)
      moreover have "unat ?v \<notin> covered (r # rs)"
        using False w by (fastforce simp: word_le_nat_alt)
      ultimately show ?thesis by simp
    qed
  qed
  from this [OF assms] show ?thesis by (simp add: contains_def Let_def)
qed

section \<open>Prefixes\<close>

lemma and_high_mask: "w AND push_bit h (- 1) = push_bit h (drop_bit h w)" for w :: "'w::len word"
  by (rule bit_word_eqI) (auto simp: bit_simps)

lemma or_low_mask: "w OR NOT (push_bit h (- 1)) = push_bit h (drop_bit h w) OR mask h" for w :: "'w::len word"
  by (rule bit_word_eqI) (auto simp: bit_simps)

lemma unat_drop: "unat (drop_bit h w) = unat w div 2 ^ h" for w :: "'w::len word"
proof -
  have "unat (drop_bit h w) = drop_bit h (unat w)"
    by (simp add: unsigned_drop_bit_eq take_bit_nat_eq_self [OF unat_bound])
  then show ?thesis by (simp add: drop_bit_eq_div)
qed

lemma unat_push_drop: "unat (push_bit h (drop_bit h w)) = unat w div 2 ^ h * 2 ^ h" for w :: "'w::len word"
proof -
  have "unat w div 2 ^ h * 2 ^ h \<le> unat w" by (rule div_times_less_eq_dividend)
  also have "\<dots> < 2 ^ LENGTH('w)" by (rule unat_bound)
  finally have "take_bit LENGTH('w) (unat w div 2 ^ h * 2 ^ h) = unat w div 2 ^ h * 2 ^ h"
    by (rule take_bit_nat_eq_self)
  then show ?thesis unfolding unsigned_push_bit_eq unat_drop push_bit_eq_mult [where 'a = nat] .
qed

lemma unat_push_drop_mask:
  fixes w :: "'w::len word"
  assumes "h < LENGTH('w)"
  shows "unat (push_bit h (drop_bit h w) OR mask h) = unat w div 2 ^ h * 2 ^ h + (2 ^ h - 1)"
proof -
  have "push_bit h (drop_bit h w) AND mask h = 0"
    by (rule bit_word_eqI) (auto simp: bit_simps)
  then have "unat (push_bit h (drop_bit h w)) AND unat (mask h :: 'w word) = 0"
    by (metis unsigned_and_eq unsigned_0)
  then have "unat (push_bit h (drop_bit h w)) OR unat (mask h :: 'w word) =
      unat (push_bit h (drop_bit h w)) + unat (mask h :: 'w word)"
    by (rule disjunctive_add_eq_or [symmetric])
  moreover have "unat (mask h :: 'w word) = mask h"
    using assms by (intro bit_eqI) (auto simp: bit_simps)
  ultimately show ?thesis by (simp only: unsigned_or_eq unat_push_drop mask_eq_exp_minus_1)
qed

lemma div_between: "0 < (q :: nat) \<Longrightarrow> n div q = k \<longleftrightarrow> k * q \<le> n \<and> n \<le> k * q + (q - 1)"
  using less_eq_div_iff_mult_less_eq [of q k n] div_less_iff_less_mult [of q n "Suc k"] by auto

text \<open>An address lies between the ends of a CIDR range exactly when it has its prefix.\<close>

lemma between_prefix:
  fixes v w :: u128
  assumes "h < 128"
  shows "w AND push_bit h (- 1) \<le> v \<and> v \<le> w OR NOT (push_bit h (- 1)) \<longleftrightarrow> drop_bit h v = drop_bit h w"
proof -
  have "drop_bit h v = drop_bit h w \<longleftrightarrow> unat v div 2 ^ h = unat w div 2 ^ h"
    unfolding word_unat_eq_iff unat_drop ..
  also have "\<dots> \<longleftrightarrow> unat w div 2 ^ h * 2 ^ h \<le> unat v \<and> unat v \<le> unat w div 2 ^ h * 2 ^ h + (2 ^ h - 1)"
    by (rule div_between) simp
  finally show ?thesis
    using assms unfolding and_high_mask or_low_mask word_le_nat_alt unat_push_drop
    by (subst unat_push_drop_mask) simp_all
qed

fun family_bits :: "IpAddr \<Rightarrow> nat" where
  "family_bits (V4 _) = 32"
| "family_bits (V6 _) = 128"

text \<open>The address and the prefix length that a line denotes.\<close>

definition cidr_of :: "bytes \<Rightarrow> (IpAddr \<times> nat) option" where
  "cidr_of line = do {
     let (addr, prefix) = (case split_once 47 line of Some (a, p) \<Rightarrow> (a, Some p) | None \<Rightarrow> (line, None));
     ip \<leftarrow> parse_ip_addr addr;
     n \<leftarrow> (case prefix of Some p \<Rightarrow> parse_uint 32 p | None \<Rightarrow> Some (family_bits ip));
     if n \<le> family_bits ip then Some (ip, n) else None }"

definition in_prefix :: "IpAddr \<times> nat \<Rightarrow> u128 \<Rightarrow> bool" where
  "in_prefix c v \<longleftrightarrow>
     (let h = family_bits (fst c) - snd c in drop_bit h v = drop_bit h (to_u128 (fst c)))"

definition cidr_range :: "IpAddr \<times> nat \<Rightarrow> u128 \<times> u128" where
  "cidr_range c =
     (let h = family_bits (fst c) - snd c; m = (if 128 \<le> h then 0 else push_bit h (- 1))
      in (to_u128 (fst c) AND m, to_u128 (fst c) OR NOT m))"

lemma parse_cidr_range_eq:
  "case cidr_of line of
     None \<Rightarrow> \<exists>e. parse_cidr_range line = Inl e
   | Some c \<Rightarrow> parse_cidr_range line = Inr (cidr_range c)"
  by (auto simp: cidr_of_def parse_cidr_range_def cidr_range_def Let_def bind_eq_Some_conv
      split: option.splits prod.splits if_splits IpAddr.splits)

lemma cidr_range_prefix:
  "fst (cidr_range c) \<le> v \<and> v \<le> snd (cidr_range c) \<longleftrightarrow> in_prefix c v"
proof (cases "128 \<le> family_bits (fst c) - snd c")
  case True
  then have "drop_bit (family_bits (fst c) - snd c) w = 0" for w :: u128
    by (intro bit_word_eqI) (auto simp: bit_simps dest: bit_imp_le_length)
  with True show ?thesis by (simp add: cidr_range_def in_prefix_def Let_def)
next
  case False
  then show ?thesis
    using between_prefix [of "family_bits (fst c) - snd c" "to_u128 (fst c)" v]
    by (simp add: cidr_range_def in_prefix_def Let_def)
qed

lemma cidr_range_le: "fst (cidr_range c) \<le> snd (cidr_range c)"
  using cidr_range_prefix [of c "to_u128 (fst c)"] by (auto simp: in_prefix_def)

section \<open>Building\<close>

lemma image_singletonI: "(\<And>y. y \<in> S \<Longrightarrow> f y = c) \<Longrightarrow> x \<in> S \<Longrightarrow> f ` S = {c}"
  by auto

definition push_all :: "IpRangeSetBuilder \<Rightarrow> (u128 \<times> u128) list \<Rightarrow> IpRangeSetBuilder" where
  "push_all b rs = foldl (\<lambda>b (f, t). push_range b f t) b rs"

lemma push_all_ranges: "ib_ranges (push_all b rs) = ib_ranges b @ filter (\<lambda>(f, t). f \<le> t) rs"
  by (induction rs arbitrary: b) (auto simp: push_all_def push_range_def split: prod.splits)

lemma build_covers:
  assumes "list_all (\<lambda>(f, t). f \<le> t) (ib_ranges b)"
  shows "wf_ranges (ir_ranges (ip_build b))"
    "contains (ip_build b) ip \<longleftrightarrow> (\<exists>f t. (f, t) \<in> set (ib_ranges b) \<and> f \<le> to_u128 ip \<and> to_u128 ip \<le> t)"
proof -
  let ?ys = "sort_key fst (ib_ranges b)"
  have "list_all (\<lambda>(f, t). f \<le> t) ?ys" using assms by (simp add: list_all_iff)
  note ys = merge_sorted [OF this sorted_sort_key]
  then show wf: "wf_ranges (ir_ranges (ip_build b))" by (simp add: ip_build_def)
  have "covered (ir_ranges (ip_build b)) = covered (ib_ranges b)"
    using ys covered_mset [of ?ys "ib_ranges b"] by (simp add: ip_build_def)
  then show "contains (ip_build b) ip \<longleftrightarrow>
      (\<exists>f t. (f, t) \<in> set (ib_ranges b) \<and> f \<le> to_u128 ip \<and> to_u128 ip \<le> t)"
    using contains_covered [OF wf, of ip] by (simp add: covered_iff word_le_nat_alt)
qed

interpretation ipr: pattern_store builder_default "\<lambda>b (f, t). push_range b f t"
  "\<lambda>b. list_all (\<lambda>(f, t). f \<le> t) (ib_ranges b)" "\<lambda>b ip. contains (ip_build b) ip"
  "\<lambda>(f, t) ip. f \<le> to_u128 ip \<and> to_u128 ip \<le> t"
proof (unfold_locales, goal_cases)
  case (2 b r)
  then show ?case by (cases r) (simp add: push_range_def)
next
  case (3 ip)
  then show ?case by (subst build_covers(2)) (simp_all add: builder_default_def)
next
  case (4 b r ip)
  obtain f t where r: "r = (f, t)" by (cases r)
  have "list_all (\<lambda>(f, t). f \<le> t) (ib_ranges (push_range b f t))" using 4 by (simp add: push_range_def)
  from build_covers(2) [OF this] build_covers(2) [OF 4] show ?case
    by (auto simp: r push_range_def)
qed (simp add: builder_default_def)

section \<open>Properties\<close>

text \<open>
  (C36) The compiled range set: whatever ranges were pushed, in any order and overlapping, the
  compiled list is sorted, disjoint and without adjacent ranges, the binary search finds exactly the
  addresses that some pushed range covers, and the compiled list does not depend on how the
  unstable sort orders ranges with the same start.
\<close>

theorem ip_range_set_exact:
  fixes rs
  defines "b \<equiv> push_all builder_default rs"
  shows "wf_ranges (ir_ranges (ip_build b)) \<and>
    (\<forall>ip. contains (ip_build b) ip \<longleftrightarrow> (\<exists>f t. (f, t) \<in> set rs \<and> f \<le> to_u128 ip \<and> to_u128 ip \<le> t)) \<and>
    merge_loop [] ` {xs. mset xs = mset (ib_ranges b) \<and> sorted (map fst xs)} = {ir_ranges (ip_build b)}"
    (is "_ \<and> _ \<and> merge_loop [] ` ?S = _")
proof -
  have b: "ib_ranges b = filter (\<lambda>(f, t). f \<le> t) rs"
    unfolding b_def push_all_ranges by (simp add: builder_default_def)
  then have ok: "list_all (\<lambda>(f, t). f \<le> t) (ib_ranges b)" by (simp add: list_all_iff)
  have "contains (ip_build b) ip \<longleftrightarrow> (\<exists>f t. (f, t) \<in> set rs \<and> f \<le> to_u128 ip \<and> to_u128 ip \<le> t)" for ip
    using ipr.hit_all [of rs ip] by (fastforce simp: b_def push_all_def)
  moreover have "merge_loop [] ` ?S = {ir_ranges (ip_build b)}"
  proof -
    have "merge_loop [] xs = ir_ranges (ip_build b)" if "xs \<in> ?S" for xs
      using merge_canonical [of xs b] that ok mset_eq_setD [of xs "ib_ranges b"] by (simp add: list_all_iff)
    moreover have "sort_key fst (ib_ranges b) \<in> ?S" by simp
    ultimately show ?thesis by (rule image_singletonI)
  qed
  ultimately show ?thesis using build_covers(1) [OF ok] by simp
qed

end
