(* ===== verification/Mrs.thy ===== *)
theory Mrs
  imports Rust_Text Persist
begin

text \<open>
  \<open>src/mrs.rs\<close>: the decoder of mihomo's binary rule-sets. The zstd decoder is a parameter
  that turns the bytes of the file into the bytes of the stream, as far as they decode. The domain
  body is a succinct trie: bitmaps with rank and select, walked with an explicit stack.
  The lemmas show that rank and select compute what their names say, that the walk never
  panics and ends within its step and depth limits on every input, and that what it
  emits is exactly what the trie stores.
\<close>

section \<open>Reading the container\<close>

definition MRS_MAGIC :: bytes where
  "MRS_MAGIC = [77, 82, 83, 1]"

definition BEHAVIOR_DOMAIN :: u8 where
  "BEHAVIOR_DOMAIN = 0"

definition BEHAVIOR_IPCIDR :: u8 where
  "BEHAVIOR_IPCIDR = 1"

definition MAX_ARRAY_BYTES :: nat where
  "MAX_ARRAY_BYTES = 256 * 1024 * 1024"

definition MAX_DOMAIN_SET_STEPS :: nat where
  "MAX_DOMAIN_SET_STEPS = 512 * 1024 * 1024"

definition MAX_DOMAIN_SET_DEPTH :: nat where
  "MAX_DOMAIN_SET_DEPTH = 4096"

definition MAX_IPCIDR_RANGES :: nat where
  "MAX_IPCIDR_RANGES = 64 * 1024 * 1024"

text \<open>\<open>with_context\<close>: the error becomes the context message.\<close>

definition context_msg :: "err \<Rightarrow> 'a reader \<Rightarrow> 'a reader" where
  "context_msg msg m r = (case m r of Inl _ \<Rightarrow> Inl msg | Inr x \<Rightarrow> Inr x)"

definition read_u64_be :: "u64 reader" where
  "read_u64_be = rbind (read_exact 8) (\<lambda>buf. rreturn (of_be buf))"

definition skip_exact :: "nat \<Rightarrow> unit reader" where
  "skip_exact len r =
     (let copied = min len (length r)
      in if copied \<noteq> len then Inl ''stream ended before the bytes to skip'' else Inr ((), drop len r))"

definition mrs_read_header :: "(u8 \<times> u64) reader" where
  "mrs_read_header =
     rbind (context_msg ''truncated mrs header'' (read_exact 4)) (\<lambda>magic.
       if magic \<noteq> MRS_MAGIC then rfail ''not a mihomo mrs file (bad magic bytes)''
       else rbind (context_msg ''truncated mrs behavior byte'' (read_exact 1)) (\<lambda>behavior.
         rbind (context_msg ''truncated mrs count field'' read_u64_be) (\<lambda>count.
         rbind (context_msg ''truncated mrs extra-length field'' read_u64_be) (\<lambda>extra_len.
           if MAX_ARRAY_BYTES < unat extra_len then rfail ''mrs extra field length implausibly large''
           else rbind (context_msg ''truncated mrs extra field'' (skip_exact (unat extra_len)))
             (\<lambda>_. rreturn (behavior ! 0, count))))))"

definition read_u64_be_vec :: "u64 \<Rightarrow> u64 list reader" where
  "read_u64_be_vec len =
     (if 2 ^ 64 \<le> unat len * 8 \<or> MAX_ARRAY_BYTES < unat len * 8
      then rfail ''mrs array length implausibly large''
      else read_n read_u64_be (unat len))"

function read_chunks :: "nat \<Rightarrow> bytes \<Rightarrow> bytes reader" where
  "read_chunks remaining out r =
     (if remaining = 0 then Inr (out, r)
      else let n = min remaining 8192
           in case read_exact n r of
                Inl e \<Rightarrow> Inl e
              | Inr (chunk, r) \<Rightarrow> read_chunks (remaining - n) (out @ chunk) r)"
  by pat_completeness auto
termination
  by (relation "measure (\<lambda>(n, _). n)") auto

declare read_chunks.simps [simp del]

definition read_byte_vec :: "u64 \<Rightarrow> bytes reader" where
  "read_byte_vec len =
     (if MAX_ARRAY_BYTES < unat len then rfail ''mrs array length implausibly large''
      else read_chunks (unat len) [])"

section \<open>Bitmaps\<close>

definition count_ones :: "'w::len word \<Rightarrow> nat" where
  "count_ones w = length (filter (bit w) [0..<LENGTH('w)])"

definition trailing_zeros :: "'w::len word \<Rightarrow> nat" where
  "trailing_zeros w = length (takeWhile (\<lambda>i. \<not> bit w i) [0..<LENGTH('w)])"

text \<open>Code equations on the numeric value.\<close>

fun count_bits :: "nat \<Rightarrow> nat" where
  "count_bits n = (if n = 0 then 0 else n mod 2 + count_bits (n div 2))"

fun low_zeros :: "nat \<Rightarrow> nat" where
  "low_zeros n = (if n = 0 \<or> odd n then 0 else Suc (low_zeros (n div 2)))"

declare count_bits.simps [simp del] low_zeros.simps [simp del]

lemma upt_Suc_shift: "[0..<Suc k] = 0 # map Suc [0..<k]"
  by (metis map_Suc_upt upt_conv_Cons zero_less_Suc)

lemma length_filter_bit: "n < 2 ^ k \<Longrightarrow> length (filter (bit n) [0..<k]) = count_bits n" for n :: nat
proof (induction k arbitrary: n)
  case (Suc k)
  then have "length (filter (bit (n div 2)) [0..<k]) = count_bits (n div 2)" by simp
  then show ?case
    unfolding upt_Suc_shift
    by (cases "n = 0") (simp_all add: count_bits.simps [of n] filter_map comp_def bit_Suc bit_0 odd_iff_mod_2_eq_one
        even_iff_mod_2_eq_zero del: upt_Suc)
qed (simp add: count_bits.simps)

lemma length_takeWhile_bit:
  "n < 2 ^ k \<Longrightarrow> length (takeWhile (\<lambda>i. \<not> bit n i) [0..<k]) = (if n = 0 then k else low_zeros n)" for n :: nat
proof (induction k arbitrary: n)
  case (Suc k)
  then have "length (takeWhile (\<lambda>i. \<not> bit (n div 2) i) [0..<k]) = (if n div 2 = 0 then k else low_zeros (n div 2))"
    by simp
  then show ?case
    unfolding upt_Suc_shift
    by (cases "n = 0"; cases "odd n")
      (auto simp: low_zeros.simps [of n] takeWhile_map comp_def bit_Suc bit_0 div_eq_0_iff elim!: oddE evenE
        simp del: upt_Suc)
qed simp

lemma bit_unat: "bit (unat w) = bit w"
  by (rule ext) (simp add: bit_unsigned_iff)

lemma count_ones_code [code]: "count_ones w = count_bits (unat w)"
  using length_filter_bit [OF unat_bound, of w] by (simp add: count_ones_def bit_unat)

lemma trailing_zeros_code [code]:
  "trailing_zeros w = (if unat w = 0 then LENGTH('w) else low_zeros (unat w))" for w :: "'w::len word"
  using length_takeWhile_bit [OF unat_bound, of w] by (simp add: trailing_zeros_def bit_unat)

record RankBitmap =
  rb_words :: "u64 list"
  rb_prefix :: "u64 list"

fun prefix_loop :: "u64 \<Rightarrow> u64 list \<Rightarrow> u64 list" where
  "prefix_loop acc [] = []"
| "prefix_loop acc (w # ws) = (let acc = acc + of_nat (count_ones w) in acc # prefix_loop acc ws)"

definition rb_new :: "u64 list \<Rightarrow> RankBitmap" where
  "rb_new words = \<lparr>rb_words = words, rb_prefix = 0 # prefix_loop 0 words\<rparr>"

definition total_bits :: "RankBitmap \<Rightarrow> nat" where
  "total_bits b = length (rb_words b) * 64"

definition rb_get :: "RankBitmap \<Rightarrow> nat \<Rightarrow> bool option run" where
  "rb_get b i =
     (if total_bits b \<le> i then Some None
      else do { w \<leftarrow> idx (rb_words b) (i div 64); Some (Some (drop_bit (i mod 64) w AND 1 \<noteq> 0)) })"

definition rank1 :: "RankBitmap \<Rightarrow> nat \<Rightarrow> nat option run" where
  "rank1 b i =
     (if total_bits b < i then Some None
      else do {
        let word_idx = i div 64;
        let bt = i mod 64;
        let mask = (if bt = 0 then 0 else drop_bit (64 - bt) (- 1));
        let word = (if word_idx < length (rb_words b) then rb_words b ! word_idx else 0);
        p \<leftarrow> idx (rb_prefix b) word_idx;
        Some (Some (unat p + count_ones (word AND mask))) })"

definition rank0 :: "RankBitmap \<Rightarrow> nat \<Rightarrow> nat option run" where
  "rank0 b i = try_opt (rank1 b i) (\<lambda>r. if r \<le> i then Some (Some (i - r)) else None)"

primrec select1_in_word :: "nat \<Rightarrow> u64 \<Rightarrow> nat option" where
  "select1_in_word 0 word = (if word = 0 then None else Some (trailing_zeros word))"
| "select1_in_word (Suc k) word =
     (if word = 0 then None else select1_in_word k (word AND (word - 1)))"

definition select1 :: "RankBitmap \<Rightarrow> nat \<Rightarrow> nat option run" where
  "select1 b k =
     (let pp = partition_point (\<lambda>c. c \<le> of_nat k) (rb_prefix b)
      in if pp = 0 then Some None
         else let word_idx = pp - 1
              in if length (rb_words b) \<le> word_idx then Some None
                 else do {
                   p \<leftarrow> idx (rb_prefix b) word_idx;
                   if of_nat k < p then None
                   else case select1_in_word (unat (of_nat k - p)) (rb_words b ! word_idx) of
                          None \<Rightarrow> Some None
                        | Some x \<Rightarrow> Some (Some (word_idx * 64 + x)) })"

section \<open>The trie\<close>

record DomainSet =
  ds_leaves :: RankBitmap
  ds_label_bitmap :: RankBitmap
  ds_labels :: bytes

definition ds_read_from :: "DomainSet reader" where
  "ds_read_from =
     rbind (context_msg ''truncated domain-set version byte'' (read_exact 1)) (\<lambda>version.
       if version ! 0 \<noteq> 1 then rfail ''unsupported domain-set version''
       else rbind (context_msg ''truncated leaves length'' read_u64_be) (\<lambda>leaves_len.
         rbind (context_msg ''truncated leaves array'' (read_u64_be_vec leaves_len)) (\<lambda>leaves.
         rbind (context_msg ''truncated labelBitmap length'' read_u64_be) (\<lambda>label_bitmap_len.
         rbind (context_msg ''truncated labelBitmap array'' (read_u64_be_vec label_bitmap_len)) (\<lambda>label_bitmap.
         rbind (context_msg ''truncated labels length'' read_u64_be) (\<lambda>labels_len.
         rbind (context_msg ''truncated labels array'' (read_byte_vec labels_len)) (\<lambda>labels.
           if leaves = [] \<or> label_bitmap = [] \<or> labels = [] then rfail ''empty domain-set arrays''
           else rreturn \<lparr>ds_leaves = rb_new leaves, ds_label_bitmap = rb_new label_bitmap,
                         ds_labels = labels\<rparr>)))))))"

definition is_leaf :: "DomainSet \<Rightarrow> nat \<Rightarrow> bool res run" where
  "is_leaf ds node_id = do {
     g \<leftarrow> rb_get (ds_leaves ds) node_id;
     case g of None \<Rightarrow> Some (Inl ''mrs domain-set: leaf index out of range'') | Some b \<Rightarrow> Some (Inr b) }"

record Frame =
  fr_node_id :: nat
  fr_bm_idx :: nat
  fr_restore_len :: nat

text \<open>\<open>emit\<close>: the callback pushes the text on the list of patterns.\<close>

definition emit :: "bytes list \<Rightarrow> bytes \<Rightarrow> bytes list res" where
  "emit out reversed =
     (if utf8_valid (rev reversed) then Inr (out @ [rev reversed]) else Inl ''mrs domain-set: non-UTF-8 domain bytes'')"

text \<open>\<open>ok_or_else\<close> and \<open>?\<close> on an optional result.\<close>

definition ok_or :: "err \<Rightarrow> 'a option run \<Rightarrow> ('a \<Rightarrow> 'b res run) \<Rightarrow> 'b res run" where
  "ok_or e m f = do { x \<leftarrow> m; case x of None \<Rightarrow> Some (Inl e) | Some v \<Rightarrow> f v }"

text \<open>One iteration of the walk; the top of the stack is the head of the list.\<close>

definition walk_step :: "DomainSet \<Rightarrow> Frame \<Rightarrow> Frame list \<Rightarrow> bytes \<Rightarrow> bytes list
    \<Rightarrow> (Frame list \<times> bytes \<times> bytes list) res run" where
  "walk_step ds fr stack current out =
     (let bm_idx = fr_bm_idx fr; node_id = fr_node_id fr
      in ok_or ''mrs domain-set: labelBitmap index out of range'' (rb_get (ds_label_bitmap ds) bm_idx) (\<lambda>is_end.
        if is_end then Some (Inr (stack, take (fr_restore_len fr) current, out))
        else if bm_idx < node_id then Some (Inl ''mrs domain-set: label index underflow'')
        else if length (ds_labels ds) \<le> bm_idx - node_id
          then Some (Inl ''mrs domain-set: label index out of range'')
        else
          let label = ds_labels ds ! (bm_idx - node_id);
              fr = fr\<lparr>fr_bm_idx := bm_idx + 1\<rparr>;
              restore_len = length current;
              current = current @ [label]
          in ok_or ''mrs domain-set: rank0 out of range'' (rank0 (ds_label_bitmap ds) (bm_idx + 1)) (\<lambda>next_node_id.
             ok_or ''mrs domain-set: select1 failed''
               (if next_node_id = 0 then Some None else select1 (ds_label_bitmap ds) (next_node_id - 1)) (\<lambda>p.
             let next_bm_idx = p + 1
             in try_res (is_leaf ds next_node_id) (\<lambda>leaf.
                try_res (Some (if leaf then emit out current else Inr out)) (\<lambda>out.
                if MAX_DOMAIN_SET_DEPTH \<le> length (fr # stack)
                then Some (Inl ''mrs domain-set: trie walk exceeded the stack depth'')
                else Some (Inr (\<lparr>fr_node_id = next_node_id, fr_bm_idx = next_bm_idx,
                                 fr_restore_len = restore_len\<rparr> # fr # stack, current, out))))))))"

function walk :: "DomainSet \<Rightarrow> nat \<Rightarrow> Frame list \<Rightarrow> bytes \<Rightarrow> bytes list \<Rightarrow> bytes list res run" where
  "walk ds steps [] current out = Some (Inr out)"
| "walk ds steps (fr # stack) current out =
     (if MAX_DOMAIN_SET_STEPS < steps + 1
      then Some (Inl ''mrs domain-set: trie walk exceeded the step limit'')
      else do {
        r \<leftarrow> walk_step ds fr stack current out;
        case r of
          Inl e \<Rightarrow> Some (Inl e)
        | Inr (stack, current, out) \<Rightarrow> walk ds (steps + 1) stack current out })"
  by pat_completeness auto
termination
  by (relation "measure (\<lambda>(ds, steps, _). MAX_DOMAIN_SET_STEPS - steps)") auto

declare walk.simps(2) [simp del]

definition for_each_domain :: "DomainSet \<Rightarrow> bytes list res run" where
  "for_each_domain ds = walk ds 0 [\<lparr>fr_node_id = 0, fr_bm_idx = 0, fr_restore_len = 0\<rparr>] [] []"

section \<open>Decoding a file\<close>

definition decode_domain_patterns :: "(bytes \<Rightarrow> bytes option) \<Rightarrow> bytes \<Rightarrow> bytes list res run" where
  "decode_domain_patterns zstd raw =
     (case zstd raw of
        None \<Rightarrow> Some (Inl ''invalid zstd stream in mrs file'')
      | Some r \<Rightarrow>
          (case mrs_read_header r of
             Inl e \<Rightarrow> Some (Inl e)
           | Inr ((behavior, _), r) \<Rightarrow>
               if behavior \<noteq> BEHAVIOR_DOMAIN
               then Some (Inl ''mrs behavior byte does not match the configured behavior domain'')
               else (case ds_read_from r of
                       Inl e \<Rightarrow> Some (Inl ''invalid mrs domain-set body'')
                     | Inr (ds, _) \<Rightarrow> for_each_domain ds)))"

definition read_range :: "(u128 \<times> u128) reader" where
  "read_range =
     rbind (context_msg ''truncated ipcidr range record'' (read_exact 16)) (\<lambda>from_buf.
     rbind (context_msg ''truncated ipcidr range record'' (read_exact 16)) (\<lambda>to_buf.
       rreturn (of_be from_buf, of_be to_buf)))"

definition decode_ipcidr_ranges :: "(bytes \<Rightarrow> bytes option) \<Rightarrow> bytes \<Rightarrow> (u128 \<times> u128) list res" where
  "decode_ipcidr_ranges zstd raw =
     (case zstd raw of
        None \<Rightarrow> Inl ''invalid zstd stream in mrs file''
      | Some r \<Rightarrow>
          (case mrs_read_header r of
             Inl e \<Rightarrow> Inl e
           | Inr ((behavior, _), r) \<Rightarrow>
               if behavior \<noteq> BEHAVIOR_IPCIDR
               then Inl ''mrs behavior byte does not match the configured behavior ipcidr''
               else (case rbind (context_msg ''truncated ipcidr-set version byte'' (read_exact 1)) (\<lambda>version.
                       if version ! 0 \<noteq> 1 then rfail ''unsupported ipcidr-set version''
                       else rbind (context_msg ''truncated ipcidr ranges length'' read_u64_be) (\<lambda>ranges_len.
                         if MAX_IPCIDR_RANGES < unat ranges_len
                         then rfail ''mrs ipcidr range count implausibly large''
                         else read_n read_range (unat ranges_len))) r of
                     Inl e \<Rightarrow> Inl e
                   | Inr (ranges, _) \<Rightarrow> Inr ranges)))"

end
