(* ===== verification/Mrs_Correct.thy ===== *)
theory Mrs_Correct
  imports Mrs
begin

text \<open>
  Correctness of the decoder of binary rule-sets: rank and select count set bits, and the stack
  walk emits the names that the trie stores.
\<close>

section \<open>Bits of a bitmap\<close>

definition gbit :: "u64 list \<Rightarrow> nat \<Rightarrow> bool" where
  "gbit ws i \<longleftrightarrow> i div 64 < length ws \<and> bit (ws ! (i div 64)) (i mod 64)"

definition rk :: "u64 list \<Rightarrow> nat \<Rightarrow> nat" where
  "rk ws i = card {j. j < i \<and> gbit ws j}"

lemma rk_le: "rk ws i \<le> i"
  unfolding rk_def by (metis (no_types, lifting) card_lessThan card_mono finite_lessThan lessThan_iff mem_Collect_eq subsetI)

lemma rk_mono: "i \<le> j \<Longrightarrow> rk ws i \<le> rk ws j"
  unfolding rk_def by (rule card_mono) auto

lemma rk_Suc: "rk ws (Suc i) = rk ws i + of_bool (gbit ws i)"
proof -
  have "{j. j < Suc i \<and> gbit ws j} = (if gbit ws i then insert i {j. j < i \<and> gbit ws j} else {j. j < i \<and> gbit ws j})"
    by (auto simp: less_Suc_eq)
  then show ?thesis by (simp add: rk_def)
qed

lemma length_filter_upt: "length (filter P [0..<n]) = card {i. i < n \<and> P i}"
proof -
  have "{i. P i} \<inter> set [0..<n] = {i. i < n \<and> P i}" by auto
  then show ?thesis using distinct_length_filter [of "[0..<n]" P] by simp
qed

lemma count_ones_card: "count_ones w = card {i. i < 64 \<and> bit w i}" for w :: u64
proof -
  have "LENGTH(64) = 64" by simp
  then show ?thesis by (simp only: count_ones_def length_filter_upt)
qed

lemma rk_word:
  assumes "q < length ws" and "b \<le> 64"
  shows "rk ws (q * 64 + b) = rk ws (q * 64) + card {x. x < b \<and> bit (ws ! q) x}"
proof -
  let ?A = "{j. j < q * 64 \<and> gbit ws j}" and ?B = "{x. x < b \<and> bit (ws ! q) x}"
  have "gbit ws (q * 64 + x) \<longleftrightarrow> bit (ws ! q) x" if "x < b" for x
    using that assms by (simp add: gbit_def)
  moreover have "j \<in> (+) (q * 64) ` {..<b}" if "j < q * 64 + b" "\<not> j < q * 64" for j
    using that by (intro image_eqI [of _ _ "j - q * 64"]) auto
  ultimately have "{j. j < q * 64 + b \<and> gbit ws j} = ?A \<union> (+) (q * 64) ` ?B" by auto
  moreover have "?A \<inter> (+) (q * 64) ` ?B = {}" by auto
  ultimately show ?thesis
    by (simp add: rk_def card_Un_disjoint card_image inj_on_def)
qed

lemma rk_words: "q \<le> length ws \<Longrightarrow> rk ws (q * 64) = (\<Sum>i<q. count_ones (ws ! i))"
proof (induction q)
  case (Suc q)
  then show ?case using rk_word [of q ws 64] by (simp add: count_ones_card add.commute)
qed (simp add: rk_def)

lemma prefix_loop_nth:
  "q \<le> length ws \<Longrightarrow> (acc # prefix_loop acc ws) ! q = acc + of_nat (\<Sum>i<q. count_ones (ws ! i))"
proof (induction ws arbitrary: acc q)
  case (Cons w ws)
  show ?case
  proof (cases q)
    case (Suc q')
    have "(\<Sum>i<Suc q'. count_ones ((w # ws) ! i)) = count_ones w + (\<Sum>i<q'. count_ones (ws ! i))"
      by (simp only: sum.lessThan_Suc_shift nth_Cons_0 nth_Cons_Suc)
    moreover have "(acc # prefix_loop acc (w # ws)) ! Suc q' =
        ((acc + of_nat (count_ones w)) # prefix_loop (acc + of_nat (count_ones w)) ws) ! q'"
      by (simp add: Let_def)
    ultimately show ?thesis
      using Cons.IH [of q' "acc + of_nat (count_ones w)"] Cons.prems Suc by (simp add: add.assoc)
  qed simp
qed simp

lemma length_prefix_loop [simp]: "length (prefix_loop acc ws) = length ws"
  by (induction ws arbitrary: acc) (simp_all add: Let_def)

lemma rb_new_sel [simp]: "rb_words (rb_new ws) = ws" "length (rb_prefix (rb_new ws)) = Suc (length ws)"
  "total_bits (rb_new ws) = length ws * 64"
  by (simp_all add: rb_new_def total_bits_def)

lemma unat_prefix:
  assumes "length ws < 2 ^ 57" and "q \<le> length ws"
  shows "unat (rb_prefix (rb_new ws) ! q) = rk ws (q * 64)"
proof -
  have "rk ws (q * 64) < 2 ^ 64" using rk_le [of ws "q * 64"] assms by simp
  moreover have "rb_prefix (rb_new ws) ! q = of_nat (rk ws (q * 64))"
    using prefix_loop_nth [OF assms(2), of 0]
    by (simp only: rb_new_def RankBitmap.select_convs rk_words [OF assms(2)] add_0)
  ultimately show ?thesis by (simp add: unat_of_nat)
qed

section \<open>Rank and select\<close>

lemma rb_get_eq: "rb_get (rb_new ws) i = Some (if i < length ws * 64 then Some (gbit ws i) else None)"
proof (cases "i < length ws * 64")
  case True
  then have q: "i div 64 < length ws" by (simp add: less_mult_imp_div_less)
  have "drop_bit (i mod 64) w AND 1 \<noteq> 0 \<longleftrightarrow> bit w (i mod 64)" for w :: u64
    by (simp add: and_one_eq bit_iff_odd_drop_bit mod_2_eq_odd)
  with True q show ?thesis by (simp add: rb_get_def idx_in gbit_def)
next
  case False
  then show ?thesis by (simp add: rb_get_def)
qed

lemma rank1_eq:
  assumes "length ws < 2 ^ 57"
  shows "rank1 (rb_new ws) i = Some (if i \<le> length ws * 64 then Some (rk ws i) else None)"
proof (cases "i \<le> length ws * 64")
  case True
  let ?q = "i div 64" and ?b = "i mod 64"
  have i: "i = ?q * 64 + ?b" by simp
  have q: "?q \<le> length ws" using True by (simp add: div_le_mono less_eq_div_iff_mult_less_eq)
  let ?m = "(if ?b = 0 then 0 else drop_bit (64 - ?b) (- 1)) :: u64"
  let ?w = "(if ?q < length ws then ws ! ?q else 0)"
  have m: "bit ?m x \<longleftrightarrow> x < ?b" for x
    by (auto simp: bit_simps)
  have "count_ones (?w AND ?m) = card {x. x < ?b \<and> bit ?w x}"
    unfolding count_ones_card by (rule arg_cong [where f = card]) (auto simp: bit_and_iff m)
  moreover have "rk ws i = rk ws (?q * 64) + card {x. x < ?b \<and> bit ?w x}"
  proof (cases "?q < length ws")
    case True
    then show ?thesis using rk_word [of ?q ws ?b] i by simp
  next
    case False
    then have "?b = 0" using True i q by linarith
    then show ?thesis using i by simp
  qed
  moreover have "rank1 (rb_new ws) i = Some (Some (unat (rb_prefix (rb_new ws) ! ?q) + count_ones (?w AND ?m)))"
    using True q by (simp add: rank1_def idx_in Let_def)
  ultimately show ?thesis using True unat_prefix [OF assms q] by (simp only: if_True)
next
  case False
  then show ?thesis by (simp add: rank1_def)
qed

lemma rank0_eq:
  assumes "length ws < 2 ^ 57"
  shows "rank0 (rb_new ws) i = Some (if i \<le> length ws * 64 then Some (i - rk ws i) else None)"
  using rk_le [of ws i] by (simp add: rank0_def rank1_eq [OF assms])

lemma nth_filter_upt:
  assumes "k < length (filter P [0..<n])"
  defines "p \<equiv> filter P [0..<n] ! k"
  shows "p < n" "P p" "card {x. x < p \<and> P x} = k"
proof -
  have "p \<in> set (filter P [0..<n])" using assms by (metis nth_mem)
  then show p: "p < n" "P p" by auto
  have "[0..<n] = [0..<p] @ p # [Suc p..<n]"
    using p(1) by (metis le_add1 less_imp_le_nat upt_add_eq_append upt_conv_Cons plus_nat.add_0 le_add_diff_inverse)
  then have f: "filter P [0..<n] = filter P [0..<p] @ p # filter P [Suc p..<n]" using p(2) by simp
  let ?j = "length (filter P [0..<p])"
  have "filter P [0..<n] ! ?j = p" "?j < length (filter P [0..<n])" unfolding f by simp_all
  then have "?j = k" using assms nth_eq_iff_index_eq [of "filter P [0..<n]" ?j k] by simp
  then show "card {x. x < p \<and> P x} = k" by (simp add: length_filter_upt)
qed

lemma lowest_bit:
  assumes "(w :: u64) \<noteq> 0"
  defines "t \<equiv> LEAST i. bit w i"
  shows "t < 64" "bit w t" "\<And>i. i < t \<Longrightarrow> \<not> bit w i"
    "\<And>i. bit (w AND (w - 1)) i \<longleftrightarrow> bit w i \<and> i \<noteq> t"
proof -
  obtain i where "bit w i" using assms(1) by (metis bit_eq_iff bit_0_eq bot_apply bot_bool_def)
  then show t: "bit w t" unfolding t_def by (rule LeastI)
  then show t64: "t < 64" using bit_imp_le_length [OF t] by simp
  show low: "\<not> bit w i" if "i < t" for i using that not_less_Least unfolding t_def by blast
  define v where "v = unset_bit t w"
  have v: "bit v i \<longleftrightarrow> bit w i \<and> i \<noteq> t" for i
    by (auto simp: v_def bit_simps)
  have "v AND 2 ^ t = 0" by (rule bit_word_eqI) (auto simp: bit_simps v)
  then have "v + 2 ^ t = v OR 2 ^ t" by (rule disjunctive_add_eq_or)
  moreover have "v OR 2 ^ t = w" by (rule bit_word_eqI) (use t v in \<open>auto simp: bit_simps\<close>)
  ultimately have "w - 1 = v + mask t" by (simp add: mask_eq_exp_minus_1 algebra_simps)
  moreover have "v AND mask t = 0" by (rule bit_word_eqI) (use low v in \<open>auto simp: bit_simps\<close>)
  ultimately have "w - 1 = v OR mask t" by (simp add: disjunctive_add_eq_or)
  then show "bit (w AND (w - 1)) i \<longleftrightarrow> bit w i \<and> i \<noteq> t" for i
    using low v [of i] t64 by (auto simp: bit_simps)
qed

lemma bits_of_word:
  assumes "(w :: u64) \<noteq> 0"
  shows "filter (bit w) [0..<64] = trailing_zeros w # filter (bit (w AND (w - 1))) [0..<64]"
proof -
  define t where "t = (LEAST i. bit w i)"
  note l = lowest_bit [OF assms, folded t_def]
  have u: "[0..<64] = [0..<t] @ t # [Suc t..<64]"
    using l(1) by (metis le_add1 less_imp_le_nat upt_add_eq_append upt_conv_Cons plus_nat.add_0 le_add_diff_inverse)
  have "trailing_zeros w = t"
    using l(2,3) by (simp add: trailing_zeros_def u takeWhile_append)
  moreover have "filter (bit w) [0..<64] = t # filter (bit w) [Suc t..<64]"
    unfolding u using l(2,3) by simp
  moreover have "filter (bit (w AND (w - 1))) [0..<64] = filter (bit w) [Suc t..<64]"
  proof -
    have "filter (bit (w AND (w - 1))) [Suc t..<64] = filter (bit w) [Suc t..<64]"
      by (rule filter_cong) (auto simp: l(4))
    moreover have "filter (bit (w AND (w - 1))) [0..<t] = []"
      unfolding filter_empty_conv l(4) using l(3) by auto
    ultimately show ?thesis unfolding u by (simp add: l(4))
  qed
  ultimately show ?thesis by simp
qed

lemma select1_in_word_eq:
  "select1_in_word k w = (if k < count_ones w then Some (filter (bit w) [0..<64] ! k) else None)"
proof (induction k arbitrary: w)
  case 0
  show ?case
    by (cases "w = 0") (use bits_of_word [of w] in \<open>auto simp: count_ones_def\<close>)
next
  case (Suc k)
  show ?case
    by (cases "w = 0") (use bits_of_word [of w] Suc [of "w AND (w - 1)"] in \<open>auto simp: count_ones_def\<close>)
qed

lemma select1_eq:
  assumes "length ws < 2 ^ 57" and "k < 2 ^ 64"
  shows "\<exists>r. select1 (rb_new ws) k = Some r \<and>
    (case r of None \<Rightarrow> rk ws (length ws * 64) \<le> k
     | Some p \<Rightarrow> p < length ws * 64 \<and> gbit ws p \<and> rk ws p = k)"
proof -
  let ?P = "\<lambda>c. c \<le> (of_nat k :: u64)" and ?xs = "rb_prefix (rb_new ws)"
  let ?pp = "partition_point ?P ?xs"
  have k: "unat (of_nat k :: u64) = k" using assms(2) by (simp add: unat_of_nat)
  have le: "?P (?xs ! q) \<longleftrightarrow> rk ws (q * 64) \<le> k" if "q \<le> length ws" for q
    using unat_prefix [OF assms(1) that] k by (simp add: word_le_nat_alt)
  have pos: "0 < ?pp" by (simp add: partition_point_def rb_new_def)
  have bound: "?pp \<le> Suc (length ws)" using partition_point_le [of ?P ?xs] by simp
  have last: "rk ws ((?pp - 1) * 64) \<le> k"
  proof -
    have "?pp - 1 < length (takeWhile ?P ?xs)" using pos by (simp add: partition_point_def)
    then have "?P (?xs ! (?pp - 1))" by (metis nth_mem set_takeWhileD takeWhile_nth)
    with le [of "?pp - 1"] bound pos show ?thesis by simp
  qed
  show ?thesis
  proof (cases "?pp = Suc (length ws)")
    case True
    with last show ?thesis by (simp add: select1_def Let_def)
  next
    case False
    let ?q = "?pp - 1"
    have q: "?q < length ws" using False bound pos by linarith
    have "?pp < length ?xs" using False bound by simp
    then have "\<not> ?P (?xs ! ?pp)" unfolding partition_point_def by (rule nth_length_takeWhile)
    then have "k < rk ws (Suc ?q * 64)" using le [of ?pp] q pos by simp
    moreover have "rk ws (Suc ?q * 64) = rk ws (?q * 64) + count_ones (ws ! ?q)"
      using rk_word [of ?q ws 64] q by (simp add: count_ones_card add.commute)
    ultimately have w: "k - rk ws (?q * 64) < count_ones (ws ! ?q)" using last by linarith
    define x where "x = filter (bit (ws ! ?q)) [0..<64] ! (k - rk ws (?q * 64))"
    have x: "x < 64" "bit (ws ! ?q) x" "card {y. y < x \<and> bit (ws ! ?q) y} = k - rk ws (?q * 64)"
      using nth_filter_upt [of "k - rk ws (?q * 64)" "bit (ws ! ?q)" 64] w unfolding x_def count_ones_def by simp_all
    have within: "unat (of_nat k - ?xs ! ?q) = k - rk ws (?q * 64)"
      using le [of ?q] last q unat_prefix [OF assms(1), of ?q] k by (subst unat_sub) (auto simp: k)
    have "select1 (rb_new ws) k = Some (Some (?q * 64 + x))"
      using q pos w last le [of ?q] within
      by (simp add: select1_def Let_def idx_in not_less [symmetric] select1_in_word_eq x_def)
    moreover have "rk ws (?q * 64 + x) = k" using rk_word [of ?q ws x] x q last by simp
    moreover have "gbit ws (?q * 64 + x)" "?q * 64 + x < length ws * 64"
      using x q by (simp_all add: gbit_def)
    ultimately show ?thesis by simp
  qed
qed

section \<open>What a trie stores\<close>

abbreviation lb_words :: "DomainSet \<Rightarrow> u64 list" where
  "lb_words ds \<equiv> rb_words (ds_label_bitmap ds)"

abbreviation lv_words :: "DomainSet \<Rightarrow> u64 list" where
  "lv_words ds \<equiv> rb_words (ds_leaves ds)"

definition bitmap_ok :: "RankBitmap \<Rightarrow> bool" where
  "bitmap_ok b \<longleftrightarrow> b = rb_new (rb_words b) \<and> length (rb_words b) < 2 ^ 57"

definition ds_ok :: "DomainSet \<Rightarrow> bool" where
  "ds_ok ds \<longleftrightarrow> bitmap_ok (ds_leaves ds) \<and> bitmap_ok (ds_label_bitmap ds)"

text \<open>
  The edges of the trie: a clear bit at position \<open>i\<close> of the run of node \<open>n\<close> is an edge with a
  label to the node whose number is the count of clear bits up to there; the run of
  that node starts after the set bit that ends the run of the node before it.
\<close>

definition trie_edge :: "DomainSet \<Rightarrow> nat \<Rightarrow> nat \<Rightarrow> nat \<Rightarrow> nat \<Rightarrow> u8 \<Rightarrow> bool" where
  "trie_edge ds n i n' b' l \<longleftrightarrow>
     i < length (lb_words ds) * 64 \<and> \<not> gbit (lb_words ds) i \<and>
     n \<le> i \<and> i - n < length (ds_labels ds) \<and> l = ds_labels ds ! (i - n) \<and>
     n' = i + 1 - rk (lb_words ds) (i + 1) \<and>
     (\<exists>p. b' = p + 1 \<and> gbit (lb_words ds) p \<and> rk (lb_words ds) p + 1 = n')"

text \<open>
  \<open>stored ds n i w s\<close>: below node \<open>n\<close>, at its edges from position \<open>i\<close> on, the trie stores the
  name \<open>s\<close>, when \<open>w\<close> are the bytes on the way to \<open>n\<close>. Names are stored back to front.
\<close>

inductive stored :: "DomainSet \<Rightarrow> nat \<Rightarrow> nat \<Rightarrow> bytes \<Rightarrow> bytes \<Rightarrow> bool" for ds where
  leaf: "trie_edge ds n i n' b' l \<Longrightarrow> gbit (lv_words ds) n' \<Longrightarrow> stored ds n i w (rev (w @ [l]))"
| down: "trie_edge ds n i n' b' l \<Longrightarrow> stored ds n' b' (w @ [l]) s \<Longrightarrow> stored ds n i w s"
| sibling: "trie_edge ds n i n' b' l \<Longrightarrow> stored ds n (i + 1) w s \<Longrightarrow> stored ds n i w s"

lemma rk_inject:
  assumes "gbit ws p" "gbit ws q" "rk ws p = rk ws q"
  shows "p = q"
proof -
  have "rk ws a < rk ws b" if "a < b" "gbit ws a" for a b
    using rk_mono [of "Suc a" b ws] that by (simp add: rk_Suc)
  with assms show ?thesis by (metis less_irrefl nat_neq_iff)
qed

lemma trie_edge_unique:
  "trie_edge ds n i n' b' l \<Longrightarrow> trie_edge ds n i m c k \<Longrightarrow> m = n' \<and> c = b' \<and> k = l"
  by (auto simp: trie_edge_def intro: rk_inject)

lemma stored_edge:
  assumes "trie_edge ds n i n' b' l"
  shows "stored ds n i w s \<longleftrightarrow>
    gbit (lv_words ds) n' \<and> s = rev (w @ [l]) \<or> stored ds n' b' (w @ [l]) s \<or> stored ds n (i + 1) w s"
proof
  assume "stored ds n i w s"
  then show "gbit (lv_words ds) n' \<and> s = rev (w @ [l]) \<or> stored ds n' b' (w @ [l]) s \<or> stored ds n (i + 1) w s"
  proof (cases rule: stored.cases)
    case (leaf m c k)
    with trie_edge_unique [OF assms leaf(2)] show ?thesis by simp
  next
    case (down m c k)
    with trie_edge_unique [OF assms down(1)] show ?thesis by simp
  next
    case (sibling m c k)
    then show ?thesis by simp
  qed
next
  assume "gbit (lv_words ds) n' \<and> s = rev (w @ [l]) \<or> stored ds n' b' (w @ [l]) s \<or> stored ds n (i + 1) w s"
  then show "stored ds n i w s"
    using stored.leaf [OF assms, of w] stored.down [OF assms, of w s] stored.sibling [OF assms, of w s] by blast
qed

lemma stored_end: "gbit (lb_words ds) i \<Longrightarrow> \<not> stored ds n i w s"
  by (rule notI, erule stored.cases) (auto simp: trie_edge_def)

section \<open>The walk\<close>

lemma walk_step_cases:
  assumes ok: "ds_ok ds"
  obtains (error) e where "walk_step ds fr stack current out = Some (Inl e)"
  | (pop) "walk_step ds fr stack current out = Some (Inr (stack, take (fr_restore_len fr) current, out))"
      "gbit (lb_words ds) (fr_bm_idx fr)"
  | (push) n' b' l where "trie_edge ds (fr_node_id fr) (fr_bm_idx fr) n' b' l"
      "walk_step ds fr stack current out =
         Some (Inr (\<lparr>fr_node_id = n', fr_bm_idx = b', fr_restore_len = length current\<rparr>
           # fr\<lparr>fr_bm_idx := fr_bm_idx fr + 1\<rparr> # stack, current @ [l],
           if gbit (lv_words ds) n' then out @ [rev (current @ [l])] else out))"
      "length stack + 1 < MAX_DOMAIN_SET_DEPTH" "gbit (lv_words ds) n' \<longrightarrow> utf8_valid (rev (current @ [l]))"
proof -
  let ?i = "fr_bm_idx fr" and ?n = "fr_node_id fr"
  define ws vs where "ws = lb_words ds" and "vs = lv_words ds"
  have lb: "ds_label_bitmap ds = rb_new ws" "length ws < 2 ^ 57" and lv: "ds_leaves ds = rb_new vs"
    using ok by (auto simp: ds_ok_def bitmap_ok_def ws_def vs_def)
  note w = ws_def [symmetric] vs_def [symmetric]
  have get: "rb_get (ds_label_bitmap ds) ?i = Some (if ?i < length ws * 64 then Some (gbit ws ?i) else None)"
    by (simp add: lb(1) rb_get_eq)
  show thesis
  proof (cases "?i < length ws * 64 \<and> \<not> gbit ws ?i \<and> ?n \<le> ?i \<and> ?i - ?n < length (ds_labels ds)")
    case False
    then consider "length ws * 64 \<le> ?i" | "?i < length ws * 64" "gbit ws ?i"
      | "?i < length ws * 64" "\<not> gbit ws ?i" "?i < ?n"
      | "?i < length ws * 64" "\<not> gbit ws ?i" "?n \<le> ?i" "length (ds_labels ds) \<le> ?i - ?n"
      by linarith
    then show thesis
    proof cases
      case 1
      with get have "walk_step ds fr stack current out = Some (Inl ''mrs domain-set: labelBitmap index out of range'')"
        by (simp add: walk_step_def Let_def ok_or_def)
      then show thesis by (rule error)
    next
      case 2
      with get have "walk_step ds fr stack current out = Some (Inr (stack, take (fr_restore_len fr) current, out))"
        by (simp add: walk_step_def Let_def ok_or_def)
      then show thesis using pop 2 unfolding w by blast
    next
      case 3
      with get have "walk_step ds fr stack current out = Some (Inl ''mrs domain-set: label index underflow'')"
        by (simp add: walk_step_def Let_def ok_or_def)
      then show thesis by (rule error)
    next
      case 4
      with get have "walk_step ds fr stack current out = Some (Inl ''mrs domain-set: label index out of range'')"
        by (simp add: walk_step_def Let_def ok_or_def)
      then show thesis by (rule error)
    qed
  next
    case True
    define l where "l = ds_labels ds ! (?i - ?n)"
    define n' where "n' = ?i + 1 - rk ws (?i + 1)"
    have r0: "rank0 (ds_label_bitmap ds) (?i + 1) = Some (Some n')"
      using True by (simp add: lb(1) rank0_eq [OF lb(2)] n'_def)
    have k: "n' - 1 < 2 ^ 64"
    proof -
      have "n' - 1 \<le> ?i" "?i < length ws * 64" using True by (simp_all add: n'_def)
      then have "n' - 1 < length ws * 64" by linarith
      also have "\<dots> < 2 ^ 64" using lb(2) by simp
      finally show ?thesis .
    qed
    have n'0: "n' \<noteq> 0" using True rk_le [of ws ?i] by (simp add: n'_def rk_Suc)
    from select1_eq [OF lb(2) k, folded lb(1)] obtain r where sel: "select1 (ds_label_bitmap ds) (n' - 1) = Some r"
      and r: "case r of None \<Rightarrow> True | Some p \<Rightarrow> gbit ws p \<and> rk ws p = n' - 1"
      by (auto split: option.splits)
    have leaf: "is_leaf ds n' = Some (if n' < length vs * 64 then Inr (gbit vs n')
        else Inl ''mrs domain-set: leaf index out of range'')"
      by (simp add: is_leaf_def lv rb_get_eq)
    let ?cur = "current @ [l]"
    let ?next = "\<lambda>p. if length vs * 64 \<le> n' then Some (Inl ''mrs domain-set: leaf index out of range'')
      else try_res (Some (if gbit vs n' then emit out ?cur else Inr out)) (\<lambda>out.
        if MAX_DOMAIN_SET_DEPTH \<le> length stack + 1
        then Some (Inl ''mrs domain-set: trie walk exceeded the stack depth'')
        else Some (Inr (\<lparr>fr_node_id = n', fr_bm_idx = p + 1, fr_restore_len = length current\<rparr>
           # fr\<lparr>fr_bm_idx := ?i + 1\<rparr> # stack, ?cur, out)))"
    have step: "walk_step ds fr stack current out =
        (case r of None \<Rightarrow> Some (Inl ''mrs domain-set: select1 failed'') | Some p \<Rightarrow> ?next p)"
      using get True r0 sel leaf n'0
      by (cases r) (simp_all add: walk_step_def Let_def ok_or_def l_def [symmetric])
    show thesis
    proof (cases r)
      case None
      with step error show thesis by simp
    next
      case (Some p)
      have e: "trie_edge ds ?n ?i n' (p + 1) l"
        using True r Some n'0 by (auto simp: trie_edge_def l_def n'_def w)
      show thesis
      proof (cases "n' < length vs * 64 \<and> (gbit vs n' \<longrightarrow> utf8_valid (rev ?cur)) \<and> length stack + 1 < MAX_DOMAIN_SET_DEPTH")
        case True
        then have "walk_step ds fr stack current out =
         Some (Inr (\<lparr>fr_node_id = n', fr_bm_idx = p + 1, fr_restore_len = length current\<rparr>
           # fr\<lparr>fr_bm_idx := fr_bm_idx fr + 1\<rparr> # stack, current @ [l],
           if gbit vs n' then out @ [rev (current @ [l])] else out))"
          using step Some by (simp add: emit_def)
        with True show thesis using push [OF e] unfolding w by blast
      next
        case False
        then have "\<exists>e. walk_step ds fr stack current out = Some (Inl e)"
          using step Some by (auto simp: emit_def not_less)
        then show thesis using error by blast
      qed
    qed
  qed
qed

fun frames_store :: "DomainSet \<Rightarrow> bytes \<Rightarrow> Frame list \<Rightarrow> bytes set" where
  "frames_store ds current [] = {}"
| "frames_store ds current (fr # frs) =
     {s. stored ds (fr_node_id fr) (fr_bm_idx fr) current s}
       \<union> frames_store ds (take (fr_restore_len fr) current) frs"

text \<open>The stack of the walk mirrors the path: one byte of \<open>current\<close> for each frame above the root.\<close>

fun frames_ok :: "nat \<Rightarrow> Frame list \<Rightarrow> bool" where
  "frames_ok len [] \<longleftrightarrow> True"
| "frames_ok len (fr # frs) \<longleftrightarrow> len = length frs \<and> fr_restore_len fr = len - 1 \<and> frames_ok (len - 1) frs"

definition pattern_ok :: "bytes \<Rightarrow> bool" where
  "pattern_ok p \<longleftrightarrow> utf8_valid p \<and> p \<noteq> [] \<and> length p \<le> MAX_DOMAIN_SET_DEPTH"

lemma walk_correct:
  assumes "ds_ok ds" and "frames_ok (length current) stack" and "length stack \<le> MAX_DOMAIN_SET_DEPTH"
    and "\<forall>p\<in>set out. pattern_ok p"
  shows "\<exists>r. walk ds steps stack current out = Some r \<and>
    (\<forall>out'. r = Inr out' \<longrightarrow> set out' = set out \<union> frames_store ds current stack \<and> (\<forall>p\<in>set out'. pattern_ok p))"
  using assms
proof (induction ds steps stack current out rule: walk.induct)
  case (2 ds steps fr stack current out)
  note ok = 2(2) and fok = 2(3) and depth = 2(4) and pats = 2(5)
  show ?case
  proof (cases "MAX_DOMAIN_SET_STEPS < steps + 1")
    case True
    then show ?thesis by (simp add: walk.simps(2))
  next
    case False
    show ?thesis
    proof (cases rule: walk_step_cases [OF ok, of fr stack current out, case_names error pop push])
      case (error e)
      with False show ?thesis by (simp add: walk.simps(2))
    next
      case pop
      let ?cur = "take (fr_restore_len fr) current"
      have "frames_ok (length ?cur) stack" using fok by auto
      from 2(1) [OF False pop(1) refl refl refl ok this _ pats] depth
      obtain r where r: "walk ds (steps + 1) stack ?cur out = Some r"
        "\<forall>out'. r = Inr out' \<longrightarrow> set out' = set out \<union> frames_store ds ?cur stack \<and> (\<forall>p\<in>set out'. pattern_ok p)"
        by auto
      have "frames_store ds current (fr # stack) = frames_store ds ?cur stack"
        using stored_end [OF pop(2)] by auto
      with False pop(1) r show ?thesis by (simp add: walk.simps(2))
    next
      case (push n' b' l)
      let ?fr = "fr\<lparr>fr_bm_idx := fr_bm_idx fr + 1\<rparr>"
      let ?new = "\<lparr>fr_node_id = n', fr_bm_idx = b', fr_restore_len = length current\<rparr>"
      let ?out = "if gbit (lv_words ds) n' then out @ [rev (current @ [l])] else out"
      have fok': "frames_ok (length (current @ [l])) (?new # ?fr # stack)" using fok by auto
      have depth': "length (?new # ?fr # stack) \<le> MAX_DOMAIN_SET_DEPTH" using push(3) by simp
      have pats': "\<forall>p\<in>set ?out. pattern_ok p"
        using pats push(3,4) fok by (auto simp: pattern_ok_def)
      from 2(1) [OF False push(2) refl refl refl ok fok' depth' pats'] obtain r
        where r: "walk ds (steps + 1) (?new # ?fr # stack) (current @ [l]) ?out = Some r"
        "\<forall>out'. r = Inr out' \<longrightarrow> set out' = set ?out \<union> frames_store ds (current @ [l]) (?new # ?fr # stack)
          \<and> (\<forall>p\<in>set out'. pattern_ok p)"
        by blast
      have "set out \<union> frames_store ds current (fr # stack) =
          set ?out \<union> frames_store ds (current @ [l]) (?new # ?fr # stack)"
        using stored_edge [OF push(1), of current] by auto
      with False push(2) r show ?thesis by (simp add: walk.simps(2) del: frames_store.simps)
    qed
  qed
qed simp

section \<open>Reading\<close>

lemma rbind_InrE:
  assumes "rbind m f r = Inr x"
  obtains v r' where "m r = Inr (v, r')" "f v r' = Inr x"
  using assms by (auto simp: rbind_def split: sum.splits)

lemma context_msg_Inr [simp]: "context_msg msg m r = Inr x \<longleftrightarrow> m r = Inr x"
  by (auto simp: context_msg_def split: sum.splits)

lemma read_n_length: "read_n m n r = Inr (xs, r') \<Longrightarrow> length xs = n"
  by (induction n arbitrary: r xs r') (auto simp: rreturn_def elim!: rbind_InrE)

lemma read_u64_be_vec_length: "read_u64_be_vec len r = Inr (ws, r') \<Longrightarrow> length ws < 2 ^ 57"
  by (auto simp: read_u64_be_vec_def rfail_def MAX_ARRAY_BYTES_def split: if_splits dest!: read_n_length)

lemma read_chunks_exact:
  "read_chunks n out r = (if length r < n then Inl ''failed to fill whole buffer'' else Inr (out @ take n r, drop n r))"
proof (induction n out r rule: read_chunks.induct)
  case (1 remaining out r)
  show ?case
  proof (cases "remaining = 0 \<or> length r < min remaining 8192")
    case True
    then show ?thesis by (auto simp: read_chunks.simps [of remaining] Let_def read_exact_def)
  next
    case False
    let ?n = "min remaining 8192"
    have "take ?n r @ take (remaining - ?n) (drop ?n r) = take remaining r"
      by (metis le_add_diff_inverse min.cobounded1 take_add)
    with False 1 [OF _ refl, of "(take ?n r, drop ?n r)" "take ?n r" "drop ?n r"] show ?thesis
      by (simp add: read_chunks.simps [of remaining] Let_def read_exact_def drop_drop) (auto simp: not_less)
  qed
qed

lemma ds_read_from_ok: "ds_read_from r = Inr (ds, r') \<Longrightarrow> ds_ok ds"
  by (auto simp: ds_read_from_def rfail_def rreturn_def ds_ok_def bitmap_ok_def
      split: if_splits elim!: rbind_InrE dest!: read_u64_be_vec_length)

lemma for_each_domain_correct:
  assumes "ds_ok ds"
  shows "\<exists>r. for_each_domain ds = Some r \<and>
      (\<forall>pats. r = Inr pats \<longrightarrow> set pats = {s. stored ds 0 0 [] s} \<and> (\<forall>p\<in>set pats. pattern_ok p))"
  using walk_correct [OF assms, of "[]" "[\<lparr>fr_node_id = 0, fr_bm_idx = 0, fr_restore_len = 0\<rparr>]" "[]" 0]
  by (simp add: for_each_domain_def MAX_DOMAIN_SET_DEPTH_def)

lemma mrs_decode_total: "\<exists>r. decode_domain_patterns zstd raw = Some r"
  using for_each_domain_correct [OF ds_read_from_ok]
  by (fastforce simp: decode_domain_patterns_def split: option.splits sum.splits)

section \<open>Properties\<close>

text \<open>
  (C37) Rank and select on a bitmap that fits the limits of the file format: \<open>rank1\<close> and \<open>rank0\<close>
  count the set and the clear bits below a position, \<open>select1\<close> finds the position of the
  set bit with a given number and fails exactly when there is none; none of them panics.
\<close>

theorem bitmap_rank_select:
  assumes "length ws < 2 ^ 57" and "k < 2 ^ 64"
  shows "rank1 (rb_new ws) i = Some (if i \<le> length ws * 64 then Some (card {j. j < i \<and> gbit ws j}) else None) \<and>
    rank0 (rb_new ws) i = Some (if i \<le> length ws * 64 then Some (card {j. j < i \<and> \<not> gbit ws j}) else None) \<and>
    (\<exists>r. select1 (rb_new ws) k = Some r \<and>
      (case r of None \<Rightarrow> card {j. gbit ws j} \<le> k
       | Some p \<Rightarrow> gbit ws p \<and> card {j. j < p \<and> gbit ws j} = k))"
proof -
  have "{j. gbit ws j} = {j. j < length ws * 64 \<and> gbit ws j}"
    by (auto simp: gbit_def)
  then have total: "card {j. gbit ws j} = rk ws (length ws * 64)" by (simp add: rk_def)
  have "card {j. j < i \<and> \<not> gbit ws j} = i - rk ws i"
  proof -
    have "{j. j < i \<and> \<not> gbit ws j} = {..<i} - {j. j < i \<and> gbit ws j}" by auto
    moreover have "card ({..<i} - {j. j < i \<and> gbit ws j}) = card {..<i} - card {j. j < i \<and> gbit ws j}"
      by (rule card_Diff_subset) auto
    ultimately show ?thesis by (simp add: rk_def)
  qed
  moreover obtain r where "select1 (rb_new ws) k = Some r"
    "case r of None \<Rightarrow> rk ws (length ws * 64) \<le> k | Some p \<Rightarrow> p < length ws * 64 \<and> gbit ws p \<and> rk ws p = k"
    using select1_eq [OF assms] by blast
  ultimately show ?thesis
    unfolding total rank1_eq [OF assms(1)] rank0_eq [OF assms(1)] by (auto simp: rk_def split: option.splits)
qed

theorem bitmap_rank_select_witness:
  "rank1 (rb_new [6, 5]) 66 = Some (Some (card {j. j < 66 \<and> gbit [6, 5] j})) \<and>
   select1 (rb_new [6, 5]) 3 = Some (Some 66) \<and> card {j. j < 66 \<and> gbit [6, 5] j} = 3"
proof -
  have s: "select1 (rb_new [6, 5]) 3 = Some (Some 66)" by code_simp
  from bitmap_rank_select [of "[6, 5]" 3 66] s show ?thesis by simp
qed

text \<open>
  (C11) Decoding a domain rule-set never panics and always ends, whatever bytes it is given. When
  it succeeds the file had the right header and body, and the patterns it returns are
  exactly the names stored in the trie, each of them valid UTF-8, non-empty and no longer than the
  depth limit.
\<close>

theorem mrs_decode_exact:
  "\<exists>r. decode_domain_patterns zstd raw = Some r \<and>
    (\<forall>pats. r = Inr pats \<longrightarrow>
      (\<exists>stream n body ds rest. zstd raw = Some stream \<and>
         mrs_read_header stream = Inr ((BEHAVIOR_DOMAIN, n), body) \<and> ds_read_from body = Inr (ds, rest) \<and>
         set pats = {s. stored ds 0 0 [] s} \<and> (\<forall>p\<in>set pats. pattern_ok p)))"
proof (cases "\<exists>stream n body ds rest. zstd raw = Some stream \<and>
    mrs_read_header stream = Inr ((BEHAVIOR_DOMAIN, n), body) \<and> ds_read_from body = Inr (ds, rest)")
  case True
  then obtain stream n body ds rest where d: "zstd raw = Some stream"
    "mrs_read_header stream = Inr ((BEHAVIOR_DOMAIN, n), body)" "ds_read_from body = Inr (ds, rest)"
    by blast
  from for_each_domain_correct [OF ds_read_from_ok [OF d(3)]] d show ?thesis
    by (fastforce simp: decode_domain_patterns_def)
next
  case False
  then show ?thesis
    by (auto simp: decode_domain_patterns_def split: option.splits sum.splits)
qed

definition sample_mrs :: bytes where
  "sample_mrs = MRS_MAGIC @ [0] @ to_be 8 (1 :: u64) @ to_be 8 (0 :: u64) @ [1] @ to_be 8 (1 :: u64) @ to_be 8 (2 :: u64)
     @ to_be 8 (1 :: u64) @ to_be 8 (6 :: u64) @ to_be 8 (1 :: u64) @ [97]"

theorem mrs_decode_exact_witness:
  "decode_domain_patterns Some sample_mrs = Some (Inr [[97]]) \<and>
   (\<exists>ds. stored ds 0 0 [] [97] \<and> (\<forall>s. stored ds 0 0 [] s \<longleftrightarrow> s = [97]))"
proof -
  have d: "decode_domain_patterns Some sample_mrs = Some (Inr [[97]])" by code_simp
  from mrs_decode_exact [of Some sample_mrs] d obtain ds where "set [[97]] = {s. stored ds 0 0 [] s}" by auto
  then have "\<forall>s. stored ds 0 0 [] s \<longleftrightarrow> s = [97]" by auto
  with d show ?thesis by blast
qed

end
