(* ===== verification/Ruleset.thy ===== *)
theory Ruleset
  imports Domain Iprange Mrs_Correct
begin

text \<open>
  \<open>src/ruleset.rs\<close>: the database of rule-sets. The file system is a parameter: a function
  from paths to the contents a read returns. A path is its list of components. The lemmas say
  which names and addresses a loaded tag matches, in terms of the lines of its file, and
  that a partial reload gives the same database as a full one.
\<close>

section \<open>Paths\<close>

datatype path = Path (path_abs: bool) (path_comps: "bytes list")

definition path_parent :: "path \<Rightarrow> path option" where
  "path_parent p = (if path_comps p = [] then None else Some (Path (path_abs p) (butlast (path_comps p))))"

definition path_file_name :: "path \<Rightarrow> bytes option" where
  "path_file_name p =
     (if path_comps p = [] \<or> last (path_comps p) \<in> {str ''.'', str ''..''} then None else Some (last (path_comps p)))"

definition watch_parent :: "path \<Rightarrow> path" where
  "watch_parent p =
     (case path_parent p of
        Some q \<Rightarrow> if path_abs q \<or> path_comps q \<noteq> [] then q else Path False [str ''.'']
      | None \<Rightarrow> Path False [str ''.''])"

definition normalized_watch_path :: "path \<Rightarrow> path" where
  "normalized_watch_path p =
     (let d = watch_parent p
      in case path_file_name p of Some f \<Rightarrow> Path (path_abs d) (path_comps d @ [f]) | None \<Rightarrow> d)"

section \<open>Types\<close>

datatype RuleSetFormat = FormatText | FormatMrs

datatype RuleSetBehavior = BehaviorDomain | BehaviorIpCidr

record RuleSetSpec =
  rs_tag :: bytes
  rs_format :: RuleSetFormat
  rs_behavior :: RuleSetBehavior
  rs_path :: path

datatype 're TagEntry = DomainE "('re, unit) DomainMatcher" | IpCidrE IpRangeSet

record 're RuleSetDb =
  db_tags :: "(bytes \<times> 're TagEntry) list"

record AnswerIpMatcher =
  aim_include :: "bytes list"
  aim_exclude :: "bytes list"

text \<open>The operating system and the crates the loader calls.\<close>

record 're loader_env =
  le_read :: "path \<Rightarrow> bytes option"
  le_zstd :: "bytes \<Rightarrow> bytes option"
  le_regex :: "'re regex_ops"

section \<open>Reading a file\<close>

definition comment_line :: "bytes \<Rightarrow> bool" where
  "comment_line l \<longleftrightarrow> l = [] \<or> starts_with l (str ''#'') \<or> starts_with l (str ''//'')"

definition parse_text_lines :: "bytes \<Rightarrow> bytes list" where
  "parse_text_lines text = filter (\<lambda>l. \<not> comment_line l) (map trim (str_lines text))"

definition read_domain_patterns :: "'re loader_env \<Rightarrow> RuleSetSpec \<Rightarrow> bytes list res run" where
  "read_domain_patterns env spec =
     (case le_read env (rs_path spec) of
        None \<Rightarrow> Some (Inl ''read error'')
      | Some raw \<Rightarrow>
          (case rs_format spec of
             FormatMrs \<Rightarrow> decode_domain_patterns (le_zstd env) raw
           | FormatText \<Rightarrow>
               if utf8_valid raw then Some (Inr (parse_text_lines raw))
               else Some (Inl ''ruleset text file is not valid UTF-8'')))"

definition apply_domain_pattern ::
  "'re regex_ops \<Rightarrow> ('re, unit) DomainMatcher \<Rightarrow> bytes \<Rightarrow> ('re, unit) DomainMatcher \<times> bool" where
  "apply_domain_pattern rx m pat =
     (case classify_pattern rx pat of
        SuffixP n \<Rightarrow> (insert_suffix m n (), True)
      | FullP n \<Rightarrow> (insert_full m n (), True)
      | WildcardP re \<Rightarrow> (insert_regex m re (), True)
      | InvalidP \<Rightarrow> (m, False))"

fun cidr_lines_loop :: "IpRangeSetBuilder \<Rightarrow> bytes list \<Rightarrow> IpRangeSetBuilder res" where
  "cidr_lines_loop b [] = Inr b"
| "cidr_lines_loop b (line # lines) =
     (let line = trim line
      in if comment_line line then cidr_lines_loop b lines
         else case push_cidr_line b line of
                Inl e \<Rightarrow> Inl ''invalid CIDR''
              | Inr b \<Rightarrow> cidr_lines_loop b lines)"

definition build_ipcidr_set :: "'re loader_env \<Rightarrow> RuleSetSpec \<Rightarrow> IpRangeSet res" where
  "build_ipcidr_set env spec =
     (case rs_format spec of
        FormatMrs \<Rightarrow>
          (case le_read env (rs_path spec) of
             None \<Rightarrow> Inl ''read error''
           | Some raw \<Rightarrow>
               (case decode_ipcidr_ranges (le_zstd env) raw of
                  Inl e \<Rightarrow> Inl e
                | Inr rs \<Rightarrow> Inr (ip_build (push_all builder_default rs))))
      | FormatText \<Rightarrow>
          (case le_read env (rs_path spec) of
             None \<Rightarrow> Inl ''read error''
           | Some raw \<Rightarrow>
               if \<not> utf8_valid raw then Inl ''ruleset text file is not valid UTF-8''
               else (case cidr_lines_loop builder_default (str_lines raw) of
                       Inl e \<Rightarrow> Inl e
                     | Inr b \<Rightarrow> Inr (ip_build b))))"

section \<open>Loading\<close>

definition read_tag_entry :: "'re loader_env \<Rightarrow> RuleSetSpec \<Rightarrow> 're TagEntry res run" where
  "read_tag_entry env spec =
     (case rs_behavior spec of
        BehaviorDomain \<Rightarrow> do {
          r \<leftarrow> read_domain_patterns env spec;
          case r of
            Inl e \<Rightarrow> Some (Inl ''failed to load ruleset'')
          | Inr patterns \<Rightarrow>
              Some (Inr (DomainE (foldl (\<lambda>m p. fst (apply_domain_pattern (le_regex env) m p)) dm_default patterns))) }
      | BehaviorIpCidr \<Rightarrow>
          (case build_ipcidr_set env spec of
             Inl e \<Rightarrow> Some (Inl ''failed to load ruleset'')
           | Inr s \<Rightarrow> Some (Inr (IpCidrE s))))"

definition reused_entry :: "('re RuleSetDb \<times> path set) option \<Rightarrow> RuleSetSpec \<Rightarrow> 're TagEntry option" where
  "reused_entry reuse spec =
     (case reuse of
        Some (prev, changed_paths) \<Rightarrow>
          if normalized_watch_path (rs_path spec) \<notin> changed_paths then map_of (db_tags prev) (rs_tag spec) else None
      | None \<Rightarrow> None)"

fun load_specs :: "'re loader_env \<Rightarrow> bytes list \<Rightarrow> bytes list \<Rightarrow> ('re RuleSetDb \<times> path set) option
    \<Rightarrow> (bytes \<times> 're TagEntry) list \<Rightarrow> RuleSetSpec list \<Rightarrow> (bytes \<times> 're TagEntry) list res run" where
  "load_specs env domain_tags ipcidr_tags reuse tags [] = Some (Inr tags)"
| "load_specs env domain_tags ipcidr_tags reuse tags (spec # specs) =
     (if rs_tag spec \<notin> set domain_tags \<and> rs_tag spec \<notin> set ipcidr_tags
      then load_specs env domain_tags ipcidr_tags reuse tags specs
      else case reused_entry reuse spec of
        Some entry \<Rightarrow> load_specs env domain_tags ipcidr_tags reuse (AList.update (rs_tag spec) entry tags) specs
      | None \<Rightarrow> do {
          r \<leftarrow> read_tag_entry env spec;
          case r of
            Inl e \<Rightarrow> Some (Inl e)
          | Inr entry \<Rightarrow>
              load_specs env domain_tags ipcidr_tags reuse (AList.update (rs_tag spec) entry tags) specs })"

fun check_domain_tags :: "(bytes \<times> 're TagEntry) list \<Rightarrow> bytes list \<Rightarrow> unit res" where
  "check_domain_tags tags [] = Inr ()"
| "check_domain_tags tags (tag # rest) =
     (case map_of tags tag of
        None \<Rightarrow> Inl ''ruleset tag not found in any configured route.ruleset entry''
      | Some (IpCidrE _) \<Rightarrow> Inl ''ruleset tag has behavior=ipcidr, which cannot be used for domain-based tag matching''
      | Some (DomainE _) \<Rightarrow> check_domain_tags tags rest)"

fun check_ipcidr_tags :: "(bytes \<times> 're TagEntry) list \<Rightarrow> bytes list \<Rightarrow> unit res" where
  "check_ipcidr_tags tags [] = Inr ()"
| "check_ipcidr_tags tags (tag # rest) =
     (case map_of tags tag of
        None \<Rightarrow> Inl ''ruleset tag not found in any configured route.ruleset entry''
      | Some (DomainE _) \<Rightarrow> Inl ''ruleset tag has behavior=domain, which cannot be used for the IP-based fallback test''
      | Some (IpCidrE _) \<Rightarrow> check_ipcidr_tags tags rest)"

text \<open>The requested tags are lists: the order in which the hash sets are iterated.\<close>

definition ruleset_load :: "'re loader_env \<Rightarrow> RuleSetSpec list \<Rightarrow> bytes list \<Rightarrow> bytes list
    \<Rightarrow> ('re RuleSetDb \<times> path set) option \<Rightarrow> 're RuleSetDb res run" where
  "ruleset_load env specs domain_tags ipcidr_tags reuse =
     try_res (load_specs env domain_tags ipcidr_tags reuse [] specs) (\<lambda>tags.
       case check_domain_tags tags domain_tags of
         Inl e \<Rightarrow> Some (Inl e)
       | Inr _ \<Rightarrow>
           (case check_ipcidr_tags tags ipcidr_tags of
              Inl e \<Rightarrow> Some (Inl e)
            | Inr _ \<Rightarrow> Some (Inr \<lparr>db_tags = tags\<rparr>)))"

section \<open>Queries\<close>

definition rs_matches :: "'re regex_ops \<Rightarrow> 're RuleSetDb \<Rightarrow> bytes \<Rightarrow> bytes \<Rightarrow> bool" where
  "rs_matches rx db tag domain =
     (case map_of (db_tags db) tag of
        Some (DomainE m) \<Rightarrow> lookup_specific m domain \<noteq> None \<or> lookup_fuzzy rx m domain \<noteq> None
      | _ \<Rightarrow> False)"

definition matches_ip :: "'re RuleSetDb \<Rightarrow> bytes \<Rightarrow> IpAddr \<Rightarrow> bool" where
  "matches_ip db tag ip =
     (case map_of (db_tags db) tag of Some (IpCidrE s) \<Rightarrow> contains s ip | _ \<Rightarrow> False)"

definition matches_any_ip :: "'re RuleSetDb \<Rightarrow> bytes \<Rightarrow> IpAddr list \<Rightarrow> bool" where
  "matches_any_ip db tag ips = list_ex (matches_ip db tag) ips"

definition matches_answer_ip :: "'re RuleSetDb \<Rightarrow> AnswerIpMatcher \<Rightarrow> IpAddr list \<Rightarrow> bool" where
  "matches_answer_ip db m ips =
     (let include_ok = aim_include m = [] \<or> list_ex (\<lambda>tag. matches_any_ip db tag ips) (aim_include m);
          exclude_ok = \<not> list_ex (\<lambda>tag. matches_any_ip db tag ips) (aim_exclude m)
      in include_ok \<and> exclude_ok)"

definition tag_counts :: "'re RuleSetDb \<Rightarrow> (bytes \<times> nat) list" where
  "tag_counts db =
     map (\<lambda>(k, v). (k, case v of DomainE m \<Rightarrow> dm_len m | IpCidrE s \<Rightarrow> ir_len s)) (db_tags db)"

section \<open>What a pattern matches\<close>

text \<open>
  The conventions of the pattern text, on labels: \<open>+.d\<close> and \<open>.d\<close> match the domain \<open>d\<close> and
  everything below it, a pattern with a \<open>*\<close> label matches label by label, anything else
  matches the normalised name itself.
\<close>

definition names_of_pattern :: "'re regex_ops \<Rightarrow> bytes \<Rightarrow> bytes \<Rightarrow> bool" where
  "names_of_pattern rx pat q =
     (if starts_with pat (str ''+.'') then (\<exists>d. normalize_domain (drop 2 pat) = Some d \<and> sub_of q d)
      else if starts_with pat (str ''.'') then (\<exists>d. normalize_domain (drop 1 pat) = Some d \<and> sub_of q d)
      else if wildcard_domain_regex rx pat \<noteq> None then wildcard_match (split_dots pat) (split_dots q)
      else normalize_domain pat = Some q)"

lemma kind_hits_pattern:
  assumes "regex_laws rx"
  shows "kind_hits rx (classify_pattern rx pat) q \<longleftrightarrow> names_of_pattern rx pat q"
proof -
  have "length (str ''+.'') = 2" "length (str ''.'') = 1" by (simp_all add: str_def)
  then show ?thesis
    using wildcard_regex_match [OF assms, of pat _ q]
    by (auto simp: classify_pattern_def names_of_pattern_def strip_prefix_def starts_with_def kind_hits_def
        split: option.splits)
qed

lemma apply_domain_pattern_add:
  "fst (apply_domain_pattern rx m pat) = dm_add m (classify_pattern rx pat)"
  by (simp add: apply_domain_pattern_def dm_add_def split: PatternKind.splits)

lemma patterns_hit:
  assumes "regex_laws rx"
  shows "dm_hit rx (foldl (\<lambda>m p. fst (apply_domain_pattern rx m p)) dm_default pats) q \<longleftrightarrow>
    (\<exists>p\<in>set pats. names_of_pattern rx p q)"
proof -
  have "foldl (\<lambda>m p. fst (apply_domain_pattern rx m p)) dm_default pats =
      foldl dm_add dm_default (map (classify_pattern rx) pats)"
    by (simp add: apply_domain_pattern_add foldl_map)
  then show ?thesis using dm.hit_all [of rx "map (classify_pattern rx) pats" q] kind_hits_pattern [OF assms] by simp
qed

lemma cidr_lines_builder:
  assumes "cidr_lines_loop b lines = Inr b'" and "list_all (\<lambda>(f, t). f \<le> t) (ib_ranges b)"
  shows "\<exists>cs. map cidr_of (filter (\<lambda>l. \<not> comment_line l) (map trim lines)) = map Some cs \<and>
    b' = push_all b (map cidr_range cs)"
  using assms
proof (induction b lines rule: cidr_lines_loop.induct)
  case (1 b)
  then show ?case by (simp add: push_all_def)
next
  case (2 b line lines)
  show ?case
  proof (cases "comment_line (trim line)")
    case True
    with 2 show ?thesis by (simp add: Let_def)
  next
    case False
    with 2(3) obtain c where c: "cidr_of (trim line) = Some c"
      using parse_cidr_range_eq [of "trim line"]
      by (auto simp: Let_def push_cidr_line_def split: option.splits)
    obtain f t where ft: "cidr_range c = (f, t)" by (cases "cidr_range c")
    then have p: "push_cidr_line b (trim line) = Inr (push_range b f t)"
      using parse_cidr_range_eq [of "trim line"] c by (simp add: push_cidr_line_def)
    have "list_all (\<lambda>(f, t). f \<le> t) (ib_ranges (push_range b f t))"
      using 2(4) by (simp add: push_range_def)
    then obtain cs where "map cidr_of (filter (\<lambda>l. \<not> comment_line l) (map trim lines)) = map Some cs"
      "b' = push_all (push_range b f t) (map cidr_range cs)"
      using 2(2) [OF refl False p] 2(3) False p by (auto simp: Let_def)
    then show ?thesis using False c ft by (intro exI [of _ "c # cs"]) (simp add: push_all_def)
  qed
qed

lemma cidr_lines_contains:
  assumes "cidr_lines_loop builder_default lines = Inr b"
  shows "contains (ip_build b) ip \<longleftrightarrow>
    (\<exists>l\<in>set lines. \<not> comment_line (trim l) \<and> (\<exists>c. cidr_of (trim l) = Some c \<and> in_prefix c (to_u128 ip)))"
proof -
  obtain cs where cs: "map cidr_of (filter (\<lambda>l. \<not> comment_line l) (map trim lines)) = map Some cs"
    and b: "b = push_all builder_default (map cidr_range cs)"
    using cidr_lines_builder [OF assms] by (auto simp: builder_default_def)
  have "contains (ip_build b) ip \<longleftrightarrow> (\<exists>c\<in>set cs. in_prefix c (to_u128 ip))"
    using ipr.hit_all [of "map cidr_range cs" ip]
    by (simp add: b push_all_def case_prod_unfold cidr_range_prefix)
  also have "\<dots> \<longleftrightarrow> (\<exists>x\<in>set (map Some cs). \<exists>c. x = Some c \<and> in_prefix c (to_u128 ip))" by auto
  also have "\<dots> \<longleftrightarrow> (\<exists>l\<in>set lines. \<not> comment_line (trim l) \<and> (\<exists>c. cidr_of (trim l) = Some c \<and> in_prefix c (to_u128 ip)))"
    unfolding cs [symmetric] by auto
  finally show ?thesis .
qed

section \<open>Loading\<close>

definition requested :: "bytes list \<Rightarrow> bytes list \<Rightarrow> RuleSetSpec \<Rightarrow> bool" where
  "requested dts its spec \<longleftrightarrow> rs_tag spec \<in> set dts \<or> rs_tag spec \<in> set its"

lemma load_specs_entries:
  assumes "load_specs env dts its None tags specs = Some (Inr tags')" and "distinct (map rs_tag specs)"
  shows "(\<forall>spec\<in>set specs. requested dts its spec \<longrightarrow>
      (\<exists>e. read_tag_entry env spec = Some (Inr e) \<and> map_of tags' (rs_tag spec) = Some e)) \<and>
    (\<forall>t. t \<notin> rs_tag ` {spec \<in> set specs. requested dts its spec} \<longrightarrow> map_of tags' t = map_of tags t)"
  using assms
proof (induction specs arbitrary: tags)
  case (Cons spec specs)
  note req = requested_def [of dts its]
  show ?case
  proof (cases "requested dts its spec")
    case False
    with Cons.prems have l: "load_specs env dts its None tags specs = Some (Inr tags')" by (simp add: req)
    from Cons.IH [OF l] Cons.prems(2) False show ?thesis by auto
  next
    case True
    with Cons.prems obtain e where e: "read_tag_entry env spec = Some (Inr e)"
      and l: "load_specs env dts its None (AList.update (rs_tag spec) e tags) specs = Some (Inr tags')"
      by (auto simp: req reused_entry_def bind_case_Inr split: if_splits)
    note IH = Cons.IH [OF l]
    have "rs_tag spec \<notin> rs_tag ` {s \<in> set specs. requested dts its s}" using Cons.prems(2) by auto
    with IH Cons.prems(2) have "map_of tags' (rs_tag spec) = Some e" by (auto simp: update_conv')
    moreover have "rs_tag ` {s \<in> set (spec # specs). requested dts its s} =
        insert (rs_tag spec) (rs_tag ` {s \<in> set specs. requested dts its s})"
      using True by auto
    ultimately show ?thesis using IH e Cons.prems(2) by (simp add: update_conv')
  qed
qed simp

lemma load_specs_reuse:
  assumes "\<forall>spec\<in>set specs. \<forall>e. requested dts its spec \<longrightarrow> reused_entry reuse spec = Some e \<longrightarrow>
    read_tag_entry env spec = Some (Inr e)"
  shows "load_specs env dts its reuse tags specs = load_specs env dts its None tags specs"
  using assms
proof (induction specs arbitrary: tags)
  case (Cons spec specs)
  have IH: "load_specs env dts its reuse tags specs = load_specs env dts its None tags specs" for tags
    using Cons by simp
  have "read_tag_entry env spec = Some (Inr e)" if "requested dts its spec" "reused_entry reuse spec = Some e" for e
    using Cons.prems that by simp
  then show ?case
    by (cases "reused_entry reuse spec") (auto simp: requested_def IH reused_entry_def [of None])
qed simp

lemma check_tags_ok:
  "check_domain_tags tags dts = Inr () \<longleftrightarrow> (\<forall>t\<in>set dts. \<exists>m. map_of tags t = Some (DomainE m))"
  "check_ipcidr_tags tags its = Inr () \<longleftrightarrow> (\<forall>t\<in>set its. \<exists>s. map_of tags t = Some (IpCidrE s))"
proof -
  show "check_domain_tags tags dts = Inr () \<longleftrightarrow> (\<forall>t\<in>set dts. \<exists>m. map_of tags t = Some (DomainE m))"
    by (induction dts) (auto split: option.splits TagEntry.splits)
  show "check_ipcidr_tags tags its = Inr () \<longleftrightarrow> (\<forall>t\<in>set its. \<exists>s. map_of tags t = Some (IpCidrE s))"
    by (induction its) (auto split: option.splits TagEntry.splits)
qed

lemma case_unit_Inr:
  "(case s of Inl e \<Rightarrow> Some (Inl e) | Inr _ \<Rightarrow> y) = Some (Inr x) \<longleftrightarrow> s = Inr () \<and> y = Some (Inr x)"
  for s :: "unit res"
  by (cases s) auto

lemma ruleset_load_ok:
  "ruleset_load env specs dts its reuse = Some (Inr db) \<longleftrightarrow>
     load_specs env dts its reuse [] specs = Some (Inr (db_tags db)) \<and>
     (\<forall>t\<in>set dts. \<exists>m. map_of (db_tags db) t = Some (DomainE m)) \<and>
     (\<forall>t\<in>set its. \<exists>s. map_of (db_tags db) t = Some (IpCidrE s))"
  unfolding ruleset_load_def try_res_Inr check_tags_ok [symmetric] case_unit_Inr by auto

lemma read_tag_entry_total: "\<exists>r. read_tag_entry env spec = Some r"
proof -
  have "\<exists>r. read_domain_patterns env spec = Some r"
    using mrs_decode_total by (auto simp: read_domain_patterns_def split: option.splits RuleSetFormat.splits)
  then show ?thesis by (auto simp: read_tag_entry_def split: RuleSetBehavior.splits sum.splits)
qed

section \<open>Properties\<close>


definition domain_spec :: RuleSetSpec where
  "domain_spec = \<lparr>rs_tag = str ''d'', rs_format = FormatText, rs_behavior = BehaviorDomain,
     rs_path = Path False [str ''d.list'']\<rparr>"

definition ip_spec :: RuleSetSpec where
  "ip_spec = \<lparr>rs_tag = str ''i'', rs_format = FormatText, rs_behavior = BehaviorIpCidr,
     rs_path = Path False [str ''i.list'']\<rparr>"

definition sample_env :: "rx_token list loader_env" where
  "sample_env = \<lparr>le_read = (\<lambda>p. if p = rs_path domain_spec then Some (str ''+.cn'' @ [10] @ str ''*.b'')
       else if p = rs_path ip_spec then Some (str ''10.0.0.0/8'') else None),
     le_zstd = Some, le_regex = label_regex\<rparr>"

definition sample_db :: "rx_token list RuleSetDb" where
  "sample_db = \<lparr>db_tags =
     [(str ''d'', DomainE \<lparr>dm_full = [], dm_suffix = [(str ''cn'', ())],
         dm_regex = [([TLabel, TByte 46, TByte 98], ())]\<rparr>),
      (str ''i'', IpCidrE \<lparr>ir_ranges = [(0xffff0a000000, 0xffff0affffff)]\<rparr>)]\<rparr>"

lemma sample_load:
  "ruleset_load sample_env [domain_spec, ip_spec] [str ''d''] [str ''i''] None = Some (Inr sample_db)"
  by code_simp

lemma sample_tags: "distinct (map rs_tag [domain_spec, ip_spec])"
  by code_simp


lemma read_tag_entry_cong:
  assumes "fs (rs_path spec) = le_read env (rs_path spec)"
  shows "read_tag_entry (env\<lparr>le_read := fs\<rparr>) spec = read_tag_entry env spec"
  using assms
  by (cases "rs_behavior spec"; cases "rs_format spec"; cases "le_read env (rs_path spec)")
    (simp_all add: read_tag_entry_def read_domain_patterns_def build_ipcidr_set_def)

lemma ruleset_load_cong:
  assumes "\<And>spec. spec \<in> set specs \<Longrightarrow> fs (rs_path spec) = le_read env (rs_path spec)"
  shows "ruleset_load (env\<lparr>le_read := fs\<rparr>) specs dts its reuse = ruleset_load env specs dts its reuse"
proof -
  have "load_specs (env\<lparr>le_read := fs\<rparr>) dts its reuse tags specs = load_specs env dts its reuse tags specs" for tags
    using assms by (induction specs arbitrary: tags) (simp_all add: read_tag_entry_cong cong: option.case_cong sum.case_cong)
  then show ?thesis by (simp only: ruleset_load_def)
qed

lemma partial_load_eq:
  assumes prev: "ruleset_load env specs dts its None = Some (Inr prev)"
    and tags: "distinct (map rs_tag specs)"
    and same: "\<And>spec. spec \<in> set specs \<Longrightarrow> normalized_watch_path (rs_path spec) \<notin> changed \<Longrightarrow>
      fs (rs_path spec) = le_read env (rs_path spec)"
  shows "ruleset_load (env\<lparr>le_read := fs\<rparr>) specs dts' its' (Some (prev, changed)) =
    ruleset_load (env\<lparr>le_read := fs\<rparr>) specs dts' its' None"
proof -
  note ok = prev [unfolded ruleset_load_ok]
  note entries = load_specs_entries [OF conjunct1 [OF ok] tags]
  have "read_tag_entry (env\<lparr>le_read := fs\<rparr>) spec = Some (Inr e)"
    if spec: "spec \<in> set specs" and e: "reused_entry (Some (prev, changed)) spec = Some e" for spec e
  proof -
    from e have nc: "normalized_watch_path (rs_path spec) \<notin> changed"
      and m: "map_of (db_tags prev) (rs_tag spec) = Some e"
      by (auto simp: reused_entry_def split: if_splits)
    have "requested dts its spec"
    proof (rule ccontr)
      assume "\<not> requested dts its spec"
      moreover have "s = spec" if "s \<in> set specs" "rs_tag s = rs_tag spec" for s
        using that spec tags by (simp add: distinct_map inj_on_def)
      ultimately have "rs_tag spec \<notin> rs_tag ` {s \<in> set specs. requested dts its s}" by auto
      with entries m show False by simp
    qed
    with entries spec m have "read_tag_entry env spec = Some (Inr e)" by auto
    then show ?thesis using read_tag_entry_cong [of fs spec env, OF same [OF spec nc]] by simp
  qed
  then show ?thesis unfolding ruleset_load_def by (subst load_specs_reuse) simp_all
qed

text \<open>
  A partial reload is a full reload: when every file whose normalised path is not among the
  changed ones still has the contents from which the previous database was loaded, loading with
  reuse gives the same result as loading everything again, errors included, for any
  set of requested tags.
\<close>

theorem partial_reload_exact:
  assumes prev: "ruleset_load env specs dts its None = Some (Inr prev)"
    and tags: "distinct (map rs_tag specs)"
    and same: "\<And>spec. spec \<in> set specs \<Longrightarrow> normalized_watch_path (rs_path spec) \<notin> changed \<Longrightarrow>
      fs (rs_path spec) = le_read env (rs_path spec)"
  shows "ruleset_load (env\<lparr>le_read := fs\<rparr>) specs dts' its' (Some (prev, changed)) =
    ruleset_load (env\<lparr>le_read := fs\<rparr>) specs dts' its' None"
  by (rule partial_load_eq [OF assms])

end
