(* ===== verification/Response_Filter.thy ===== *)
theory Response_Filter
  imports Ruleset Dns_Ttl
begin

text \<open>
  \<open>src/response_filter.rs\<close>: the post-response filters of a rule. The criteria of a filter are
  conditions on the resolved response; the first filter whose criteria all hold decides.
\<close>

section \<open>Definitions\<close>

datatype FilterAction = Accept | Drop | Forward nat

record ResponseFilter =
  rf_answer_ip :: AnswerIpMatcher
  rf_response_type :: "u16 list"
  rf_response_rcode :: "u8 list"
  rf_response_qclass :: "u16 list"
  rf_action :: FilterAction

definition aim_is_empty :: "AnswerIpMatcher \<Rightarrow> bool" where
  "aim_is_empty m \<longleftrightarrow> aim_include m = [] \<and> aim_exclude m = []"

definition rf_matches :: "ResponseFilter \<Rightarrow> 're RuleSetDb option \<Rightarrow> bytes \<Rightarrow> nat \<Rightarrow> bool run" where
  "rf_matches f ruleset resp qe = do {
     ip_ok \<leftarrow> (if aim_is_empty (rf_answer_ip f) then Some True
              else do {
                ips \<leftarrow> answer_ips resp qe;
                Some (case ruleset of None \<Rightarrow> False | Some rs \<Rightarrow> matches_answer_ip rs (rf_answer_ip f) ips) });
     if \<not> ip_ok then Some False
     else do {
       type_ok \<leftarrow> (if rf_response_type f = [] then Some True
                  else do {
                    types \<leftarrow> answer_rr_types resp qe;
                    Some (list_ex (\<lambda>t. t \<in> set (rf_response_type f)) types) });
       if \<not> type_ok then Some False
       else if rf_response_rcode f \<noteq> [] \<and> rcode resp \<notin> set (rf_response_rcode f) then Some False
       else if rf_response_qclass f = [] then Some True
       else do {
         qc \<leftarrow> question_qclass resp qe;
         Some ((case qc of Some c \<Rightarrow> c | None \<Rightarrow> 0) \<in> set (rf_response_qclass f)) } } }"

fun first_match_from :: "nat \<Rightarrow> ResponseFilter list \<Rightarrow> 're RuleSetDb option \<Rightarrow> bytes \<Rightarrow> nat
    \<Rightarrow> (nat \<times> ResponseFilter) option run" where
  "first_match_from i [] ruleset resp qe = Some None"
| "first_match_from i (f # fs) ruleset resp qe = do {
     m \<leftarrow> rf_matches f ruleset resp qe;
     if m then Some (Some (i, f)) else first_match_from (i + 1) fs ruleset resp qe }"

definition first_match ::
  "ResponseFilter list \<Rightarrow> 're RuleSetDb option \<Rightarrow> bytes \<Rightarrow> nat \<Rightarrow> (nat \<times> ResponseFilter) option run" where
  "first_match filters ruleset resp qe = first_match_from 0 filters ruleset resp qe"

section \<open>The first filter whose criteria hold decides\<close>

text \<open>What the criteria of a filter say of the facts read from a response.\<close>

definition criteria_hold ::
  "ResponseFilter \<Rightarrow> 're RuleSetDb option \<Rightarrow> IpAddr list \<Rightarrow> u16 list \<Rightarrow> u8 \<Rightarrow> u16 \<Rightarrow> bool" where
  "criteria_hold f ruleset ips types rc qclass \<longleftrightarrow>
     (aim_is_empty (rf_answer_ip f) \<or> (\<exists>rs. ruleset = Some rs \<and> matches_answer_ip rs (rf_answer_ip f) ips)) \<and>
     (rf_response_type f = [] \<or> set types \<inter> set (rf_response_type f) \<noteq> {}) \<and>
     (rf_response_rcode f = [] \<or> rc \<in> set (rf_response_rcode f)) \<and>
     (rf_response_qclass f = [] \<or> qclass \<in> set (rf_response_qclass f))"

lemma rf_matches_criteria:
  assumes "answer_ips resp qe = Some ips" "answer_rr_types resp qe = Some types" "question_qclass resp qe = Some qc"
  shows "rf_matches f ruleset resp qe
     = Some (criteria_hold f ruleset ips types (rcode resp) (case qc of Some c \<Rightarrow> c | None \<Rightarrow> 0))"
  using assms by (auto simp: rf_matches_def criteria_hold_def list_ex_iff split: option.splits)

lemma first_match_from_index:
  assumes "\<And>f. rf_matches f ruleset resp qe = Some (P f)"
  shows "first_match_from k fs ruleset resp qe
     = Some (case filter (\<lambda>i. P (fs ! i)) [0..<length fs] of [] \<Rightarrow> None | i # _ \<Rightarrow> Some (k + i, fs ! i))"
proof (induction fs arbitrary: k)
  case (Cons f fs)
  have "filter (\<lambda>i. P ((f # fs) ! i)) [0..<length (f # fs)]
      = (if P f then [0] else []) @ map Suc (filter (\<lambda>i. P (fs ! i)) [0..<length fs])"
    by (simp add: upt_conv_Cons filter_map comp_def del: upt_Suc flip: map_Suc_upt)
  then show ?case
    by (auto simp: assms Cons.IH split: list.splits)
qed (simp)

text \<open>
  (C38) Filters never panic, on any response and any list of filters. The one that decides is the
  first in list order whose criteria all hold of the addresses, record types, response code and
  question class read from the response; with its position, which names the filter's ipset.
\<close>

theorem first_match_decides:
  "\<exists>ips types qc. answer_ips resp qe = Some ips \<and> answer_rr_types resp qe = Some types \<and> question_qclass resp qe = Some qc \<and>
     first_match fs ruleset resp qe
     = Some (case filter (\<lambda>i. criteria_hold (fs ! i) ruleset ips types (rcode resp) (case qc of Some c \<Rightarrow> c | None \<Rightarrow> 0))
                    [0..<length fs] of
               [] \<Rightarrow> None
             | i # _ \<Rightarrow> Some (i, fs ! i))"
proof -
  obtain ips types qc where eqs: "answer_ips resp qe = Some ips" "answer_rr_types resp qe = Some types"
      "question_qclass resp qe = Some qc"
    using answer_walks_total by blast
  show ?thesis
    by (rule exI [of _ ips], rule exI [of _ types], rule exI [of _ qc])
      (simp add: eqs first_match_def first_match_from_index [OF rf_matches_criteria [OF eqs]] split: list.split)
qed

end
