(* ===== verification/Config.thy ===== *)
theory Config
  imports Cache Response_Filter
begin

text \<open>
  \<open>src/config/mod.rs\<close>: the configuration as the server uses it, after parsing, and the
  functions of that file that only read it: the views passed to the cache and to the upstream
  pools, the anchoring of relative paths and the command line.
\<close>

section \<open>Types\<close>

text \<open>\<open>std::net::SocketAddr\<close>; the scope is that of an IPv6 address and 0 otherwise.\<close>

datatype SocketAddr = SocketAddr (sa_ip: IpAddr) (sa_port: u16) (sa_scope: u32)

text \<open>A \<open>Duration\<close> is a number of milliseconds.\<close>

type_synonym duration = nat

datatype FixedAnswer = AnswerA u32 u32 | AnswerAaaa u128 u32

record FixedAnswerSet =
  fa_rcode :: "u8 option"
  fa_rcode_ttl :: u32
  fa_answers :: "FixedAnswer list"

definition DEFAULT_ANSWER_TTL :: u32 where
  "DEFAULT_ANSWER_TTL = 60"

datatype EcsMode = EcsStrip | EcsForward | EcsFixed EcsSubnet

datatype UdpDiagnostics = DiagOff | DiagBasic | DiagFull

record UpstreamConfig =
  uc_timeout :: duration
  uc_udp_sockets :: nat
  uc_udp_buf_size :: nat
  uc_upstream_max_inflight :: nat
  uc_hedge_delay :: "duration option"
  uc_upstream_max_response_bytes :: nat

datatype UpstreamProto = ProtoUdp | ProtoTcp | ProtoTls | ProtoHttps | ProtoQuic | ProtoH3

record UpstreamEndpoint =
  ep_proto :: UpstreamProto
  ep_addr :: SocketAddr
  ep_server_name :: "bytes option"
  ep_path :: "bytes option"
  ep_no_sni :: bool
  ep_ecs_mode :: "EcsMode option"
  ep_mark :: "u32 option"

datatype ServerSpec = SpecUpstream "UpstreamEndpoint list" | SpecFixed FixedAnswerSet

datatype RuleMatcher = MatchDomain bytes | MatchTag (rm_include: "bytes list") (rm_exclude: "bytes list")

datatype RuleFilterActionSpec = AcceptSpec | DropSpec | ForwardSpec bytes

record RuleFilterSpec =
  fs_answer_ip :: AnswerIpMatcher
  fs_response_type :: "u16 list"
  fs_response_rcode :: "u8 list"
  fs_response_qclass :: "u16 list"
  fs_action :: RuleFilterActionSpec
  fs_add_ip :: "bytes option"

record RuleSpec =
  sp_matcher :: "RuleMatcher list"
  sp_server :: bytes
  sp_cache_policy :: "RuleCachePolicy option"
  sp_filters :: "RuleFilterSpec list"

record IpSetConfig =
  ic_add_rules :: "(nat \<times> nat \<times> bytes \<times> bool) list"

record VerdictCacheConfig =
  vcc_capacity :: nat
  vcc_ttl :: duration

datatype FallbackTarget =
    LastRule
  | FinalServer bytes
  | Dual (dual_primary: bytes) (dual_secondary: bytes) (dual_answer_ip: AnswerIpMatcher)

record FallbackConfig =
  fb_target :: FallbackTarget
  fb_noip_as_primary_ip :: bool

record DashboardFileConfig =
  df_dir :: path
  df_max_mb :: nat
  df_max_segments :: nat
  df_batch_size :: nat
  df_flush_interval_ms :: nat
  df_retention_days :: "nat option"
  df_compress :: bool

record DashboardConfig =
  db_enabled :: bool
  db_bind :: "(SocketAddr \<times> bytes option) list"
  db_token :: "bytes option"
  db_memory :: nat
  db_channel :: nat
  db_file :: "DashboardFileConfig option"

datatype InterfaceFilter = IfAll | IfOnly "bytes list" | IfExcept "bytes list"

record BindEndpoint =
  be_addr :: SocketAddr
  be_udp :: bool
  be_tcp :: bool

record Config =
  cf_bind :: "BindEndpoint list"
  cf_interface :: InterfaceFilter
  cf_timeout :: duration
  cf_max_inflight :: nat
  cf_inflight_queue_ms :: nat
  cf_worker_threads :: nat
  cf_fallback :: FallbackConfig
  cf_cache_size :: nat
  cf_cache_min_ttl :: u32
  cf_cache_max_ttl :: u32
  cf_cache_persist_path :: "path option"
  cf_cache_persist_interval :: nat
  cf_udp_buf_size :: nat
  cf_uring_recv_buffers :: nat
  cf_udp_diagnostics :: UdpDiagnostics
  cf_upstream_udp_sockets :: nat
  cf_tcp_max_connections :: nat
  cf_tcp_read_timeout_ms :: nat
  cf_tcp_idle_timeout_ms :: nat
  cf_dashboard :: DashboardConfig
  cf_servers :: "(bytes \<times> ServerSpec) list"
  cf_rules :: "RuleSpec list"
  cf_ipset :: "IpSetConfig option"
  cf_verdict_cache :: "VerdictCacheConfig option"
  cf_ruleset_specs :: "RuleSetSpec list"
  cf_upstream_max_inflight :: nat
  cf_hedge_delay :: "duration option"
  cf_upstream_max_response_bytes :: nat

section \<open>Views of the configuration\<close>

definition cache_config :: "Config \<Rightarrow> CacheConfig" where
  "cache_config cfg =
     \<lparr>cfg_capacity = cf_cache_size cfg, cfg_min_ttl = cf_cache_min_ttl cfg, cfg_max_ttl = cf_cache_max_ttl cfg\<rparr>"

definition upstream_config :: "Config \<Rightarrow> UpstreamConfig" where
  "upstream_config cfg =
     \<lparr>uc_timeout = cf_timeout cfg, uc_udp_sockets = cf_upstream_udp_sockets cfg,
      uc_udp_buf_size = cf_udp_buf_size cfg, uc_upstream_max_inflight = cf_upstream_max_inflight cfg,
      uc_hedge_delay = cf_hedge_delay cfg, uc_upstream_max_response_bytes = cf_upstream_max_response_bytes cfg\<rparr>"

section \<open>Paths\<close>

text \<open>\<open>Path::join\<close> on component lists: an absolute right side replaces the left one.\<close>

definition path_join :: "path \<Rightarrow> path \<Rightarrow> path" where
  "path_join p q = (if path_abs q then q else Path (path_abs p) (path_comps p @ path_comps q))"

definition anchor :: "path \<Rightarrow> path \<Rightarrow> path" where
  "anchor base p = (if \<not> path_abs p then path_join base p else p)"

definition anchor_paths :: "path \<Rightarrow> Config \<Rightarrow> Config" where
  "anchor_paths base cfg = cfg\<lparr>
     cf_ruleset_specs := map (\<lambda>spec. spec\<lparr>rs_path := anchor base (rs_path spec)\<rparr>) (cf_ruleset_specs cfg),
     cf_cache_persist_path := map_option (anchor base) (cf_cache_persist_path cfg),
     cf_dashboard := (cf_dashboard cfg)\<lparr>
       db_file := map_option (\<lambda>f. f\<lparr>df_dir := anchor base (df_dir f)\<rparr>) (db_file (cf_dashboard cfg))\<rparr>\<rparr>"

text \<open>\<open>cwd\<close> is what \<open>std::env::current_dir\<close> returns.\<close>

definition config_base_dir :: "path option \<Rightarrow> path \<Rightarrow> path" where
  "config_base_dir cwd config_path =
     (let abs = (if path_abs config_path then config_path
                 else path_join (case cwd of Some d \<Rightarrow> d | None \<Rightarrow> Path False [str ''.'']) config_path)
      in case path_parent abs of Some p \<Rightarrow> p | None \<Rightarrow> Path True [])"

section \<open>Command line\<close>

datatype cli = CliConfig bytes | CliHelp

text \<open>\<open>args\<close> are the arguments from index \<open>i\<close> on; \<open>-h\<close> prints the help and exits.\<close>

fun parse_cli_loop :: "bytes option \<Rightarrow> bytes list \<Rightarrow> cli res" where
  "parse_cli_loop config [] =
     (case config of None \<Rightarrow> Inl ''configuration file not specified'' | Some p \<Rightarrow> Inr (CliConfig p))"
| "parse_cli_loop config (arg # args) =
     (if arg = str ''-c'' then
        (case args of [] \<Rightarrow> Inl ''-c requires a config file path'' | path # args \<Rightarrow> parse_cli_loop (Some path) args)
      else if arg = str ''-h'' \<or> arg = str ''--help'' then Inr CliHelp
      else Inl ''unknown option'')"

definition parse_cli :: "bytes list \<Rightarrow> cli res" where
  "parse_cli args = parse_cli_loop None (drop 1 args)"

section \<open>Anchored paths do not depend on the working directory\<close>

definition config_paths :: "Config \<Rightarrow> path list" where
  "config_paths cfg =
     map rs_path (cf_ruleset_specs cfg) @
     (case cf_cache_persist_path cfg of None \<Rightarrow> [] | Some p \<Rightarrow> [p]) @
     (case db_file (cf_dashboard cfg) of None \<Rightarrow> [] | Some f \<Rightarrow> [df_dir f])"

lemma anchor_absolute: "path_abs base \<Longrightarrow> path_abs (anchor base p)"
  by (simp add: anchor_def path_join_def)

lemma anchor_idem: "path_abs base \<Longrightarrow> anchor base' (anchor base p) = anchor base p"
  by (simp add: anchor_absolute anchor_def [of base'])

lemma config_base_dir_absolute:
  assumes "path_abs config_path \<or> (\<exists>d. cwd = Some d \<and> path_abs d)"
  shows "path_abs (config_base_dir cwd config_path)"
  using assms by (auto simp: config_base_dir_def path_join_def path_parent_def Let_def split: option.splits if_splits)

lemma anchored_paths_absolute:
  assumes "path_abs base"
  shows "list_all path_abs (config_paths (anchor_paths base cfg))"
  using anchor_absolute [OF assms]
  by (auto simp: config_paths_def anchor_paths_def list_all_iff split: option.splits)

lemma anchor_paths_again:
  assumes "path_abs base"
  shows "anchor_paths base' (anchor_paths base cfg) = anchor_paths base cfg"
  by (simp add: anchor_paths_def comp_def anchor_idem [OF assms] option.map_comp)

end
