(* ===== verification/Route_Index.thy ===== *)
theory Route_Index
  imports Config
begin

text \<open>
  \<open>src/route_index.rs\<close>, with the \<open>Server\<close> and \<open>Rule\<close> of \<open>src/server.rs\<close> it indexes: the
  precompiled routing index. The rules are compiled into domain matchers and groups of
  interned tags; tag lookups are memoised in two bits per tag, decisions in a bounded
  map. The lemmas say that all of this decides like a plain scan for the first rule that
  matches.
\<close>

section \<open>Servers and rules\<close>

text \<open>\<open>'p\<close> is the type of upstream connection pools.\<close>

datatype 'p ServerKind = KindUpstream 'p | KindFixed FixedAnswerSet

record 'p Server =
  sv_name :: bytes
  sv_final_name :: bytes
  sv_index :: nat
  sv_kind :: "'p ServerKind"
  sv_strip_ecs :: bool

record 'p Rule =
  ru_index :: nat
  ru_server :: bytes
  ru_kind :: "'p ServerKind"
  ru_cache_policy :: ResolvedCachePolicy
  ru_filters :: "ResponseFilter list"
  ru_matcher :: "RuleMatcher list"
  ru_strip_ecs :: bool

section \<open>Memoised tag lookups\<close>

definition USIZE_MAX :: nat where
  "USIZE_MAX = 2 ^ 64 - 1"

definition ROUTE_CACHE_MIN_CAPACITY :: nat where
  "ROUTE_CACHE_MIN_CAPACITY = 4096"

record TagMemoChunk =
  mc_seen :: u64
  mc_matched :: u64

type_synonym TagMemo = "TagMemoChunk list"

definition memo_new :: "nat \<Rightarrow> TagMemo" where
  "memo_new num_tags = replicate ((num_tags + 63) div 64) \<lparr>mc_seen = 0, mc_matched = 0\<rparr>"

definition memo_check ::
  "'re regex_ops \<Rightarrow> TagMemo \<Rightarrow> 're RuleSetDb \<Rightarrow> u16 \<Rightarrow> bytes \<Rightarrow> bytes \<Rightarrow> bool \<times> TagMemo" where
  "memo_check rx memo rs tag_id tag_name qname =
     (let i = unat tag_id; chunk_idx = i div 64; b = i mod 64
      in if chunk_idx < length memo \<and> bit (mc_seen (memo ! chunk_idx)) b
         then (bit (mc_matched (memo ! chunk_idx)) b, memo)
         else let v = rs_matches rx rs tag_name qname
              in (v, if chunk_idx < length memo
                     then memo[chunk_idx := \<lparr>mc_seen = set_bit b (mc_seen (memo ! chunk_idx)),
                            mc_matched = (if v then set_bit b (mc_matched (memo ! chunk_idx))
                                          else mc_matched (memo ! chunk_idx))\<rparr>]
                     else memo))"

section \<open>The index\<close>

record TagGroup =
  tg_include_ids :: "u16 list"
  tg_exclude_ids :: "u16 list"

record 're MatchEntry =
  me_rule_idx :: nat
  me_domains :: "('re, unit) DomainMatcher"
  me_tags :: "TagGroup list"

type_synonym 's route_qc = "('s, bytes, nat) qc_ops"

record ('re, 's) RouteIndex =
  ri_match_entries :: "'re MatchEntry list"
  ri_catch_all_idx :: "nat option"
  ri_needs_ruleset :: bool
  ri_constant_route :: "nat option option"
  ri_tag_names :: "bytes list"
  ri_num_tags :: nat
  ri_route_cache :: 's

text \<open>The interner: the ids by name and the names by id; the id is the length cast to \<open>u16\<close>.\<close>

type_synonym interner = "(bytes \<times> u16) list \<times> bytes list"

definition intern :: "interner \<Rightarrow> bytes \<Rightarrow> u16 \<times> interner" where
  "intern st name =
     (case st of (tag_ids, tag_names) \<Rightarrow>
        (case map_of tag_ids name of
           Some i \<Rightarrow> (i, st)
         | None \<Rightarrow> let i = of_nat (length tag_names)
                   in (i, (AList.update name i tag_ids, tag_names @ [name]))))"

fun intern_all :: "interner \<Rightarrow> bytes list \<Rightarrow> u16 list \<times> interner" where
  "intern_all st [] = ([], st)"
| "intern_all st (t # ts) =
     (let (i, st) = intern st t; (ids, st) = intern_all st ts in (i # ids, st))"

fun build_matchers :: "'re regex_ops \<Rightarrow> interner \<Rightarrow> ('re, unit) DomainMatcher \<Rightarrow> TagGroup list \<Rightarrow> RuleMatcher list
    \<Rightarrow> ('re, unit) DomainMatcher \<times> TagGroup list \<times> interner" where
  "build_matchers rx st domains tags [] = (domains, tags, st)"
| "build_matchers rx st domains tags (m # ms) =
     (case m of
        MatchDomain pattern \<Rightarrow>
          (case classify_pattern rx pattern of
             SuffixP n \<Rightarrow> build_matchers rx st (insert_suffix domains n ()) tags ms
           | FullP n \<Rightarrow> build_matchers rx st (insert_full domains n ()) tags ms
           | WildcardP re \<Rightarrow> build_matchers rx st (insert_regex domains re ()) tags ms
           | InvalidP \<Rightarrow> build_matchers rx st domains tags ms)
      | MatchTag incl excl \<Rightarrow>
          (let (incs, st) = intern_all st incl; (excs, st) = intern_all st excl
           in build_matchers rx st domains (tags @ [\<lparr>tg_include_ids = incs, tg_exclude_ids = excs\<rparr>]) ms))"

fun build_loop :: "'re regex_ops \<Rightarrow> interner \<Rightarrow> 're MatchEntry list \<Rightarrow> nat option \<Rightarrow> nat \<Rightarrow> 'p Rule list
    \<Rightarrow> 're MatchEntry list \<times> nat option \<times> interner" where
  "build_loop rx st entries catch_all i [] = (entries, catch_all, st)"
| "build_loop rx st entries catch_all i (rule # rules) =
     (if ru_matcher rule = [] then
        build_loop rx st entries (if catch_all = None then Some i else catch_all) (i + 1) rules
      else
        let (domains, tags, st) = build_matchers rx st dm_default [] (ru_matcher rule)
        in build_loop rx st (entries @ [\<lparr>me_rule_idx = i, me_domains = domains, me_tags = tags\<rparr>])
             catch_all (i + 1) rules)"

definition ri_build :: "'re regex_ops \<Rightarrow> 's route_qc \<Rightarrow> 'p Rule list \<Rightarrow> nat \<Rightarrow> ('re, 's) RouteIndex" where
  "ri_build rx qc rules dns_cache_capacity =
     (let (match_entries, catch_all_idx, tag_ids, tag_names) = build_loop rx ([], []) [] None 0 rules
      in \<lparr>ri_match_entries = match_entries, ri_catch_all_idx = catch_all_idx,
          ri_needs_ruleset = list_ex (\<lambda>e. me_tags e \<noteq> []) match_entries,
          ri_constant_route = (if catch_all_idx = Some 0 \<or> match_entries = [] then Some catch_all_idx else None),
          ri_tag_names = tag_names, ri_num_tags = length tag_names,
          ri_route_cache = qc_with qc (max dns_cache_capacity ROUTE_CACHE_MIN_CAPACITY)\<rparr>)"

section \<open>Routing\<close>

fun any_tag :: "'re regex_ops \<Rightarrow> 're RuleSetDb \<Rightarrow> bytes list \<Rightarrow> bytes \<Rightarrow> TagMemo \<Rightarrow> u16 list \<Rightarrow> (bool \<times> TagMemo) run" where
  "any_tag rx rs tag_names qname memo [] = Some (False, memo)"
| "any_tag rx rs tag_names qname memo (i # ids) = do {
     name \<leftarrow> idx tag_names (unat i);
     case memo_check rx memo rs i name qname of
       (True, memo) \<Rightarrow> Some (True, memo)
     | (False, memo) \<Rightarrow> any_tag rx rs tag_names qname memo ids }"

definition tag_group_matches ::
  "'re regex_ops \<Rightarrow> TagGroup \<Rightarrow> bytes \<Rightarrow> 're RuleSetDb \<Rightarrow> TagMemo \<Rightarrow> bytes list \<Rightarrow> (bool \<times> TagMemo) run" where
  "tag_group_matches rx grp qname rs memo tag_names = do {
     (match_positive, memo) \<leftarrow> (if tg_include_ids grp \<noteq> [] then any_tag rx rs tag_names qname memo (tg_include_ids grp)
                               else Some (True, memo));
     if \<not> match_positive then Some (False, memo)
     else do {
       (hit, memo) \<leftarrow> any_tag rx rs tag_names qname memo (tg_exclude_ids grp);
       Some (\<not> hit, memo) } }"

fun any_group :: "'re regex_ops \<Rightarrow> bytes \<Rightarrow> 're RuleSetDb \<Rightarrow> TagMemo \<Rightarrow> bytes list \<Rightarrow> TagGroup list \<Rightarrow> (bool \<times> TagMemo) run" where
  "any_group rx qname rs memo tag_names [] = Some (False, memo)"
| "any_group rx qname rs memo tag_names (g # gs) = do {
     (hit, memo) \<leftarrow> tag_group_matches rx g qname rs memo tag_names;
     if hit then Some (True, memo) else any_group rx qname rs memo tag_names gs }"

definition match_entry_matches ::
  "'re regex_ops \<Rightarrow> 're MatchEntry \<Rightarrow> bytes \<Rightarrow> 're RuleSetDb option \<Rightarrow> TagMemo \<Rightarrow> bytes list \<Rightarrow> (bool \<times> TagMemo) run" where
  "match_entry_matches rx entry qname ruleset memo tag_names =
     (if lookup_specific (me_domains entry) qname \<noteq> None \<or> lookup_fuzzy rx (me_domains entry) qname \<noteq> None
      then Some (True, memo)
      else case ruleset of
             None \<Rightarrow> Some (False, memo)
           | Some rs \<Rightarrow> any_group rx qname rs memo tag_names (me_tags entry))"

fun scan_entries :: "'re regex_ops \<Rightarrow> bytes list \<Rightarrow> nat \<Rightarrow> bytes \<Rightarrow> 're RuleSetDb option \<Rightarrow> TagMemo
    \<Rightarrow> 're MatchEntry list \<Rightarrow> nat run" where
  "scan_entries rx tag_names catch_all qname ruleset memo [] = Some catch_all"
| "scan_entries rx tag_names catch_all qname ruleset memo (e # es) =
     (if catch_all < me_rule_idx e then Some catch_all
      else do {
        (hit, memo) \<leftarrow> match_entry_matches rx e qname ruleset memo tag_names;
        if hit then Some (me_rule_idx e) else scan_entries rx tag_names catch_all qname ruleset memo es })"

definition route_index_uncached ::
  "'re regex_ops \<Rightarrow> ('re, 's) RouteIndex \<Rightarrow> bytes \<Rightarrow> 're RuleSetDb option \<Rightarrow> TagMemo \<Rightarrow> nat run" where
  "route_index_uncached rx ri qname ruleset memo =
     (let catch_all = (case ri_catch_all_idx ri of Some i \<Rightarrow> i | None \<Rightarrow> USIZE_MAX)
      in if ri_match_entries ri = [] then Some catch_all
         else scan_entries rx (ri_tag_names ri) catch_all qname ruleset memo (ri_match_entries ri))"

definition constant_target :: "('re, 's) RouteIndex \<Rightarrow> nat option option" where
  "constant_target ri = ri_constant_route ri"

definition route ::
  "'re regex_ops \<Rightarrow> 's route_qc \<Rightarrow> ('re, 's) RouteIndex \<Rightarrow> 'p Rule list \<Rightarrow> bytes \<Rightarrow> 're RuleSetDb option
    \<Rightarrow> ('p Rule option \<times> ('re, 's) RouteIndex) run" where
  "route rx qc ri rules qname ruleset =
     (case ri_constant_route ri of
        Some constant \<Rightarrow> Some (Option.bind constant (idx rules), ri)
      | None \<Rightarrow>
          (let use_cache = (ruleset \<noteq> None \<or> \<not> ri_needs_ruleset ri);
               (cached, ri) = (if use_cache
                               then let (c, s) = qc_get qc (ri_route_cache ri) qname in (c, ri\<lparr>ri_route_cache := s\<rparr>)
                               else (None, ri))
           in case cached of
                Some i \<Rightarrow> Some (if i = USIZE_MAX then None else idx rules i, ri)
              | None \<Rightarrow> do {
                  i \<leftarrow> route_index_uncached rx ri qname ruleset (memo_new (ri_num_tags ri));
                  Some (idx rules i,
                        if use_cache then ri\<lparr>ri_route_cache := qc_insert qc (ri_route_cache ri) qname i\<rparr> else ri) }))"

section \<open>The reference: the first rule that matches\<close>

fun matcher_matches :: "'re regex_ops \<Rightarrow> 're RuleSetDb option \<Rightarrow> bytes \<Rightarrow> RuleMatcher \<Rightarrow> bool" where
  "matcher_matches rx ruleset q (MatchDomain p) \<longleftrightarrow> names_of_pattern rx p q"
| "matcher_matches rx ruleset q (MatchTag incl excl) \<longleftrightarrow>
     (\<exists>rs. ruleset = Some rs \<and> (incl = [] \<or> (\<exists>t\<in>set incl. rs_matches rx rs t q)) \<and>
        \<not> (\<exists>t\<in>set excl. rs_matches rx rs t q))"

definition rule_matches :: "'re regex_ops \<Rightarrow> 're RuleSetDb option \<Rightarrow> bytes \<Rightarrow> 'p Rule \<Rightarrow> bool" where
  "rule_matches rx ruleset q rule \<longleftrightarrow>
     ru_matcher rule = [] \<or> (\<exists>m\<in>set (ru_matcher rule). matcher_matches rx ruleset q m)"

definition first_rule :: "'re regex_ops \<Rightarrow> 're RuleSetDb option \<Rightarrow> bytes \<Rightarrow> 'p Rule list \<Rightarrow> 'p Rule option" where
  "first_rule rx ruleset q rules = List.find (rule_matches rx ruleset q) rules"

fun first_idx :: "('r \<Rightarrow> bool) \<Rightarrow> nat \<Rightarrow> 'r list \<Rightarrow> nat option" where
  "first_idx P k [] = None"
| "first_idx P k (r # rs) = (if P r then Some k else first_idx P (k + 1) rs)"

lemma first_idx_find:
  "(case first_idx P k rs of None \<Rightarrow> None | Some i \<Rightarrow> Some (rs ! (i - k))) = List.find P rs"
  "first_idx P k rs = Some i \<Longrightarrow> k \<le> i \<and> i < k + length rs"
proof -
  show bounds: "first_idx P k rs = Some i \<Longrightarrow> k \<le> i \<and> i < k + length rs" for i
    by (induction P k rs rule: first_idx.induct) (force split: if_splits)+
  then show "(case first_idx P k rs of None \<Rightarrow> None | Some i \<Rightarrow> Some (rs ! (i - k))) = List.find P rs"
  proof (induction P k rs rule: first_idx.induct)
    case (2 P k r rs)
    have "k + 1 \<le> i" if "first_idx P (k + 1) rs = Some i" for i
      using that by (induction P "k + 1" rs arbitrary: k rule: first_idx.induct) (force split: if_splits)+
    then show ?case using 2 by (auto split: option.splits simp: nth_Cons')
  qed simp
qed

section \<open>The memo remembers what the database says\<close>

definition memo_ok :: "'re regex_ops \<Rightarrow> 're RuleSetDb \<Rightarrow> bytes list \<Rightarrow> bytes \<Rightarrow> TagMemo \<Rightarrow> bool" where
  "memo_ok rx rs names q memo \<longleftrightarrow>
     (\<forall>c<length memo. \<forall>b<64. bit (mc_matched (memo ! c)) b \<longleftrightarrow>
        bit (mc_seen (memo ! c)) b \<and> rs_matches rx rs (names ! (c * 64 + b)) q)"

lemma memo_new_ok: "memo_ok rx rs names q (memo_new n)"
  by (simp add: memo_ok_def memo_new_def)

lemma bit_set_u64: "n < 64 \<Longrightarrow> bit (set_bit n (w :: u64)) k \<longleftrightarrow> k = n \<or> bit w k"
  by (auto simp: bit_simps)

lemma memo_check_ok:
  assumes ok: "memo_ok rx rs names q memo"
  shows "\<exists>memo'. memo_check rx memo rs tid (names ! unat tid) q = (rs_matches rx rs (names ! unat tid) q, memo') \<and>
    memo_ok rx rs names q memo'"
proof -
  define c b where "c = unat tid div 64" and "b = unat tid mod 64"
  have i: "c * 64 + b = unat tid" "b < 64" by (simp_all add: c_def b_def)
  show ?thesis
  proof (cases "c < length memo \<and> bit (mc_seen (memo ! c)) b")
    case True
    then have "bit (mc_matched (memo ! c)) b = rs_matches rx rs (names ! unat tid) q"
      using ok i by (auto simp: memo_ok_def)
    then show ?thesis
      using True ok by (simp add: memo_check_def Let_def flip: c_def b_def)
  next
    case new: False
    let ?v = "rs_matches rx rs (names ! unat tid) q"
    let ?chunk = "\<lparr>mc_seen = set_bit b (mc_seen (memo ! c)),
        mc_matched = (if ?v then set_bit b (mc_matched (memo ! c)) else mc_matched (memo ! c))\<rparr>"
    have "memo_ok rx rs names q (memo[c := ?chunk])" if c: "c < length memo"
      unfolding memo_ok_def
    proof (intro allI impI)
      fix c' b' :: nat assume c': "c' < length (memo[c := ?chunk])" and b': "b' < 64"
      show "bit (mc_matched (memo[c := ?chunk] ! c')) b' \<longleftrightarrow>
          bit (mc_seen (memo[c := ?chunk] ! c')) b' \<and> rs_matches rx rs (names ! (c' * 64 + b')) q"
        using ok c c' b' i new by (cases "c' = c"; cases "b' = b") (auto simp: memo_ok_def bit_set_u64)
    qed
    then show ?thesis
      using new ok by (auto simp: memo_check_def Let_def simp flip: c_def b_def)
  qed
qed

section \<open>Tag groups\<close>

text \<open>The ids \<open>ids\<close> stand for the tags \<open>ts\<close>, and a group for the tags of an expression.\<close>

definition ids_name :: "bytes list \<Rightarrow> u16 list \<Rightarrow> bytes list \<Rightarrow> bool" where
  "ids_name names ids ts \<longleftrightarrow> list_all2 (\<lambda>i t. unat i < length names \<and> names ! unat i = t) ids ts"

definition group_names :: "bytes list \<Rightarrow> TagGroup \<Rightarrow> bytes list \<times> bytes list \<Rightarrow> bool" where
  "group_names names g te \<longleftrightarrow>
     ids_name names (tg_include_ids g) (fst te) \<and> ids_name names (tg_exclude_ids g) (snd te)"

definition tag_exprs :: "RuleMatcher list \<Rightarrow> (bytes list \<times> bytes list) list" where
  "tag_exprs ms = List.map_filter (\<lambda>m. case m of MatchTag i e \<Rightarrow> Some (i, e) | MatchDomain p \<Rightarrow> None) ms"

lemma any_tag_eq:
  assumes "ids_name names ids ts" "memo_ok rx rs names q memo"
  shows "\<exists>memo'. any_tag rx rs names q memo ids = Some (\<exists>t\<in>set ts. rs_matches rx rs t q, memo') \<and>
    memo_ok rx rs names q memo'"
  using assms
proof (induction ids arbitrary: ts memo)
  case (Cons i ids)
  then obtain ts' where ts: "ts = names ! unat i # ts'" and i: "unat i < length names" and ids: "ids_name names ids ts'"
    by (auto simp: ids_name_def list_all2_Cons1)
  obtain memo' where m: "memo_check rx memo rs i (names ! unat i) q = (rs_matches rx rs (names ! unat i) q, memo')"
      "memo_ok rx rs names q memo'"
    using memo_check_ok [OF Cons.prems(2)] by blast
  show ?case
    using Cons.IH [OF ids m(2)] m by (cases "rs_matches rx rs (names ! unat i) q") (auto simp: ts idx_in i)
qed (simp add: ids_name_def)

lemma tag_group_eq:
  assumes "group_names names g te" "memo_ok rx rs names q memo"
  shows "\<exists>memo'. tag_group_matches rx g q rs memo names = Some (matcher_matches rx (Some rs) q (MatchTag (fst te) (snd te)), memo') \<and>
    memo_ok rx rs names q memo'"
proof -
  have ids: "ids_name names (tg_include_ids g) (fst te)" "ids_name names (tg_exclude_ids g) (snd te)"
    using assms(1) by (simp_all add: group_names_def)
  then have nil: "tg_include_ids g = [] \<longleftrightarrow> fst te = []" by (auto simp: ids_name_def)
  obtain memo1 where 1: "any_tag rx rs names q memo (tg_include_ids g) = Some (\<exists>t\<in>set (fst te). rs_matches rx rs t q, memo1)"
      "memo_ok rx rs names q memo1"
    using any_tag_eq [OF ids(1) assms(2)] by blast
  obtain memo2 where 2: "any_tag rx rs names q memo1 (tg_exclude_ids g) = Some (\<exists>t\<in>set (snd te). rs_matches rx rs t q, memo2)"
      "memo_ok rx rs names q memo2"
    using any_tag_eq [OF ids(2) 1(2)] by blast
  obtain memo3 where 3: "any_tag rx rs names q memo (tg_exclude_ids g) = Some (\<exists>t\<in>set (snd te). rs_matches rx rs t q, memo3)"
      "memo_ok rx rs names q memo3"
    using any_tag_eq [OF ids(2) assms(2)] by blast
  show ?thesis
    using 1 2 3 nil by (cases "fst te = []"; cases "\<exists>t\<in>set (fst te). rs_matches rx rs t q")
      (auto simp: tag_group_matches_def)
qed

lemma any_group_eq:
  assumes "list_all2 (group_names names) gs tes" "memo_ok rx rs names q memo"
  shows "\<exists>memo'. any_group rx q rs memo names gs
      = Some (\<exists>te\<in>set tes. matcher_matches rx (Some rs) q (MatchTag (fst te) (snd te)), memo') \<and>
    memo_ok rx rs names q memo'"
  using assms
proof (induction gs tes arbitrary: memo rule: list_all2_induct)
  case (Cons g gs te tes)
  obtain memo' where m: "tag_group_matches rx g q rs memo names
      = Some (matcher_matches rx (Some rs) q (MatchTag (fst te) (snd te)), memo')" "memo_ok rx rs names q memo'"
    using tag_group_eq [OF Cons.hyps(1) Cons.prems] by blast
  show ?case
    using Cons.IH [OF m(2)] m
    by (cases "matcher_matches rx (Some rs) q (MatchTag (fst te) (snd te))") (auto simp del: matcher_matches.simps)
qed simp

section \<open>Compiled rules\<close>

definition entry_compiles :: "'re regex_ops \<Rightarrow> bytes list \<Rightarrow> 're MatchEntry \<Rightarrow> 'p Rule \<Rightarrow> bool" where
  "entry_compiles rx names e rule \<longleftrightarrow>
     (\<forall>q. dm_hit rx (me_domains e) q \<longleftrightarrow> (\<exists>p. MatchDomain p \<in> set (ru_matcher rule) \<and> names_of_pattern rx p q)) \<and>
     list_all2 (group_names names) (me_tags e) (tag_exprs (ru_matcher rule))"

definition memo_for :: "'re regex_ops \<Rightarrow> 're RuleSetDb option \<Rightarrow> bytes list \<Rightarrow> bytes \<Rightarrow> TagMemo \<Rightarrow> bool" where
  "memo_for rx ruleset names q memo \<longleftrightarrow> (\<forall>rs. ruleset = Some rs \<longrightarrow> memo_ok rx rs names q memo)"

lemma set_tag_exprs: "te \<in> set (tag_exprs ms) \<longleftrightarrow> MatchTag (fst te) (snd te) \<in> set ms"
  by (induction ms; cases te) (auto simp: tag_exprs_def List.map_filter_simps split: RuleMatcher.splits)

lemma rule_matches_split:
  "rule_matches rx ruleset q rule \<longleftrightarrow> ru_matcher rule = [] \<or>
     (\<exists>p. MatchDomain p \<in> set (ru_matcher rule) \<and> names_of_pattern rx p q) \<or>
     (\<exists>te\<in>set (tag_exprs (ru_matcher rule)). matcher_matches rx ruleset q (MatchTag (fst te) (snd te)))"
proof -
  have "(\<exists>m\<in>set ms. P m) \<longleftrightarrow> (\<exists>p. MatchDomain p \<in> set ms \<and> P (MatchDomain p)) \<or> (\<exists>i e. MatchTag i e \<in> set ms \<and> P (MatchTag i e))"
    for ms P by (metis RuleMatcher.exhaust)
  then show ?thesis by (simp add: rule_matches_def set_tag_exprs Bex_def)
qed

lemma match_entry_eq:
  assumes "entry_compiles rx names e rule" "ru_matcher rule \<noteq> []" "memo_for rx ruleset names q memo"
  shows "\<exists>memo'. match_entry_matches rx e q ruleset memo names = Some (rule_matches rx ruleset q rule, memo') \<and>
    memo_for rx ruleset names q memo'"
proof (cases "dm_hit rx (me_domains e) q")
  case True
  then have "rule_matches rx ruleset q rule"
    using assms(1,2) by (auto simp: entry_compiles_def rule_matches_split)
  then show ?thesis using True assms(3) by (auto simp: match_entry_matches_def dm_hit_def)
next
  case False
  then have no: "\<not> (\<exists>p. MatchDomain p \<in> set (ru_matcher rule) \<and> names_of_pattern rx p q)"
    using assms(1) by (simp add: entry_compiles_def)
  show ?thesis
  proof (cases ruleset)
    case None
    then have "\<not> rule_matches rx ruleset q rule" using no assms(2) by (auto simp: rule_matches_split)
    then show ?thesis using False None assms(3) by (auto simp: match_entry_matches_def dm_hit_def)
  next
    case (Some rs)
    have "list_all2 (group_names names) (me_tags e) (tag_exprs (ru_matcher rule))" "memo_ok rx rs names q memo"
      using assms(1,3) Some by (simp_all add: entry_compiles_def memo_for_def)
    from any_group_eq [OF this] show ?thesis
      using False Some no assms(2)
      by (auto simp: match_entry_matches_def dm_hit_def rule_matches_split memo_for_def simp del: matcher_matches.simps)
  qed
qed

section \<open>Building\<close>

text \<open>
  The interner while the tags of a set \<open>T\<close> are interned: names are distinct, every name has
  its position as id. The cast to \<open>u16\<close> is exact as long as \<open>T\<close> has at most 65536 tags.
\<close>

definition interner_ok :: "bytes set \<Rightarrow> interner \<Rightarrow> bool" where
  "interner_ok T st \<longleftrightarrow>
     (case st of (tag_ids, names) \<Rightarrow> distinct names \<and> set names \<subseteq> T \<and> dom (map_of tag_ids) = set names \<and>
        (\<forall>n i. map_of tag_ids n = Some i \<longrightarrow> unat i < length names \<and> names ! unat i = n))"

lemma ids_name_mono: "ids_name names ids ts \<Longrightarrow> ids_name (names @ ext) ids ts"
  by (auto simp: ids_name_def nth_append elim!: list_all2_mono)

lemma group_names_mono: "list_all2 (group_names names) gs tes \<Longrightarrow> list_all2 (group_names (names @ ext)) gs tes"
  by (auto simp: group_names_def ids_name_mono elim!: list_all2_mono)

lemma intern_ok:
  assumes "interner_ok T st" "t \<in> T" and T: "finite T" "card T \<le> 65536"
  shows "\<exists>i st' ext. intern st t = (i, st') \<and> interner_ok T st' \<and> snd st' = snd st @ ext \<and>
    unat i < length (snd st') \<and> snd st' ! unat i = t"
proof -
  obtain tag_ids names where st: "st = (tag_ids, names)" by (cases st)
  show ?thesis
  proof (cases "map_of tag_ids t")
    case (Some i)
    then show ?thesis using assms(1) by (auto simp: st intern_def interner_ok_def)
  next
    case None
    then have new: "t \<notin> set names" using assms(1) by (auto simp: st interner_ok_def)
    have "card (insert t (set names)) \<le> card T"
      by (rule card_mono) (use assms in \<open>auto simp: st interner_ok_def\<close>)
    then have len: "length names < 65536"
      using new T assms(1) by (auto simp: st interner_ok_def distinct_card)
    then have i: "unat (of_nat (length names) :: u16) = length names" by (simp add: unat_of_nat)
    have "interner_ok T (AList.update t (of_nat (length names)) tag_ids, names @ [t])"
      using assms(1,2) new i
      by (auto simp: st interner_ok_def update_conv' nth_append split: if_splits intro: less_SucI)
    then show ?thesis using None i by (auto simp: st intern_def Let_def nth_append)
  qed
qed

lemma intern_all_ok:
  assumes "interner_ok T st" "set ts \<subseteq> T" and T: "finite T" "card T \<le> 65536"
  shows "\<exists>ids st' ext. intern_all st ts = (ids, st') \<and> interner_ok T st' \<and> snd st' = snd st @ ext \<and>
    ids_name (snd st') ids ts"
  using assms(1,2)
proof (induction ts arbitrary: st)
  case (Cons t ts)
  obtain i st1 ext1 where 1: "intern st t = (i, st1)" "interner_ok T st1" "snd st1 = snd st @ ext1"
      "unat i < length (snd st1)" "snd st1 ! unat i = t"
    using intern_ok [OF Cons.prems(1) _ T, of t] Cons.prems(2) by auto
  obtain ids st2 ext2 where 2: "intern_all st1 ts = (ids, st2)" "interner_ok T st2" "snd st2 = snd st1 @ ext2"
      "ids_name (snd st2) ids ts"
    using Cons.IH [OF 1(2)] Cons.prems(2) by auto
  have "ids_name (snd st2) (i # ids) (t # ts)"
    using 1(4,5) 2(4) by (simp add: ids_name_def 2(3) nth_append)
  then show ?case using 1 2 by auto
qed (simp add: ids_name_def)

definition matcher_tags :: "RuleMatcher list \<Rightarrow> bytes set" where
  "matcher_tags ms = (\<Union>te\<in>set (tag_exprs ms). set (fst te) \<union> set (snd te))"

lemma finite_matcher_tags: "finite (matcher_tags ms)"
  by (simp add: matcher_tags_def)

lemma build_matchers_domain:
  "build_matchers rx st domains tags (MatchDomain p # ms) = build_matchers rx st (dm_add domains (classify_pattern rx p)) tags ms"
  by (simp add: dm_add_def split: PatternKind.splits)

lemma build_matchers_ok:
  assumes "interner_ok T st" "matcher_tags ms \<subseteq> T" "finite T" "card T \<le> 65536" "regex_laws rx"
  shows "\<exists>domains' gs st' ext. build_matchers rx st domains tags ms = (domains', tags @ gs, st') \<and>
    interner_ok T st' \<and> snd st' = snd st @ ext \<and> list_all2 (group_names (snd st')) gs (tag_exprs ms) \<and>
    (\<forall>q. dm_hit rx domains' q \<longleftrightarrow> dm_hit rx domains q \<or> (\<exists>p. MatchDomain p \<in> set ms \<and> names_of_pattern rx p q))"
  using assms(1,2)
proof (induction ms arbitrary: st domains tags)
  case Nil
  then show ?case by (simp add: tag_exprs_def List.map_filter_simps)
next
  case (Cons m ms)
  show ?case
  proof (cases m)
    case (MatchDomain p)
    then have te: "tag_exprs (m # ms) = tag_exprs ms" by (simp add: tag_exprs_def List.map_filter_simps)
    have hit: "dm_hit rx (dm_add domains (classify_pattern rx p)) q \<longleftrightarrow> dm_hit rx domains q \<or> names_of_pattern rx p q" for q
      by (simp add: dm.hit_add kind_hits_pattern [OF assms(5)])
    have "matcher_tags ms \<subseteq> T" using Cons.prems(2) by (simp add: matcher_tags_def te)
    from Cons.IH [OF Cons.prems(1) this, of "dm_add domains (classify_pattern rx p)" tags] show ?thesis
      unfolding MatchDomain build_matchers_domain te [unfolded MatchDomain] hit by auto
  next
    case (MatchTag incl excl)
    then have te: "tag_exprs (m # ms) = (incl, excl) # tag_exprs ms" by (simp add: tag_exprs_def List.map_filter_simps)
    then have sub: "set incl \<subseteq> T" "set excl \<subseteq> T" "matcher_tags ms \<subseteq> T"
      using Cons.prems(2) by (auto simp: matcher_tags_def)
    obtain is1 st1 ext1 where 1: "intern_all st incl = (is1, st1)" "interner_ok T st1" "snd st1 = snd st @ ext1"
        "ids_name (snd st1) is1 incl"
      using intern_all_ok [OF Cons.prems(1) sub(1) assms(3,4)] by auto
    obtain es1 st2 ext2 where 2: "intern_all st1 excl = (es1, st2)" "interner_ok T st2" "snd st2 = snd st1 @ ext2"
        "ids_name (snd st2) es1 excl"
      using intern_all_ok [OF 1(2) sub(2) assms(3,4)] by auto
    let ?g = "\<lparr>tg_include_ids = is1, tg_exclude_ids = es1\<rparr>"
    obtain d gs st3 ext3 where 3: "build_matchers rx st2 domains (tags @ [?g]) ms = (d, (tags @ [?g]) @ gs, st3)"
        "interner_ok T st3" "snd st3 = snd st2 @ ext3" "list_all2 (group_names (snd st3)) gs (tag_exprs ms)"
        "\<forall>q. dm_hit rx d q \<longleftrightarrow> dm_hit rx domains q \<or> (\<exists>p. MatchDomain p \<in> set ms \<and> names_of_pattern rx p q)"
      using Cons.IH [OF 2(2) sub(3), of domains "tags @ [?g]"] by blast
    have "group_names (snd st3) ?g (incl, excl)"
      using ids_name_mono [OF 1(4), of "ext2 @ ext3"] ids_name_mono [OF 2(4), of ext3]
      by (simp add: group_names_def 3(3) 2(3))
    then show ?thesis
      using 1 2 3 MatchTag te by (intro exI [of _ d] exI [of _ "?g # gs"] exI [of _ st3]) auto
  qed
qed

definition rules_tags :: "'p Rule list \<Rightarrow> bytes set" where
  "rules_tags rules = (\<Union>r\<in>set rules. matcher_tags (ru_matcher r))"

text \<open>The entries are those of the rules with a matcher, numbered from \<open>k\<close> on.\<close>

fun entries_compile :: "'re regex_ops \<Rightarrow> bytes list \<Rightarrow> nat \<Rightarrow> 're MatchEntry list \<Rightarrow> 'p Rule list \<Rightarrow> bool" where
  "entries_compile rx names k es [] \<longleftrightarrow> es = []"
| "entries_compile rx names k es (r # rs) \<longleftrightarrow>
     (if ru_matcher r = [] then entries_compile rx names (k + 1) es rs
      else \<exists>e es'. es = e # es' \<and> me_rule_idx e = k \<and> entry_compiles rx names e r \<and> entries_compile rx names (k + 1) es' rs)"

abbreviation first_catch_all :: "nat \<Rightarrow> 'p Rule list \<Rightarrow> nat option" where
  "first_catch_all \<equiv> first_idx (\<lambda>r. ru_matcher r = [])"

lemma build_loop_ok:
  assumes "interner_ok T st" "rules_tags rules \<subseteq> T" "finite T" "card T \<le> 65536" "regex_laws rx"
  shows "\<exists>es st' ext. build_loop rx st entries catch_all k rules
      = (entries @ es, if catch_all = None then first_catch_all k rules else catch_all, st') \<and>
    interner_ok T st' \<and> snd st' = snd st @ ext \<and> entries_compile rx (snd st') k es rules"
  using assms(1,2)
proof (induction rules arbitrary: st entries catch_all k)
  case (Cons r rules)
  have sub: "matcher_tags (ru_matcher r) \<subseteq> T" "rules_tags rules \<subseteq> T"
    using Cons.prems(2) by (auto simp: rules_tags_def)
  show ?case
  proof (cases "ru_matcher r = []")
    case True
    then show ?thesis
      using Cons.IH [OF Cons.prems(1) sub(2), of entries "if catch_all = None then Some k else catch_all" "k + 1"] by auto
  next
    case False
    have no_hit: "dm_hit rx (dm_default :: (_, unit) DomainMatcher) q = False" for q using dm.hit_empty by simp
    obtain d gs st1 ext1 where 1: "build_matchers rx st dm_default [] (ru_matcher r) = (d, gs, st1)" "interner_ok T st1"
        "snd st1 = snd st @ ext1" "list_all2 (group_names (snd st1)) gs (tag_exprs (ru_matcher r))"
        "\<forall>q. dm_hit rx d q \<longleftrightarrow> (\<exists>p. MatchDomain p \<in> set (ru_matcher r) \<and> names_of_pattern rx p q)"
      using build_matchers_ok [OF Cons.prems(1) sub(1) assms(3,4,5), of dm_default "[]",
        unfolded no_hit append_Nil simp_thms]
      by blast
    let ?e = "\<lparr>me_rule_idx = k, me_domains = d, me_tags = gs\<rparr>"
    obtain es st2 ext2 where 2: "build_loop rx st1 (entries @ [?e]) catch_all (k + 1) rules
        = ((entries @ [?e]) @ es, if catch_all = None then first_catch_all (k + 1) rules else catch_all, st2)"
        "interner_ok T st2" "snd st2 = snd st1 @ ext2" "entries_compile rx (snd st2) (k + 1) es rules"
      using Cons.IH [OF 1(2) sub(2), of "entries @ [?e]" catch_all "k + 1"] by blast
    have "entry_compiles rx (snd st2) ?e r"
      using 1(4,5) by (simp add: entry_compiles_def 2(3) group_names_mono)
    then show ?thesis using 1 2 False by (intro exI [of _ "?e # es"] exI [of _ st2]) auto
  qed
qed simp

section \<open>Scanning\<close>

lemma entries_head: "entries_compile rx names k es rules \<Longrightarrow> e \<in> set es \<Longrightarrow> k \<le> me_rule_idx e"
proof (induction rx names k es rules rule: entries_compile.induct)
  case (2 rx names k es r rs)
  then have "k + 1 \<le> me_rule_idx e \<or> me_rule_idx e = k" by (auto split: if_splits)
  then show ?case by auto
qed simp

abbreviation or_max :: "nat option \<Rightarrow> nat" where
  "or_max i \<equiv> (case i of Some i \<Rightarrow> i | None \<Rightarrow> USIZE_MAX)"

lemma scan_entries_eq:
  assumes "entries_compile rx names k es rules" "k + length rules \<le> USIZE_MAX" "memo_for rx ruleset names q memo"
  shows "scan_entries rx names (or_max (first_catch_all k rules)) q ruleset memo es
    = Some (or_max (first_idx (rule_matches rx ruleset q) k rules))"
  using assms
proof (induction rules arbitrary: k es memo)
  case (Cons r rules)
  show ?case
  proof (cases "ru_matcher r = []")
    case True
    then have "k + 1 \<le> me_rule_idx e" if "e \<in> set es" for e
      using that entries_head [of rx names "k + 1" es rules] Cons.prems(1) by auto
    then have "scan_entries rx names k q ruleset memo es = Some k" by (cases es) (auto dest: Suc_le_lessD)
    then show ?thesis using True by (simp add: rule_matches_def)
  next
    case False
    then obtain e es' where es: "es = e # es'" "me_rule_idx e = k" "entry_compiles rx names e r"
        "entries_compile rx names (k + 1) es' rules"
      using Cons.prems(1) by auto
    obtain memo' where m: "match_entry_matches rx e q ruleset memo names = Some (rule_matches rx ruleset q r, memo')"
        "memo_for rx ruleset names q memo'"
      using match_entry_eq [OF es(3) False Cons.prems(3)] by blast
    have "k < or_max (first_catch_all (k + 1) rules)"
      using Cons.prems(2) first_idx_find(2) [where P = "\<lambda>r. ru_matcher r = []" and k = "k + 1" and rs = rules] by (auto split: option.splits)
    then show ?thesis
      using Cons.IH [OF es(4) _ m(2)] Cons.prems(2) es m False by auto
  qed
qed simp

section \<open>The route cache\<close>

text \<open>What the bounded map remembers is what the scan decides.\<close>

definition index_ok :: "'re regex_ops \<Rightarrow> 's route_qc \<Rightarrow> ('s \<Rightarrow> bytes \<rightharpoonup> nat) \<Rightarrow> 'p Rule list \<Rightarrow> 're RuleSetDb option
    \<Rightarrow> ('re, 's) RouteIndex \<Rightarrow> bool" where
  "index_ok rx qc view rules ruleset ri \<longleftrightarrow>
     (\<exists>cap s. ri = (ri_build rx qc rules cap)\<lparr>ri_route_cache := s\<rparr>) \<and>
     (\<forall>q i. view (ri_route_cache ri) q = Some i \<longrightarrow> i = or_max (first_idx (rule_matches rx ruleset q) 0 rules))"

lemma idx_first: "idx rules (or_max (first_idx P 0 rules)) = List.find P rules" if "length rules \<le> USIZE_MAX"
  using that first_idx_find [where P = P and k = 0 and rs = rules] by (auto simp: idx_def split: option.splits)

lemma ri_build_ok:
  assumes "card (rules_tags rules) \<le> 65536" "regex_laws rx"
  shows "\<exists>es names. entries_compile rx names 0 es rules \<and> ri_match_entries (ri_build rx qc rules cap) = es \<and>
    ri_tag_names (ri_build rx qc rules cap) = names \<and> ri_catch_all_idx (ri_build rx qc rules cap) = first_catch_all 0 rules \<and>
    ri_constant_route (ri_build rx qc rules cap)
      = (if first_catch_all 0 rules = Some 0 \<or> es = [] then Some (first_catch_all 0 rules) else None)"
proof -
  have "finite (rules_tags rules)" by (simp add: rules_tags_def finite_matcher_tags)
  then obtain es st ext where "build_loop rx ([], []) [] None 0 rules = (es, first_catch_all 0 rules, st)"
      "entries_compile rx (snd st) 0 es rules"
    using build_loop_ok [of "rules_tags rules" "([], [])" rules rx "[]" None 0] assms
    by (auto simp: interner_ok_def)
  then show ?thesis by (cases st) (auto simp: ri_build_def)
qed

lemma route_step:
  assumes "regex_laws rx" "qc_laws qc view" "card (rules_tags rules) \<le> 65536" "length rules \<le> USIZE_MAX"
    and ok: "index_ok rx qc view rules ruleset ri"
  shows "\<exists>ri'. route rx qc ri rules q ruleset = Some (first_rule rx ruleset q rules, ri') \<and>
    index_ok rx qc view rules ruleset ri'"
proof -
  note laws = qc_lawsD [OF assms(2)]
  obtain cap s where ri: "ri = (ri_build rx qc rules cap)\<lparr>ri_route_cache := s\<rparr>"
    and remembered: "\<And>q i. view s q = Some i \<Longrightarrow> i = or_max (first_idx (rule_matches rx ruleset q) 0 rules)"
    using ok by (auto simp: index_ok_def)
  obtain es names where b: "entries_compile rx names 0 es rules" "ri_match_entries ri = es" "ri_tag_names ri = names"
      "ri_catch_all_idx ri = first_catch_all 0 rules"
      "ri_constant_route ri = (if first_catch_all 0 rules = Some 0 \<or> es = [] then Some (first_catch_all 0 rules) else None)"
    using ri_build_ok [OF assms(3,1), of qc cap] by (auto simp: ri)
  have scan: "scan_entries rx names (or_max (first_catch_all 0 rules)) q ruleset (memo_new (ri_num_tags ri)) es
      = Some (or_max (first_idx (rule_matches rx ruleset q) 0 rules))"
    using scan_entries_eq [OF b(1)] assms(4) by (simp add: memo_for_def memo_new_ok)
  have uncached: "route_index_uncached rx ri q ruleset (memo_new (ri_num_tags ri))
      = Some (or_max (first_idx (rule_matches rx ruleset q) 0 rules))"
    using scan by (cases "es = []") (auto simp: route_index_uncached_def b Let_def)
  have first: "idx rules (or_max (first_idx (rule_matches rx ruleset q) 0 rules)) = first_rule rx ruleset q rules"
    by (simp add: idx_first [OF assms(4)] first_rule_def)
  show ?thesis
  proof (cases "ri_constant_route ri")
    case (Some c)
    have "or_max c = or_max (first_idx (rule_matches rx ruleset q) 0 rules)"
    proof (cases es)
      case Nil
      then show ?thesis using scan Some b(5) by simp
    next
      case (Cons e es')
      then obtain r rs where "rules = r # rs" "ru_matcher r = []"
        using Some b(5) by (cases rules) (auto split: if_splits dest: first_idx_find(2))
      then show ?thesis using Some b(5) by (simp add: rule_matches_def)
    qed
    moreover have "Option.bind c (idx rules) = idx rules (or_max c)"
      using assms(4) by (cases c) (auto simp: idx_def)
    ultimately show ?thesis using ok first Some by (simp add: route_def)
  next
    case None
    let ?i = "or_max (first_idx (rule_matches rx ruleset q) 0 rules)"
    let ?use = "ruleset \<noteq> None \<or> \<not> ri_needs_ruleset ri"
    obtain s' where get: "qc_get qc s q = (view s q, s')" "view s' = view s"
      using laws(2,3) [of s q] by (cases "qc_get qc s q") auto
    have keep: "index_ok rx qc view rules ruleset (ri\<lparr>ri_route_cache := s'\<rparr>)"
      "index_ok rx qc view rules ruleset (ri\<lparr>ri_route_cache := qc_insert qc s' q ?i\<rparr>)"
      using remembered get(2) by (auto simp: index_ok_def ri dest!: qc_insert_view [OF assms(2)])
    consider (off) "\<not> ?use" | (hit) i where ?use "view s q = Some i" | (miss) ?use "view s q = None"
      by (cases "view s q") blast+
    then show ?thesis
    proof cases
      case off
      then show ?thesis using None ok uncached first by (simp add: route_def)
    next
      case hit
      then show ?thesis
        using None get keep(1) first remembered [OF hit(2)] assms(4) by (auto simp: route_def ri Let_def idx_def)
    next
      case miss
      then show ?thesis
        using None get keep(2) first uncached by (auto simp: route_def ri Let_def route_index_uncached_def)
    qed
  qed
qed

section \<open>Routing is first match\<close>

text \<open>Queries routed one after another through the same index.\<close>

fun route_all :: "'re regex_ops \<Rightarrow> 's route_qc \<Rightarrow> ('re, 's) RouteIndex \<Rightarrow> 'p Rule list \<Rightarrow> 're RuleSetDb option \<Rightarrow> bytes list
    \<Rightarrow> ('p Rule option list \<times> ('re, 's) RouteIndex) run" where
  "route_all rx qc ri rules ruleset [] = Some ([], ri)"
| "route_all rx qc ri rules ruleset (q # qs) = do {
     (r, ri) \<leftarrow> route rx qc ri rules q ruleset;
     (rs, ri) \<leftarrow> route_all rx qc ri rules ruleset qs;
     Some (r # rs, ri) }"

lemma index_ok_build: "qc_laws qc view \<Longrightarrow> index_ok rx qc view rules ruleset (ri_build rx qc rules cap)"
  by (auto simp: index_ok_def ri_build_def qc_lawsD Let_def split: prod.splits
      intro!: exI [of _ cap] exI [of _ "qc_with qc (max cap ROUTE_CACHE_MIN_CAPACITY)"])

lemma route_all_eq:
  assumes "regex_laws rx" "qc_laws qc view" "card (rules_tags rules) \<le> 65536" "length rules \<le> USIZE_MAX"
    and "index_ok rx qc view rules ruleset ri"
  shows "\<exists>ri'. route_all rx qc ri rules ruleset qs = Some (map (\<lambda>q. first_rule rx ruleset q rules) qs, ri') \<and>
    index_ok rx qc view rules ruleset ri'"
  using assms(5)
proof (induction qs arbitrary: ri)
  case (Cons q qs)
  then show ?case using route_step [OF assms(1-4) Cons.prems, of q] by force
qed simp

text \<open>
  (C3) The routing index decides like a scan of the rules: for any sequence of names routed
  through an index, with its interned tags, its memo bits and whatever the bounded map
  has remembered or evicted in between, each name is routed to the first rule that matches
  it, a rule without matchers matching everything, and no lookup panics.
\<close>

theorem route_first_match:
  assumes "regex_laws rx" "qc_laws qc view"
    and "card (rules_tags rules) \<le> 65536" "length rules \<le> USIZE_MAX"
  shows "\<exists>ri'. route_all rx qc (ri_build rx qc rules cap) rules ruleset qs
    = Some (map (\<lambda>q. first_rule rx ruleset q rules) qs, ri')"
  using route_all_eq [OF assms index_ok_build [OF assms(2)]] by blast

definition sample_rule :: "nat \<Rightarrow> RuleMatcher list \<Rightarrow> unit Rule" where
  "sample_rule i ms = \<lparr>ru_index = i, ru_server = str ''s'', ru_kind = KindUpstream (),
     ru_cache_policy = \<lparr>pol_skip = False, pol_nodata_ttl = 0, pol_min_ttl = 0, pol_max_ttl = 0\<rparr>,
     ru_filters = [], ru_matcher = ms, ru_strip_ecs = True\<rparr>"

definition sample_rules :: "unit Rule list" where
  "sample_rules = [sample_rule 0 [MatchTag [str ''d''] []], sample_rule 1 [MatchDomain (str ''+.org''), MatchTag [str ''i''] []]]"

theorem route_first_match_witness:
  "map (\<lambda>q. map_option ru_index (first_rule label_regex (Some sample_db) q sample_rules))
     [str ''a.cn'', str ''x.org'', str ''x.net'', str ''a.cn''] = [Some 0, Some 1, None, Some 0]"
proof -
  let ?run = "route_all label_regex alist_qc (ri_build label_regex alist_qc sample_rules 0) sample_rules (Some sample_db)
    [str ''a.cn'', str ''x.org'', str ''x.net'', str ''a.cn'']"
  have "rules_tags sample_rules = {str ''d'', str ''i''}"
    by (auto simp: rules_tags_def sample_rules_def sample_rule_def matcher_tags_def tag_exprs_def List.map_filter_simps)
  moreover have "card {str ''d'', str ''i''} \<le> 2" by (simp add: card_insert_if)
  ultimately have small: "card (rules_tags sample_rules) \<le> 65536" "length sample_rules \<le> USIZE_MAX"
    by (simp_all add: sample_rules_def USIZE_MAX_def)
  obtain ri where run: "?run = Some (map (\<lambda>q. first_rule label_regex (Some sample_db) q sample_rules)
      [str ''a.cn'', str ''x.org'', str ''x.net'', str ''a.cn''], ri)"
    using route_first_match [OF label_regex_laws alist_qc_laws small] by blast
  have "map_option (\<lambda>r. map (map_option ru_index) (fst r)) ?run = Some [Some 0, Some 1, None, Some 0]"
    by code_simp
  then show ?thesis unfolding run by simp
qed

text \<open>The cast to \<open>u16\<close> is not checked: the tag after 65536 others gets the id of the first one.\<close>

lemma intern_wraps:
  assumes "length names = 65536" "map_of tag_ids t = None"
  shows "fst (intern (tag_ids, names) t) = 0"
  using assms by (simp add: intern_def Let_def)

end
