(* ===== verification/Verdict_Cache.thy ===== *)
theory Verdict_Cache
  imports Quick_Cache Persist Config
begin

text \<open>
  \<open>src/verdict_cache.rs\<close>: the routing verdicts of the address test, by name, with the file they
  are saved to. Times are Unix seconds, read by the caller. A deadline belongs to an entry
  and survives a restart.
\<close>

section \<open>Definitions\<close>

definition PERSIST_MAGIC :: bytes where
  "PERSIST_MAGIC = str ''PDNSV001''"

text \<open>On the operating-system string of the path.\<close>

definition persist_path_for :: "bytes \<Rightarrow> bytes" where
  "persist_path_for cache_path = cache_path @ str ''.verdict''"

record VerdictEntry =
  ve_is_primary :: bool
  ve_inserted_unix :: u64

type_synonym 's verdict_qc = "('s, bytes, VerdictEntry) qc_ops"

record 's VerdictCache =
  vc_inner :: "'s option"
  vc_ttl_secs :: u64

definition vc_new :: "'s verdict_qc \<Rightarrow> VerdictCacheConfig option \<Rightarrow> 's VerdictCache" where
  "vc_new qc cfg =
     (case cfg of
        None \<Rightarrow> \<lparr>vc_inner = None, vc_ttl_secs = 0\<rparr>
      | Some cfg \<Rightarrow>
          if vcc_capacity cfg = 0 then \<lparr>vc_inner = None, vc_ttl_secs = 0\<rparr>
          else \<lparr>vc_inner = Some (qc_with qc (vcc_capacity cfg)), vc_ttl_secs = of_nat (vcc_ttl cfg div 1000)\<rparr>)"

definition vc_enabled :: "'s VerdictCache \<Rightarrow> bool" where
  "vc_enabled vc \<longleftrightarrow> vc_inner vc \<noteq> None"

definition is_expired :: "'s VerdictCache \<Rightarrow> u64 \<Rightarrow> u64 \<Rightarrow> bool" where
  "is_expired vc inserted_unix now \<longleftrightarrow>
     0 < vc_ttl_secs vc \<and> saturating_add inserted_unix (vc_ttl_secs vc) \<le> now"

definition vc_get :: "'s verdict_qc \<Rightarrow> u64 \<Rightarrow> 's VerdictCache \<Rightarrow> bytes \<Rightarrow> bool option \<times> 's VerdictCache" where
  "vc_get qc now vc qname =
     (case vc_inner vc of
        None \<Rightarrow> (None, vc)
      | Some s \<Rightarrow>
          (let (entry, s) = qc_get qc s qname; vc = vc\<lparr>vc_inner := Some s\<rparr>
           in (case entry of
                 None \<Rightarrow> None
               | Some e \<Rightarrow> if is_expired vc (ve_inserted_unix e) now then None else Some (ve_is_primary e), vc)))"

definition vc_invalidate_all :: "'s verdict_qc \<Rightarrow> 's VerdictCache \<Rightarrow> 's VerdictCache" where
  "vc_invalidate_all qc vc = vc\<lparr>vc_inner := map_option (qc_clear qc) (vc_inner vc)\<rparr>"

definition vc_add :: "'s verdict_qc \<Rightarrow> u64 \<Rightarrow> 's VerdictCache \<Rightarrow> bytes \<Rightarrow> bool \<Rightarrow> 's VerdictCache" where
  "vc_add qc now vc qname is_primary_domain =
     (case vc_inner vc of
        None \<Rightarrow> vc
      | Some s \<Rightarrow> vc\<lparr>vc_inner := Some (qc_insert qc s qname
                     \<lparr>ve_is_primary = is_primary_domain, ve_inserted_unix = now\<rparr>)\<rparr>)"

definition write_verdict :: "bytes \<times> VerdictEntry \<Rightarrow> bytes" where
  "write_verdict x =
     to_le 8 (ve_inserted_unix (snd x)) @ [if ve_is_primary (snd x) then 1 else 0]
     @ to_le 2 (of_nat (length (fst x)) :: u16) @ fst x"

definition vc_save_to_file :: "'s verdict_qc \<Rightarrow> u64 \<Rightarrow> 's VerdictCache \<Rightarrow> u64 \<Rightarrow> bytes option \<times> nat" where
  "vc_save_to_file qc now vc fingerprint =
     (case vc_inner vc of
        None \<Rightarrow> (None, 0)
      | Some s \<Rightarrow>
          let entries = filter (\<lambda>(k, v). \<not> is_expired vc (ve_inserted_unix v) now) (qc_iter qc s)
          in (Some (write_header PERSIST_MAGIC fingerprint (of_nat (length entries)) @ concat (map write_verdict entries)), length entries))"

definition read_verdict :: "(bytes \<times> VerdictEntry) reader" where
  "read_verdict =
     rbind read_u64 (\<lambda>inserted_unix. rbind (read_exact 1) (\<lambda>flag. rbind read_u16 (\<lambda>qname_len.
     rbind (read_exact (unat qname_len)) (\<lambda>qname_bytes.
       rreturn (qname_bytes, \<lparr>ve_is_primary = hd flag \<noteq> 0, ve_inserted_unix = inserted_unix\<rparr>)))))"

fun vc_load_loop :: "'s verdict_qc \<Rightarrow> u64 \<Rightarrow> 's VerdictCache \<Rightarrow> nat \<Rightarrow> 's \<Rightarrow> nat \<Rightarrow> bytes \<Rightarrow> 's \<times> nat res" where
  "vc_load_loop qc now vc 0 s loaded r = (s, Inr loaded)"
| "vc_load_loop qc now vc (Suc n) s loaded r =
     (case read_verdict r of
        Inl e \<Rightarrow> (s, Inl e)
      | Inr ((qname, e), r) \<Rightarrow>
          if is_expired vc (ve_inserted_unix e) now then vc_load_loop qc now vc n s loaded r
          else if \<not> utf8_valid qname then vc_load_loop qc now vc n s loaded r
          else vc_load_loop qc now vc n (qc_insert qc s qname e) (loaded + 1) r)"

definition vc_load_from_file :: "'s verdict_qc \<Rightarrow> u64 \<Rightarrow> 's VerdictCache \<Rightarrow> u64 \<Rightarrow> bytes \<Rightarrow> 's VerdictCache \<times> nat res" where
  "vc_load_from_file qc now vc fingerprint file =
     (case vc_inner vc of
        None \<Rightarrow> (vc, Inr 0)
      | Some s \<Rightarrow>
          (case read_and_check_header PERSIST_MAGIC fingerprint file of
             Inl e \<Rightarrow> (vc, Inl e)
           | Inr (n, r) \<Rightarrow>
               let (s, loaded) = vc_load_loop qc now vc (unat n) s 0 r
               in (vc\<lparr>vc_inner := Some s\<rparr>, loaded)))"

section \<open>Lookups and deadlines\<close>

text \<open>What the cache would answer at time \<open>now\<close>, as a function of what the map holds.\<close>

definition verdict :: "('s \<Rightarrow> bytes \<rightharpoonup> VerdictEntry) \<Rightarrow> 's VerdictCache \<Rightarrow> u64 \<Rightarrow> bytes \<rightharpoonup> bool" where
  "verdict view vc now q =
     (case Option.bind (vc_inner vc) (\<lambda>s. view s q) of
        None \<Rightarrow> None
      | Some e \<Rightarrow> if is_expired vc (ve_inserted_unix e) now then None else Some (ve_is_primary e))"

lemma is_expired_update [simp]: "is_expired (vc\<lparr>vc_inner := x\<rparr>) = is_expired vc"
  by (simp add: is_expired_def fun_eq_iff)

lemma vc_get_verdict:
  assumes "qc_laws qc view"
  shows "fst (vc_get qc now vc q) = verdict view vc now q" "verdict view (snd (vc_get qc now vc q)) = verdict view vc"
proof -
  show "fst (vc_get qc now vc q) = verdict view vc now q"
    using qc_lawsD(2) [OF assms] by (simp add: vc_get_def verdict_def case_prod_unfold Let_def split: option.split)
  show "verdict view (snd (vc_get qc now vc q)) = verdict view vc"
    using qc_lawsD(3) [OF assms]
    by (cases "vc_inner vc") (simp_all add: vc_get_def verdict_def case_prod_unfold Let_def fun_eq_iff split: option.split)
qed

lemma verdict_add:
  assumes "qc_laws qc view" "verdict view (vc_add qc now vc q b) now' q' = Some b'"
  shows "(q' = q \<and> b' = b \<and> \<not> is_expired vc now now') \<or> verdict view vc now' q' = Some b'"
  using assms(2)
  by (cases "vc_inner vc")
    (auto simp: vc_add_def verdict_def split: option.splits if_splits dest!: qc_insert_view [OF assms(1)])

lemma verdict_invalidated: "qc_laws qc view \<Longrightarrow> verdict view (vc_invalidate_all qc vc) now q = None"
  by (cases "vc_inner vc") (simp_all add: vc_invalidate_all_def verdict_def qc_lawsD)

section \<open>Saving and loading\<close>

interpretation verdict_codec: codec write_verdict read_verdict "\<lambda>x. length (fst x) < 65536"
proof
  fix x :: "bytes \<times> VerdictEntry" and r assume "length (fst x) < 65536"
  then have "unat (of_nat (length (fst x)) :: u16) = length (fst x)" by (simp add: unat_of_nat)
  then show "read_verdict (write_verdict x @ r) = Inr (x, r)"
    by (cases x) (simp add: read_verdict_def write_verdict_def rbind_def reader_simps read_exact_def rreturn_def)
qed

definition loadable :: "'s VerdictCache \<Rightarrow> u64 \<Rightarrow> bytes \<times> VerdictEntry \<Rightarrow> bool" where
  "loadable vc now x \<longleftrightarrow> \<not> is_expired vc (ve_inserted_unix (snd x)) now \<and> utf8_valid (fst x)"

lemma vc_load_loop_enc:
  "list_all (\<lambda>x. length (fst x) < 65536) xs \<Longrightarrow>
   vc_load_loop qc now vc (length xs) s n (concat (map write_verdict xs) @ r) =
     (insert_all qc (filter (loadable vc now) xs) s, Inr (n + length (filter (loadable vc now) xs)))"
proof (induction xs arbitrary: s n)
  case (Cons x xs)
  then show ?case
    using verdict_codec.dec_enc [of x] by (cases x) (auto simp: loadable_def insert_all_def)
qed (simp add: insert_all_def)


definition sample_verdicts :: "(bytes \<times> VerdictEntry) list VerdictCache" where
  "sample_verdicts = vc_add alist_qc 1000 (vc_add alist_qc 400 (vc_new alist_qc (Some \<lparr>vcc_capacity = 8, vcc_ttl = 600000\<rparr>))
     (str ''old'') True) (str ''a'') True"


end
