(* ===== verification/Hot_State.thy ===== *)
theory Hot_State
  imports Route_Index Verdict_Cache
begin

text \<open>
  \<open>src/server.rs\<close>: building the routing state from a configuration, the hot-reloadable state and
  its two reloads, the bookkeeping of reloads and the file watcher's set of changed paths.
  Creating a pool of upstream connections is a parameter (it opens sockets), as is what a
  read of a file returns.
\<close>

section \<open>Types\<close>

datatype ResolvedFallback = FallbackRule nat | FallbackServer nat | FallbackRace nat nat | FallbackCidrTest nat nat

record 'p RoutingConfig =
  rc_cfg :: Config
  rc_servers :: "'p Server list"
  rc_rules :: "'p Rule list"
  rc_needs_ruleset :: bool
  rc_fallback :: ResolvedFallback

record ('re, 'p, 'r) HotState =
  hs_routing :: "'p RoutingConfig"
  hs_ruleset :: "'re RuleSetDb option"
  hs_routing_index :: "('re, 'r) RouteIndex"
  hs_generation :: u64

record ReloadStats =
  rl_applied :: u64
  rl_failed_attempts :: u64
  rl_restart_required :: u64
  rl_last_applied_unix :: u64
  rl_last_error :: "err option"

text \<open>The part of the application state that reloads read and write.\<close>

record ('re, 'p, 'r, 'c, 'v) AppState =
  as_hot :: "('re, 'p, 'r) HotState"
  as_config_path :: "path option"
  as_cache :: "'c DnsCache"
  as_verdict_cache :: "'v VerdictCache"
  as_reload :: ReloadStats

text \<open>What the code calls outside this file: the loader's environment, new pools, the three maps.\<close>

record ('re, 'p, 'r, 'c, 'v) server_env =
  se_loader :: "'re loader_env"
  se_pool_new :: "bytes \<Rightarrow> UpstreamEndpoint list \<Rightarrow> UpstreamConfig \<Rightarrow> 'p res"
  se_route_qc :: "'r route_qc"
  se_cache_qc :: "'c dns_qc"
  se_verdict_qc :: "'v verdict_qc"

section \<open>Reload bookkeeping\<close>

definition reload_stats_new :: ReloadStats where
  "reload_stats_new = \<lparr>rl_applied = 0, rl_failed_attempts = 0, rl_restart_required = 0, rl_last_applied_unix = 0,
     rl_last_error = None\<rparr>"

definition set_last_error :: "err option \<Rightarrow> ReloadStats \<Rightarrow> ReloadStats" where
  "set_last_error msg s = s\<lparr>rl_last_error := msg\<rparr>"

definition record_applied :: "u64 \<Rightarrow> ReloadStats \<Rightarrow> ReloadStats" where
  "record_applied now s = set_last_error None (s\<lparr>rl_applied := rl_applied s + 1, rl_last_applied_unix := now\<rparr>)"

definition record_failed_attempt :: "err \<Rightarrow> ReloadStats \<Rightarrow> ReloadStats" where
  "record_failed_attempt e s = set_last_error (Some e) (s\<lparr>rl_failed_attempts := rl_failed_attempts s + 1\<rparr>)"

fun join_commas :: "string list \<Rightarrow> string" where
  "join_commas [] = ''''"
| "join_commas [f] = f"
| "join_commas (f # fs) = f @ '','' @ join_commas fs"

definition record_restart_required :: "string list \<Rightarrow> ReloadStats \<Rightarrow> ReloadStats" where
  "record_restart_required names s =
     set_last_error (Some (''config change not applied; restart required for: '' @ join_commas names))
       (s\<lparr>rl_restart_required := rl_restart_required s + 1\<rparr>)"

section \<open>Building\<close>

definition strips_ecs :: "UpstreamEndpoint \<Rightarrow> bool" where
  "strips_ecs ep \<longleftrightarrow> (case ep_ecs_mode ep of Some EcsStrip \<Rightarrow> True | None \<Rightarrow> True | _ \<Rightarrow> False)"

fun build_servers :: "(bytes \<Rightarrow> UpstreamEndpoint list \<Rightarrow> UpstreamConfig \<Rightarrow> 'p res) \<Rightarrow> UpstreamConfig \<Rightarrow> nat
    \<Rightarrow> (bytes \<times> ServerSpec) list \<Rightarrow> 'p Server list res" where
  "build_servers pool_new ucfg i [] = Inr []"
| "build_servers pool_new ucfg i ((name, spec) # rest) =
     (case (case spec of
              SpecUpstream endpoints \<Rightarrow>
                (case pool_new name endpoints ucfg of
                   Inl e \<Rightarrow> Inl e
                 | Inr pool \<Rightarrow> Inr (KindUpstream pool, list_all strips_ecs endpoints))
            | SpecFixed fas \<Rightarrow> Inr (KindFixed fas, True)) of
        Inl e \<Rightarrow> Inl e
      | Inr (kind, strip_ecs) \<Rightarrow>
          (case build_servers pool_new ucfg (i + 1) rest of
             Inl e \<Rightarrow> Inl e
           | Inr servers \<Rightarrow>
               Inr (\<lparr>sv_name = name, sv_final_name = str ''final->'' @ name, sv_index = i, sv_kind = kind,
                     sv_strip_ecs = strip_ecs\<rparr> # servers)))"

text \<open>Collecting into a hash map keeps the last server of a name.\<close>

definition server_by_name :: "'p Server list \<Rightarrow> bytes \<rightharpoonup> 'p Server" where
  "server_by_name servers = map_of (rev (map (\<lambda>s. (sv_name s, s)) servers))"

fun build_response_filters :: "(bytes \<rightharpoonup> 'p Server) \<Rightarrow> RuleFilterSpec list \<Rightarrow> ResponseFilter list res" where
  "build_response_filters by_name [] = Inr []"
| "build_response_filters by_name (spec # specs) =
     (case (case fs_action spec of
              AcceptSpec \<Rightarrow> Inr Accept
            | DropSpec \<Rightarrow> Inr Drop
            | ForwardSpec name \<Rightarrow>
                (case by_name name of
                   None \<Rightarrow> Inl ''filter forward target: no such route.servers entry''
                 | Some s \<Rightarrow> Inr (Forward (sv_index s)))) of
        Inl e \<Rightarrow> Inl e
      | Inr action \<Rightarrow>
          (case build_response_filters by_name specs of
             Inl e \<Rightarrow> Inl e
           | Inr fs \<Rightarrow>
               Inr (\<lparr>rf_answer_ip = fs_answer_ip spec, rf_response_type = fs_response_type spec,
                     rf_response_rcode = fs_response_rcode spec, rf_response_qclass = fs_response_qclass spec,
                     rf_action = action\<rparr> # fs)))"

fun build_rules :: "'c DnsCache \<Rightarrow> (bytes \<rightharpoonup> 'p Server) \<Rightarrow> nat \<Rightarrow> RuleSpec list \<Rightarrow> 'p Rule list res run" where
  "build_rules cache by_name i [] = Some (Inr [])"
| "build_rules cache by_name i (spec # specs) = do {
     server \<leftarrow> by_name (sp_server spec);
     case build_response_filters by_name (sp_filters spec) of
       Inl e \<Rightarrow> Some (Inl e)
     | Inr filters \<Rightarrow>
         let policy = resolve_policy cache (sp_cache_policy spec)
         in if 0 < pol_min_ttl policy \<and> 0 < pol_max_ttl policy \<and> pol_max_ttl policy < pol_min_ttl policy
            then Some (Inl ''effective cache.min-ttl exceeds effective cache.max-ttl'')
            else try_res (build_rules cache by_name (i + 1) specs) (\<lambda>rules.
                   Some (Inr (\<lparr>ru_index = i, ru_server = sp_server spec, ru_kind = sv_kind server, ru_cache_policy = policy,
                     ru_filters = filters, ru_matcher = sp_matcher spec, ru_strip_ecs = sv_strip_ecs server\<rparr> # rules))) }"

definition find_server :: "'p Server list \<Rightarrow> bytes \<Rightarrow> nat res" where
  "find_server servers name =
     (case first_idx (\<lambda>s. sv_name s = name) 0 servers of
        None \<Rightarrow> Inl ''fallback server not found'' | Some i \<Rightarrow> Inr i)"

definition resolve_fallback :: "Config \<Rightarrow> 'p Rule list \<Rightarrow> 'p Server list \<Rightarrow> ResolvedFallback res" where
  "resolve_fallback cfg rules servers =
     (case fb_target (cf_fallback cfg) of
        LastRule \<Rightarrow>
          if rules = [] then Inl ''route.final is required when route.rules is empty''
          else Inr (FallbackRule (length rules - 1))
      | FinalServer name \<Rightarrow> (case find_server servers name of Inl e \<Rightarrow> Inl e | Inr i \<Rightarrow> Inr (FallbackServer i))
      | Dual primary secondary answer_ip \<Rightarrow>
          (case find_server servers primary of
             Inl e \<Rightarrow> Inl e
           | Inr p \<Rightarrow>
               (case find_server servers secondary of
                  Inl e \<Rightarrow> Inl e
                | Inr s \<Rightarrow> Inr (if \<not> aim_is_empty answer_ip then FallbackCidrTest p s else FallbackRace p s))))"

text \<open>The tag sets, listed without repetition.\<close>

definition needed_ruleset_domain_tags :: "Config \<Rightarrow> bytes list" where
  "needed_ruleset_domain_tags cfg =
     remdups (concat (map (\<lambda>m. case m of MatchTag incl excl \<Rightarrow> incl @ excl | MatchDomain _ \<Rightarrow> [])
       (concat (map sp_matcher (cf_rules cfg)))))"

definition needed_ruleset_ipcidr_tags :: "Config \<Rightarrow> bytes list" where
  "needed_ruleset_ipcidr_tags cfg =
     remdups ((case fb_target (cf_fallback cfg) of Dual _ _ m \<Rightarrow> aim_include m @ aim_exclude m | _ \<Rightarrow> []) @
       concat (map (\<lambda>f. aim_include (fs_answer_ip f) @ aim_exclude (fs_answer_ip f))
         (concat (map sp_filters (cf_rules cfg)))))"

definition load_ruleset :: "'re loader_env \<Rightarrow> RuleSetSpec list \<Rightarrow> bytes list \<Rightarrow> bytes list
    \<Rightarrow> ('re RuleSetDb \<times> path set) option \<Rightarrow> 're RuleSetDb option res run" where
  "load_ruleset le ruleset_specs domain_tags ipcidr_tags reuse =
     (if domain_tags = [] \<and> ipcidr_tags = [] then Some (Inr None)
      else if ruleset_specs = [] then Some (Inl ''ruleset tags referenced in config but route.ruleset has no entries'')
      else try_res (ruleset_load le ruleset_specs domain_tags ipcidr_tags reuse) (\<lambda>db. Some (Inr (Some db))))"

definition build_hot_state :: "('re, 'p, 'r, 'c, 'v) server_env \<Rightarrow> Config \<Rightarrow> 'c DnsCache \<Rightarrow> u64
    \<Rightarrow> ('re, 'p, 'r) HotState res run" where
  "build_hot_state env cfg cache generation =
     (case build_servers (se_pool_new env) (upstream_config cfg) 0 (cf_servers cfg) of
        Inl e \<Rightarrow> Some (Inl e)
      | Inr servers \<Rightarrow>
          try_res (build_rules cache (server_by_name servers) 0 (cf_rules cfg)) (\<lambda>rules.
            case resolve_fallback cfg rules servers of
              Inl e \<Rightarrow> Some (Inl e)
            | Inr fallback \<Rightarrow>
                let domain_tags = needed_ruleset_domain_tags cfg; ipcidr_tags = needed_ruleset_ipcidr_tags cfg
                in try_res (load_ruleset (se_loader env) (cf_ruleset_specs cfg) domain_tags ipcidr_tags None) (\<lambda>ruleset.
                     Some (Inr \<lparr>hs_routing = \<lparr>rc_cfg = cfg, rc_servers = servers, rc_rules = rules,
                          rc_needs_ruleset = (domain_tags \<noteq> [] \<or> ipcidr_tags \<noteq> []), rc_fallback = fallback\<rparr>,
                        hs_ruleset = ruleset,
                        hs_routing_index = ri_build (le_regex (se_loader env)) (se_route_qc env) rules (cf_cache_size cfg),
                        hs_generation = generation\<rparr>))))"

section \<open>Reloading\<close>

definition reload_ruleset :: "('re, 'p, 'r, 'c, 'v) server_env \<Rightarrow> u64 \<Rightarrow> path set \<Rightarrow> ('re, 'p, 'r, 'c, 'v) AppState
    \<Rightarrow> (('re, 'p, 'r, 'c, 'v) AppState \<times> unit res) run" where
  "reload_ruleset env now changed_paths st =
     (let hot = as_hot st; routing = hs_routing hot; cfg = rc_cfg routing;
          domain_tags = needed_ruleset_domain_tags cfg; ipcidr_tags = needed_ruleset_ipcidr_tags cfg
      in if domain_tags = [] \<and> ipcidr_tags = [] then Some (st, Inr ())
         else do {
           r \<leftarrow> load_ruleset (se_loader env) (cf_ruleset_specs cfg) domain_tags ipcidr_tags
                 (map_option (\<lambda>db. (db, changed_paths)) (hs_ruleset hot));
           case r of
             Inl e \<Rightarrow> Some (st, Inl e)
           | Inr db \<Rightarrow>
               Some (st\<lparr>as_hot := \<lparr>hs_routing = routing, hs_ruleset = db,
                          hs_routing_index = ri_build (le_regex (se_loader env)) (se_route_qc env) (rc_rules routing) (cf_cache_size cfg),
                          hs_generation = hs_generation hot + 1\<rparr>,
                        as_cache := invalidate_all (se_cache_qc env) (as_cache st),
                        as_verdict_cache := vc_invalidate_all (se_verdict_qc env) (as_verdict_cache st),
                        as_reload := record_applied now (as_reload st)\<rparr>, Inr ()) })"

text \<open>The fields whose change needs a restart, by the names that are reported.\<close>

definition restart_fields :: "Config \<Rightarrow> Config \<Rightarrow> string list" where
  "restart_fields old new =
     (if cf_bind old \<noteq> cf_bind new \<or> cf_interface old \<noteq> cf_interface new then [''bind''] else []) @
     (if cf_worker_threads old \<noteq> cf_worker_threads new then [''runtime.worker-threads''] else []) @
     (if cf_udp_buf_size old \<noteq> cf_udp_buf_size new then [''runtime.udp-buf-size''] else []) @
     (if cf_uring_recv_buffers old \<noteq> cf_uring_recv_buffers new then [''runtime.uring-recv-buffers''] else []) @
     (if cf_udp_diagnostics old \<noteq> cf_udp_diagnostics new then [''runtime.udp-diagnostics''] else []) @
     (if cf_max_inflight old \<noteq> cf_max_inflight new then [''runtime.max-inflight''] else []) @
     (if cf_tcp_max_connections old \<noteq> cf_tcp_max_connections new then [''runtime.tcp-max-connections''] else []) @
     (if cf_cache_size old \<noteq> cf_cache_size new \<or> cf_cache_min_ttl old \<noteq> cf_cache_min_ttl new
         \<or> cf_cache_max_ttl old \<noteq> cf_cache_max_ttl new \<or> cf_cache_persist_path old \<noteq> cf_cache_persist_path new
         \<or> cf_cache_persist_interval old \<noteq> cf_cache_persist_interval new then [''cache''] else []) @
     (if cf_ipset old \<noteq> cf_ipset new then [''route add-ip''] else []) @
     (if cf_verdict_cache old \<noteq> cf_verdict_cache new then [''route.final.verdict-cache''] else []) @
     (if cf_dashboard old \<noteq> cf_dashboard new then [''dashboard''] else []) @
     (if cf_ruleset_specs old \<noteq> cf_ruleset_specs new then [''route.ruleset watcher''] else [])"

text \<open>\<open>parsed\<close> is what reading and parsing the configuration file gives.\<close>

definition reload_config :: "('re, 'p, 'r, 'c, 'v) server_env \<Rightarrow> u64 \<Rightarrow> path option \<Rightarrow> (path \<Rightarrow> Config res)
    \<Rightarrow> ('re, 'p, 'r, 'c, 'v) AppState \<Rightarrow> (('re, 'p, 'r, 'c, 'v) AppState \<times> unit res) run" where
  "reload_config env now cwd parsed st =
     (case as_config_path st of
        None \<Rightarrow> Some (st, Inr ())
      | Some config_path \<Rightarrow>
          (case parsed config_path of
             Inl e \<Rightarrow> Some (st, Inl e)
           | Inr cfg \<Rightarrow>
               (let cfg = anchor_paths (config_base_dir cwd config_path) cfg; old_hot = as_hot st;
                    changed = restart_fields (rc_cfg (hs_routing old_hot)) cfg
                in if changed \<noteq> [] then Some (st\<lparr>as_reload := record_restart_required changed (as_reload st)\<rparr>, Inr ())
                   else do {
                     r \<leftarrow> build_hot_state env cfg (as_cache st) (hs_generation old_hot + 1);
                     case r of
                       Inl e \<Rightarrow> Some (st, Inl e)
                     | Inr hot \<Rightarrow>
                         Some (st\<lparr>as_hot := hot,
                                  as_cache := invalidate_all (se_cache_qc env) (as_cache st),
                                  as_verdict_cache := vc_invalidate_all (se_verdict_qc env) (as_verdict_cache st),
                                  as_reload := record_applied now (as_reload st)\<rparr>, Inr ()) })))"

text \<open>\<open>ReloadWatcher::reload\<close> counts a failed attempt of either reload.\<close>

definition watcher_reload :: "(('re, 'p, 'r, 'c, 'v) AppState \<times> unit res) run \<Rightarrow> (('re, 'p, 'r, 'c, 'v) AppState \<times> unit res) run" where
  "watcher_reload result = do {
     (st, r) \<leftarrow> result;
     Some (case r of Inl e \<Rightarrow> st\<lparr>as_reload := record_failed_attempt e (as_reload st)\<rparr> | Inr _ \<Rightarrow> st, r) }"

section \<open>Starting\<close>

fun extend_entry :: "'k \<Rightarrow> 'v list \<Rightarrow> ('k \<times> 'v list) list \<Rightarrow> ('k \<times> 'v list) list" where
  "extend_entry k vs m = AList.update k ((case map_of m k of None \<Rightarrow> [] | Some old \<Rightarrow> old) @ vs) m"

text \<open>The addresses the cached responses would have added, by rule and filter.\<close>

fun restore_filter_ips :: "('re, 'p, 'r) HotState \<Rightarrow> ((nat \<times> nat) \<times> IpAddr list) list \<Rightarrow> (u16 \<times> bytes \<times> nat) list
    \<Rightarrow> ((nat \<times> nat) \<times> IpAddr list) list run" where
  "restore_filter_ips hot filter_ips [] = Some filter_ips"
| "restore_filter_ips hot filter_ips ((rid, packet, qe) # entries) =
     (case idx (rc_rules (hs_routing hot)) (unat rid) of
        None \<Rightarrow> restore_filter_ips hot filter_ips entries
      | Some rule \<Rightarrow> do {
          m \<leftarrow> first_match (ru_filters rule) (hs_ruleset hot) packet qe;
          case m of
            None \<Rightarrow> restore_filter_ips hot filter_ips entries
          | Some (filter_idx, f) \<Rightarrow>
              if rf_action f \<noteq> Accept then restore_filter_ips hot filter_ips entries
              else do {
                ips \<leftarrow> answer_ips packet qe;
                restore_filter_ips hot (if ips \<noteq> [] then extend_entry (unat rid, filter_idx) ips filter_ips else filter_ips) entries } })"

text \<open>
  \<open>AppState::new\<close>: the caches, loaded from the files \<open>cache_file\<close> and \<open>verdict_file\<close> when they can be
  opened, the first generation, and the addresses handed to the ipset manager. \<open>fingerprint\<close> is
  \<open>cache_fingerprint\<close>, \<open>ipset_new\<close> the check of the ipset targets.
\<close>

definition app_state_new :: "('re, 'p, 'r, 'c, 'v) server_env \<Rightarrow> Instant \<Rightarrow> u64 \<Rightarrow> (Config \<Rightarrow> u64) \<Rightarrow> (IpSetConfig \<Rightarrow> unit res)
    \<Rightarrow> bytes option \<Rightarrow> bytes option \<Rightarrow> Config \<Rightarrow> path option
    \<Rightarrow> (('re, 'p, 'r, 'c, 'v) AppState \<times> ((nat \<times> nat) \<times> IpAddr list) list) res run" where
  "app_state_new env now_instant now_unix fingerprint ipset_new cache_file verdict_file cfg config_path = do {
     let cache = cache_new (se_cache_qc env) (cache_config cfg);
     cache \<leftarrow> (case (cf_cache_persist_path cfg, cache_file) of
                (Some _, Some f) \<Rightarrow> map_option fst (load_from_file (se_cache_qc env) now_instant now_unix cache (fingerprint cfg) f)
              | _ \<Rightarrow> Some cache);
     case (case cf_ipset cfg of None \<Rightarrow> Inr () | Some ic \<Rightarrow> ipset_new ic) of
       Inl e \<Rightarrow> Some (Inl e)
     | Inr _ \<Rightarrow> do {
         let vc = vc_new (se_verdict_qc env) (cf_verdict_cache cfg);
         let vc = (case (vc_enabled vc \<and> cf_cache_persist_path cfg \<noteq> None, verdict_file) of
                     (True, Some f) \<Rightarrow> fst (vc_load_from_file (se_verdict_qc env) now_unix vc (fingerprint cfg) f)
                   | _ \<Rightarrow> vc);
         try_res (build_hot_state env cfg cache 0) (\<lambda>hot. do {
           ips \<leftarrow> (if cf_ipset cfg \<noteq> None then restore_filter_ips hot [] (for_each_rule_entry (se_cache_qc env) now_instant cache)
                   else Some []);
           Some (Inr (\<lparr>as_hot = hot, as_config_path = config_path, as_cache = cache, as_verdict_cache = vc,
                       as_reload = reload_stats_new\<rparr>, ips)) }) } }"

definition hot_generation :: "('re, 'p, 'r, 'c, 'v) AppState \<Rightarrow> u64" where
  "hot_generation st = hs_generation (as_hot st)"

section \<open>Watching files\<close>

record watch_event =
  ev_overflow :: bool
  ev_wd :: nat
  ev_name :: "bytes option"

fun collect_changed_paths :: "(nat \<rightharpoonup> path) \<Rightarrow> path set \<Rightarrow> watch_event list \<Rightarrow> path set \<Rightarrow> bool \<times> path set" where
  "collect_changed_paths wd_dirs targets [] changed = (False, changed)"
| "collect_changed_paths wd_dirs targets (event # events) changed =
     (if ev_overflow event then
        (let (_, changed) = collect_changed_paths wd_dirs targets events (changed \<union> targets) in (True, changed))
      else case (ev_name event, wd_dirs (ev_wd event)) of
        (Some name, Some dir) \<Rightarrow>
          (let full = path_join dir (Path False [name])
           in if full \<in> targets
              then (let (_, changed) = collect_changed_paths wd_dirs targets events (insert full changed) in (True, changed))
              else collect_changed_paths wd_dirs targets events changed)
      | _ \<Rightarrow> collect_changed_paths wd_dirs targets events changed)"

definition watched_dirs :: "path list \<Rightarrow> (path \<times> bytes list) list" where
  "watched_dirs paths =
     foldl (\<lambda>dirs p. extend_entry (watch_parent p) [case path_file_name p of Some f \<Rightarrow> f | None \<Rightarrow> []] dirs) [] paths"

definition RELOAD_RETRIES :: nat where
  "RELOAD_RETRIES = 5"

text \<open>
  The retries of one event: the changed paths are forgotten after a successful reload and kept
  after the last failure.
\<close>

fun retry_reload :: "('s \<Rightarrow> path set \<Rightarrow> ('s \<times> unit res) run) \<Rightarrow> nat \<Rightarrow> path set \<Rightarrow> 's \<Rightarrow> ('s \<times> path set) run" where
  "retry_reload reload 0 changed_paths st = Some (st, changed_paths)"
| "retry_reload reload (Suc retries) changed_paths st = do {
     (st, r) \<leftarrow> reload st changed_paths;
     case r of
       Inr _ \<Rightarrow> Some (st, {})
     | Inl _ \<Rightarrow> retry_reload reload retries changed_paths st }"

section \<open>Listeners\<close>

datatype listen_proto = ListenUdp | ListenTcp

definition serve_interfaces :: "InterfaceFilter \<Rightarrow> bytes list res \<Rightarrow> bytes option list res" where
  "serve_interfaces filt interface_names =
     (case filt of
        IfAll \<Rightarrow> Inr [None]
      | IfOnly names \<Rightarrow> Inr (map Some names)
      | IfExcept excluded \<Rightarrow>
          (case interface_names of
             Inl e \<Rightarrow> Inl ''failed to enumerate network interfaces''
           | Inr names \<Rightarrow>
               let filtered = map Some (filter (\<lambda>n. n \<notin> set excluded) names)
               in if filtered = [] then Inl ''interface filter excludes all available network interfaces''
                  else Inr filtered))"

text \<open>The listeners \<open>serve\<close> starts.\<close>

definition serve_listeners :: "Config \<Rightarrow> bytes list res \<Rightarrow> (listen_proto \<times> SocketAddr \<times> bytes option) list res" where
  "serve_listeners cfg interface_names =
     (if \<not> list_ex (\<lambda>ep. be_udp ep \<or> be_tcp ep) (cf_bind cfg) then Inl ''at least one bind protocol is required''
      else case serve_interfaces (cf_interface cfg) interface_names of
             Inl e \<Rightarrow> Inl e
           | Inr ifaces \<Rightarrow>
               Inr (concat (map (\<lambda>ep. concat (map (\<lambda>iface.
                 (if be_udp ep then [(ListenUdp, be_addr ep, iface)] else []) @
                 (if be_tcp ep then [(ListenTcp, be_addr ep, iface)] else [])) ifaces)) (cf_bind cfg))))"

end
