(* ===== verification/Router.thy ===== *)
theory Router
  imports Hot_State
begin

text \<open>
  \<open>src/router.rs\<close>: the target of a query that no rule matches, and what the resolver asks of a
  target: its name in reports, whether it bypasses the cache, how it is resolved and
  whether one cache entry serves all clients.
\<close>

section \<open>Definitions\<close>

datatype 'p RouteTarget =
    TargetRule "'p Rule" nat
  | TargetServer "'p Server" nat
  | TargetRace (tg_primary: "'p Server") (tg_secondary: "'p Server")
  | TargetCidrTest (tg_primary: "'p Server") (tg_secondary: "'p Server")

definition final_arc :: bytes where
  "final_arc = str ''final''"

definition rule_target :: "'p Rule \<Rightarrow> 'p RouteTarget" where
  "rule_target rule = TargetRule rule (ru_index rule)"

fun upstream_name :: "'p RouteTarget \<Rightarrow> bytes" where
  "upstream_name (TargetRule rule _) = ru_server rule"
| "upstream_name (TargetServer s _) = sv_name s"
| "upstream_name (TargetRace _ _) = str ''final''"
| "upstream_name (TargetCidrTest _ _) = str ''final''"

fun upstream_name_arc :: "'p RouteTarget \<Rightarrow> bytes" where
  "upstream_name_arc (TargetRule rule _) = ru_server rule"
| "upstream_name_arc (TargetServer s _) = sv_final_name s"
| "upstream_name_arc (TargetRace _ _) = final_arc"
| "upstream_name_arc (TargetCidrTest _ _) = final_arc"

fun skip_cache :: "'p RouteTarget \<Rightarrow> bool" where
  "skip_cache (TargetRule rule _) = pol_skip (ru_cache_policy rule)"
| "skip_cache (TargetServer _ _) = False"
| "skip_cache (TargetRace _ _) = False"
| "skip_cache (TargetCidrTest _ _) = False"

fun resolved_kind :: "'p RouteTarget \<Rightarrow> 'p Server option \<Rightarrow> 'p ServerKind option" where
  "resolved_kind (TargetRule rule _) winner = Some (ru_kind rule)"
| "resolved_kind (TargetServer s _) winner = Some (sv_kind s)"
| "resolved_kind (TargetRace _ _) winner = map_option sv_kind winner"
| "resolved_kind (TargetCidrTest _ _) winner = map_option sv_kind winner"

fun target_strip_ecs :: "'p RouteTarget \<Rightarrow> bool" where
  "target_strip_ecs (TargetRule rule _) = ru_strip_ecs rule"
| "target_strip_ecs (TargetServer s _) = sv_strip_ecs s"
| "target_strip_ecs (TargetRace primary secondary) \<longleftrightarrow> sv_strip_ecs primary \<and> sv_strip_ecs secondary"
| "target_strip_ecs (TargetCidrTest primary secondary) \<longleftrightarrow> sv_strip_ecs primary \<and> sv_strip_ecs secondary"

definition classify_target :: "('re, 'p, 'r) HotState \<Rightarrow> u16 \<Rightarrow> 'p RouteTarget run" where
  "classify_target hot qtype =
     (let rules = rc_rules (hs_routing hot); servers = rc_servers (hs_routing hot)
      in case rc_fallback (hs_routing hot) of
           FallbackRule i \<Rightarrow> do { rule \<leftarrow> idx rules i; Some (TargetRule rule i) }
         | FallbackServer i \<Rightarrow> do { s \<leftarrow> idx servers i; Some (TargetServer s i) }
         | FallbackRace p s \<Rightarrow> do { primary \<leftarrow> idx servers p; secondary \<leftarrow> idx servers s; Some (TargetRace primary secondary) }
         | FallbackCidrTest p s \<Rightarrow> do {
             primary \<leftarrow> idx servers p;
             secondary \<leftarrow> idx servers s;
             if qtype = 1 \<or> qtype = 28 then Some (TargetCidrTest primary secondary)
             else Some (TargetRace primary secondary) })"

section \<open>Built states\<close>

text \<open>
  What the state built from a configuration has: servers and rules know their own position,
  every rule is resolved through the last server of its name, forward targets and the
  fallback are in range.
\<close>

definition routing_ok :: "'p RoutingConfig \<Rightarrow> bool" where
  "routing_ok rc \<longleftrightarrow>
     map sv_index (rc_servers rc) = [0..<length (rc_servers rc)] \<and>
     map sv_name (rc_servers rc) = map fst (cf_servers (rc_cfg rc)) \<and>
     map ru_index (rc_rules rc) = [0..<length (rc_rules rc)] \<and>
     map ru_matcher (rc_rules rc) = map sp_matcher (cf_rules (rc_cfg rc)) \<and>
     (\<forall>r\<in>set (rc_rules rc). \<exists>s\<in>set (rc_servers rc). sv_name s = ru_server r \<and> ru_kind r = sv_kind s \<and> ru_strip_ecs r = sv_strip_ecs s) \<and>
     (\<forall>r\<in>set (rc_rules rc). \<forall>f\<in>set (ru_filters r). \<forall>i. rf_action f = Forward i \<longrightarrow> i < length (rc_servers rc)) \<and>
     (case rc_fallback rc of
        FallbackRule i \<Rightarrow> i < length (rc_rules rc)
      | FallbackServer i \<Rightarrow> i < length (rc_servers rc)
      | FallbackRace p s \<Rightarrow> p < length (rc_servers rc) \<and> s < length (rc_servers rc)
      | FallbackCidrTest p s \<Rightarrow> p < length (rc_servers rc) \<and> s < length (rc_servers rc))"

lemma build_servers_ok:
  "build_servers pn u k specs = Inr svs \<Longrightarrow> map sv_index svs = [k..<k + length svs] \<and> map sv_name svs = map fst specs"
proof (induction specs arbitrary: k svs)
  case (Cons spec specs)
  obtain name sp where spec: "spec = (name, sp)" by (cases spec)
  from Cons.prems obtain kind strip rest where r: "build_servers pn u (k + 1) specs = Inr rest"
    "svs = \<lparr>sv_name = name, sv_final_name = str ''final->'' @ name, sv_index = k, sv_kind = kind, sv_strip_ecs = strip\<rparr> # rest"
    by (auto simp: spec split: sum.splits ServerSpec.splits prod.splits)
  from Cons.IH [OF r(1)] show ?case by (simp add: r(2) spec upt_conv_Cons del: upt_Suc)
qed simp

lemma server_by_name_Some:
  "server_by_name servers name = Some s \<Longrightarrow> s \<in> set servers \<and> sv_name s = name"
  by (auto simp: server_by_name_def dest!: map_of_SomeD)

lemma server_by_name_total: "name \<in> sv_name ` set servers \<Longrightarrow> \<exists>s. server_by_name servers name = Some s"
  using map_of_eq_None_iff [of "rev (map (\<lambda>s. (sv_name s, s)) servers)" name]
  by (auto simp: server_by_name_def image_image)

lemma build_response_filters_ok:
  assumes "build_response_filters (server_by_name servers) specs = Inr fs" "f \<in> set fs" "rf_action f = Forward i"
    and "map sv_index servers = [0..<length servers]"
  shows "i < length servers"
  using assms(1-3)
proof (induction specs arbitrary: fs)
  case (Cons spec specs)
  have "sv_index s < length servers" if "s \<in> set servers" for s
    using that assms(4) by (metis atLeastLessThan_iff atLeastLessThan_upt image_eqI list.set_map)
  then show ?case
    using Cons by (auto split: sum.splits RuleFilterActionSpec.splits option.splits dest!: server_by_name_Some)
qed simp

lemma build_rules_ok:
  assumes "build_rules cache (server_by_name servers) k specs = Some (Inr rules)"
    and "map sv_index servers = [0..<length servers]"
  shows "map ru_index rules = [k..<k + length rules] \<and> map ru_matcher rules = map sp_matcher specs \<and>
    (\<forall>r\<in>set rules. \<exists>s\<in>set servers. sv_name s = ru_server r \<and> ru_kind r = sv_kind s \<and> ru_strip_ecs r = sv_strip_ecs s) \<and>
    (\<forall>r\<in>set rules. \<forall>f\<in>set (ru_filters r). \<forall>i. rf_action f = Forward i \<longrightarrow> i < length servers)"
  using assms(1)
proof (induction specs arbitrary: k rules)
  case (Cons spec specs)
  from Cons.prems obtain server fs rest where s: "server_by_name servers (sp_server spec) = Some server"
    and f: "build_response_filters (server_by_name servers) (sp_filters spec) = Inr fs"
    and r: "build_rules cache (server_by_name servers) (k + 1) specs = Some (Inr rest)"
    and rules: "rules = \<lparr>ru_index = k, ru_server = sp_server spec, ru_kind = sv_kind server,
        ru_cache_policy = resolve_policy cache (sp_cache_policy spec), ru_filters = fs, ru_matcher = sp_matcher spec,
        ru_strip_ecs = sv_strip_ecs server\<rparr> # rest"
    by (auto simp: Let_def try_res_Inr split: bind_splits sum.splits if_splits)
  have "\<forall>f\<in>set fs. \<forall>i. rf_action f = Forward i \<longrightarrow> i < length servers"
    using build_response_filters_ok [OF f _ _ assms(2)] by blast
  then show ?case
    using Cons.IH [OF r] server_by_name_Some [OF s] by (auto simp: rules upt_conv_Cons simp del: upt_Suc)
qed simp

lemma build_rules_total:
  assumes "\<forall>spec\<in>set specs. sp_server spec \<in> sv_name ` set servers"
  shows "\<exists>r. build_rules cache (server_by_name servers) k specs = Some r"
  using assms
proof (induction specs arbitrary: k)
  case (Cons spec specs)
  obtain s where "server_by_name servers (sp_server spec) = Some s"
    using Cons.prems server_by_name_total [of "sp_server spec" servers] by auto
  moreover obtain r where "build_rules cache (server_by_name servers) (Suc k) specs = Some r" using Cons by fastforce
  ultimately show ?case by (cases r) (auto simp: Let_def split: sum.splits)
qed simp

lemma find_server_range: "find_server servers name = Inr i \<Longrightarrow> i < length servers"
  using first_idx_find(2) [where P = "\<lambda>s. sv_name s = name" and k = 0 and rs = servers]
  by (auto simp: find_server_def split: option.splits)

lemma load_ruleset_total: "\<exists>r. load_ruleset le specs dts its reuse = Some r"
proof -
  have specs: "\<exists>r. load_specs le dts its reuse tags specs = Some r" for tags
  proof (induction specs arbitrary: tags)
    case (Cons spec specs)
    obtain r where "read_tag_entry le spec = Some r" using read_tag_entry_total by blast
    then show ?case using Cons by (cases r) (auto split: option.splits)
  qed simp
  obtain r where "load_specs le dts its reuse [] specs = Some r" using specs by blast
  then have "\<exists>r'. ruleset_load le specs dts its reuse = Some r'"
    by (cases r) (simp_all add: ruleset_load_def split: sum.split)
  then obtain r' where "ruleset_load le specs dts its reuse = Some r'" by blast
  then show ?thesis by (cases r') (simp_all add: load_ruleset_def)
qed

lemma load_ruleset_None: "load_ruleset le specs dts its reuse = Some (Inr None) \<longleftrightarrow> dts = [] \<and> its = []"
  by (auto simp: load_ruleset_def try_res_Inr split: if_splits)

lemma build_hot_state_Inr:
  assumes "build_hot_state env cfg cache g = Some (Inr hot)"
  shows "routing_ok (hs_routing hot)" "rc_cfg (hs_routing hot) = cfg" "hs_generation hot = g"
    "hs_routing_index hot = ri_build (le_regex (se_loader env)) (se_route_qc env) (rc_rules (hs_routing hot)) (cf_cache_size cfg)"
    "load_ruleset (se_loader env) (cf_ruleset_specs cfg) (needed_ruleset_domain_tags cfg) (needed_ruleset_ipcidr_tags cfg) None
       = Some (Inr (hs_ruleset hot))"
proof -
  obtain servers where s: "build_servers (se_pool_new env) (upstream_config cfg) 0 (cf_servers cfg) = Inr servers"
    using assms by (auto simp: build_hot_state_def split: sum.splits)
  obtain rules where r: "build_rules cache (server_by_name servers) 0 (cf_rules cfg) = Some (Inr rules)"
    using assms s by (auto simp: build_hot_state_def try_res_Inr)
  obtain fb where f: "resolve_fallback cfg rules servers = Inr fb"
    using assms s r by (cases "resolve_fallback cfg rules servers") (simp_all add: build_hot_state_def)
  obtain rs where l: "load_ruleset (se_loader env) (cf_ruleset_specs cfg) (needed_ruleset_domain_tags cfg)
      (needed_ruleset_ipcidr_tags cfg) None = Some (Inr rs)"
    and h: "hs_routing hot = \<lparr>rc_cfg = cfg, rc_servers = servers, rc_rules = rules,
        rc_needs_ruleset = (needed_ruleset_domain_tags cfg \<noteq> [] \<or> needed_ruleset_ipcidr_tags cfg \<noteq> []), rc_fallback = fb\<rparr>"
      "hs_ruleset hot = rs" "hs_generation hot = g"
      "hs_routing_index hot = ri_build (le_regex (se_loader env)) (se_route_qc env) rules (cf_cache_size cfg)"
    using assms s r f by (auto simp: build_hot_state_def Let_def try_res_Inr)
  have i: "map sv_index servers = [0..<length servers]" using build_servers_ok [OF s] by simp
  have "case fb of FallbackRule i \<Rightarrow> i < length rules | FallbackServer i \<Rightarrow> i < length servers
      | FallbackRace p s \<Rightarrow> p < length servers \<and> s < length servers | FallbackCidrTest p s \<Rightarrow> p < length servers \<and> s < length servers"
    using f by (auto simp: resolve_fallback_def split: FallbackTarget.splits sum.splits if_splits dest!: find_server_range)
  then show "routing_ok (hs_routing hot)"
    using build_servers_ok [OF s] build_rules_ok [OF r i] by (cases fb) (simp_all add: routing_ok_def h)
  show "rc_cfg (hs_routing hot) = cfg" "hs_generation hot = g"
    "hs_routing_index hot = ri_build (le_regex (se_loader env)) (se_route_qc env) (rc_rules (hs_routing hot)) (cf_cache_size cfg)"
    "load_ruleset (se_loader env) (cf_ruleset_specs cfg) (needed_ruleset_domain_tags cfg) (needed_ruleset_ipcidr_tags cfg) None
       = Some (Inr (hs_ruleset hot))"
    using h l by simp_all
qed

lemma build_hot_state_total:
  assumes "\<forall>spec\<in>set (cf_rules cfg). sp_server spec \<in> fst ` set (cf_servers cfg)"
  shows "\<exists>r. build_hot_state env cfg cache g = Some r"
proof (cases "build_servers (se_pool_new env) (upstream_config cfg) 0 (cf_servers cfg)")
  case (Inr servers)
  then have "sv_name ` set servers = fst ` set (cf_servers cfg)"
    using build_servers_ok [OF Inr] by (metis list.set_map)
  then obtain r where r: "build_rules cache (server_by_name servers) 0 (cf_rules cfg) = Some r"
    using build_rules_total assms by metis
  obtain l where l: "load_ruleset (se_loader env) (cf_ruleset_specs cfg) (needed_ruleset_domain_tags cfg)
      (needed_ruleset_ipcidr_tags cfg) None = Some l"
    using load_ruleset_total by blast
  show ?thesis using Inr r l by (cases r; cases l) (auto simp: build_hot_state_def Let_def split: sum.splits)
qed (simp add: build_hot_state_def)

lemma classify_target_total:
  assumes "routing_ok (hs_routing hot)"
  shows "\<exists>t. classify_target hot qtype = Some t"
  using assms by (auto simp: classify_target_def routing_ok_def idx_in Let_def split: ResolvedFallback.splits)

end
