(* ===== verification/Reload_Correct.thy ===== *)
theory Reload_Correct
  imports Router
begin

text \<open>
  Reloads of \<open>src/server.rs\<close> as transactions and as a state machine: files change, the watcher
  collects the changed paths, rule-sets and configuration are reloaded, in any order. The
  invariant relates the rule-sets in use to the files.
\<close>

section \<open>One reload\<close>

definition same_state :: "('re, 'p, 'r, 'c, 'v) AppState \<Rightarrow> ('re, 'p, 'r, 'c, 'v) AppState \<Rightarrow> bool" where
  "same_state st st' \<longleftrightarrow> as_hot st' = as_hot st \<and> as_cache st' = as_cache st \<and> as_verdict_cache st' = as_verdict_cache st"

text \<open>A new generation: a consistent routing state, its index fresh, both caches emptied.\<close>

definition swapped :: "('re, 'p, 'r, 'c, 'v) server_env \<Rightarrow> ('re, 'p, 'r, 'c, 'v) AppState \<Rightarrow> ('re, 'p, 'r, 'c, 'v) AppState \<Rightarrow> bool" where
  "swapped env st st' \<longleftrightarrow>
     hs_generation (as_hot st') = hs_generation (as_hot st) + 1 \<and> routing_ok (hs_routing (as_hot st')) \<and>
     (hs_ruleset (as_hot st') = None \<longleftrightarrow>
        needed_ruleset_domain_tags (rc_cfg (hs_routing (as_hot st'))) = [] \<and>
        needed_ruleset_ipcidr_tags (rc_cfg (hs_routing (as_hot st'))) = []) \<and>
     hs_routing_index (as_hot st') = ri_build (le_regex (se_loader env)) (se_route_qc env) (rc_rules (hs_routing (as_hot st')))
        (cf_cache_size (rc_cfg (hs_routing (as_hot st')))) \<and>
     cf_ruleset_specs (rc_cfg (hs_routing (as_hot st'))) = cf_ruleset_specs (rc_cfg (hs_routing (as_hot st))) \<and>
     as_cache st' = invalidate_all (se_cache_qc env) (as_cache st) \<and>
     as_verdict_cache st' = vc_invalidate_all (se_verdict_qc env) (as_verdict_cache st)"

lemma restart_fields_Nil:
  "restart_fields old new = [] \<Longrightarrow> cf_ruleset_specs new = cf_ruleset_specs old \<and> cf_bind new = cf_bind old \<and>
     cf_cache_size new = cf_cache_size old \<and> cf_verdict_cache new = cf_verdict_cache old \<and> cf_ipset new = cf_ipset old"
  by (simp add: restart_fields_def split: if_splits)

lemma reload_ruleset_cases:
  assumes "reload_ruleset env now changed st = Some (st', r)" "routing_ok (hs_routing (as_hot st))"
  shows "(same_state st st' \<and> st' = st \<and> (r = Inr () \<longrightarrow>
      needed_ruleset_domain_tags (rc_cfg (hs_routing (as_hot st))) = [] \<and> needed_ruleset_ipcidr_tags (rc_cfg (hs_routing (as_hot st))) = [])) \<or>
    (r = Inr () \<and> swapped env st st' \<and> hs_routing (as_hot st') = hs_routing (as_hot st) \<and>
     load_ruleset (se_loader env) (cf_ruleset_specs (rc_cfg (hs_routing (as_hot st))))
       (needed_ruleset_domain_tags (rc_cfg (hs_routing (as_hot st)))) (needed_ruleset_ipcidr_tags (rc_cfg (hs_routing (as_hot st))))
       (map_option (\<lambda>db. (db, changed)) (hs_ruleset (as_hot st))) = Some (Inr (hs_ruleset (as_hot st'))))"
proof (cases "needed_ruleset_domain_tags (rc_cfg (hs_routing (as_hot st))) = [] \<and>
      needed_ruleset_ipcidr_tags (rc_cfg (hs_routing (as_hot st))) = [] \<or> (\<exists>e. r = Inl e)")
  case True
  then show ?thesis
    using assms(1) by (auto simp: reload_ruleset_def Let_def same_state_def split: if_splits bind_splits sum.splits)
next
  case False
  then obtain db where db: "load_ruleset (se_loader env) (cf_ruleset_specs (rc_cfg (hs_routing (as_hot st))))
       (needed_ruleset_domain_tags (rc_cfg (hs_routing (as_hot st)))) (needed_ruleset_ipcidr_tags (rc_cfg (hs_routing (as_hot st))))
       (map_option (\<lambda>db. (db, changed)) (hs_ruleset (as_hot st))) = Some (Inr db)"
    using assms(1) by (auto simp: reload_ruleset_def Let_def split: if_splits bind_splits sum.splits)
  moreover from False db have "db \<noteq> None" by (metis load_ruleset_None)
  ultimately show ?thesis
    using assms False by (auto simp: reload_ruleset_def Let_def swapped_def)
qed

lemma reload_config_cases:
  assumes "reload_config env now cwd parsed st = Some (st', r)"
  shows "same_state st st' \<or>
    (r = Inr () \<and> swapped env st st' \<and>
     load_ruleset (se_loader env) (cf_ruleset_specs (rc_cfg (hs_routing (as_hot st'))))
       (needed_ruleset_domain_tags (rc_cfg (hs_routing (as_hot st')))) (needed_ruleset_ipcidr_tags (rc_cfg (hs_routing (as_hot st'))))
       None = Some (Inr (hs_ruleset (as_hot st'))))"
proof (cases "same_state st st'")
  case False
  then obtain path cfg where p: "as_config_path st = Some path" "parsed path = Inr cfg"
    using assms by (auto simp: reload_config_def same_state_def split: option.splits sum.splits)
  define cfg' where "cfg' = anchor_paths (config_base_dir cwd path) cfg"
  have rf: "restart_fields (rc_cfg (hs_routing (as_hot st))) cfg' = []"
    using assms False p by (auto simp: reload_config_def same_state_def Let_def cfg'_def split: if_splits)
  then obtain hot where hot: "build_hot_state env cfg' (as_cache st) (hs_generation (as_hot st) + 1) = Some (Inr hot)"
    and st': "r = Inr ()" "as_hot st' = hot" "as_cache st' = invalidate_all (se_cache_qc env) (as_cache st)"
      "as_verdict_cache st' = vc_invalidate_all (se_verdict_qc env) (as_verdict_cache st)"
    using assms False p
    by (auto simp: reload_config_def same_state_def Let_def cfg'_def split: bind_splits sum.splits)
  note b = build_hot_state_Inr [OF hot]
  have "hs_ruleset hot = None \<longleftrightarrow> needed_ruleset_domain_tags cfg' = [] \<and> needed_ruleset_ipcidr_tags cfg' = []"
    using b(5) load_ruleset_None by (metis option.inject sum.inject(2))
  then show ?thesis
    using b st' restart_fields_Nil [OF rf] by (simp add: swapped_def)
qed simp

lemma reload_total:
  "\<exists>x. reload_ruleset env now changed st = Some x"
  "(\<And>p cfg. parsed p = Inr cfg \<Longrightarrow> \<forall>spec\<in>set (cf_rules cfg). sp_server spec \<in> fst ` set (cf_servers cfg)) \<Longrightarrow>
   \<exists>x. reload_config env now cwd parsed st = Some x"
proof -
  obtain l where "load_ruleset (se_loader env) (cf_ruleset_specs (rc_cfg (hs_routing (as_hot st))))
       (needed_ruleset_domain_tags (rc_cfg (hs_routing (as_hot st)))) (needed_ruleset_ipcidr_tags (rc_cfg (hs_routing (as_hot st))))
       (map_option (\<lambda>db. (db, changed)) (hs_ruleset (as_hot st))) = Some l"
    using load_ruleset_total by blast
  then show "\<exists>x. reload_ruleset env now changed st = Some x"
    by (cases l) (simp_all add: reload_ruleset_def Let_def)
  assume valid: "\<And>p cfg. parsed p = Inr cfg \<Longrightarrow> \<forall>spec\<in>set (cf_rules cfg). sp_server spec \<in> fst ` set (cf_servers cfg)"
  show "\<exists>x. reload_config env now cwd parsed st = Some x"
  proof (cases "as_config_path st")
    case (Some path)
    show ?thesis
    proof (cases "parsed path")
      case (Inr cfg)
      let ?cfg = "anchor_paths (config_base_dir cwd path) cfg"
      have "\<forall>spec\<in>set (cf_rules ?cfg). sp_server spec \<in> fst ` set (cf_servers ?cfg)"
        using valid [OF Inr] by (simp add: anchor_paths_def)
      then obtain r where "build_hot_state env ?cfg (as_cache st) (hs_generation (as_hot st) + 1) = Some r"
        using build_hot_state_total by blast
      then show ?thesis using Some Inr by (cases r) (simp_all add: reload_config_def Let_def)
    qed (simp add: reload_config_def Some)
  qed (simp add: reload_config_def)
qed


section \<open>Reloads and changing files\<close>

record ('re, 'p, 'r, 'c, 'v) world =
  w_fs :: "path \<Rightarrow> bytes option"
  w_changed :: "path set"
  w_app :: "('re, 'p, 'r, 'c, 'v) AppState"

abbreviation with_files :: "('re, 'p, 'r, 'c, 'v) server_env \<Rightarrow> (path \<Rightarrow> bytes option) \<Rightarrow> ('re, 'p, 'r, 'c, 'v) server_env" where
  "with_files env fs \<equiv> env\<lparr>se_loader := (se_loader env)\<lparr>le_read := fs\<rparr>\<rparr>"

abbreviation specs_of :: "('re, 'p, 'r, 'c, 'v) AppState \<Rightarrow> RuleSetSpec list" where
  "specs_of st \<equiv> cf_ruleset_specs (rc_cfg (hs_routing (as_hot st)))"

text \<open>The operating system reports a changed file by an event of its directory, or by an overflow.\<close>

definition reported :: "(nat \<rightharpoonup> path) \<Rightarrow> watch_event list \<Rightarrow> path \<Rightarrow> bool" where
  "reported wd_dirs events p \<longleftrightarrow>
     (\<exists>ev\<in>set events. ev_overflow ev \<or>
        (\<exists>n. ev_name ev = Some n \<and> wd_dirs (ev_wd ev) = Some (watch_parent p) \<and> path_file_name p = Some n))"

inductive reload_step :: "('re, 'p, 'r, 'c, 'v) server_env \<Rightarrow> ('re, 'p, 'r, 'c, 'v) world \<Rightarrow> ('re, 'p, 'r, 'c, 'v) world \<Rightarrow> bool"
  for env :: "('re, 'p, 'r, 'c, 'v) server_env" where
  files: "(\<And>spec. spec \<in> set (specs_of (w_app w)) \<Longrightarrow> fs (rs_path spec) \<noteq> w_fs w (rs_path spec) \<Longrightarrow>
       reported wd_dirs events (rs_path spec)) \<Longrightarrow>
     collect_changed_paths wd_dirs ((normalized_watch_path \<circ> rs_path) ` set (specs_of (w_app w))) events (w_changed w) = (relevant, changed) \<Longrightarrow>
     reload_step env w (w\<lparr>w_fs := fs, w_changed := changed\<rparr>)"
| rulesets: "retry_reload (\<lambda>st changed. watcher_reload (reload_ruleset (with_files env (w_fs w)) now changed st))
       RELOAD_RETRIES (w_changed w) (w_app w) = Some (st, changed) \<Longrightarrow>
     reload_step env w (w\<lparr>w_app := st, w_changed := changed\<rparr>)"
| config: "watcher_reload (reload_config (with_files env (w_fs w)) now cwd parsed (w_app w)) = Some (st, r) \<Longrightarrow>
     reload_step env w (w\<lparr>w_app := st\<rparr>)"

text \<open>The rule-sets in use were loaded from files that have not changed since, but for the pending ones.\<close>

definition rulesets_follow :: "('re, 'p, 'r, 'c, 'v) server_env \<Rightarrow> ('re, 'p, 'r, 'c, 'v) world \<Rightarrow> bool" where
  "rulesets_follow env w \<longleftrightarrow>
     routing_ok (hs_routing (as_hot (w_app w))) \<and> distinct (map rs_tag (specs_of (w_app w))) \<and>
     (\<exists>fs. load_ruleset ((se_loader env)\<lparr>le_read := fs\<rparr>) (specs_of (w_app w))
         (needed_ruleset_domain_tags (rc_cfg (hs_routing (as_hot (w_app w)))))
         (needed_ruleset_ipcidr_tags (rc_cfg (hs_routing (as_hot (w_app w))))) None
         = Some (Inr (hs_ruleset (as_hot (w_app w)))) \<and>
       (\<forall>spec\<in>set (specs_of (w_app w)). normalized_watch_path (rs_path spec) \<notin> w_changed w \<longrightarrow>
         w_fs w (rs_path spec) = fs (rs_path spec)))"

lemma collect_grows: "collect_changed_paths wd targets events changed = (b, changed') \<Longrightarrow> changed \<subseteq> changed'"
  by (induction wd targets events changed arbitrary: b rule: collect_changed_paths.induct)
    (force simp: Let_def split: if_splits option.splits prod.splits)+

lemma normalized_watch_path_join:
  "path_file_name p = Some n \<Longrightarrow> normalized_watch_path p = path_join (watch_parent p) (Path False [n])"
  by (simp add: normalized_watch_path_def path_join_def Let_def)

lemma collect_reported:
  assumes "collect_changed_paths wd targets events changed = (b, changed')"
    and "reported wd events p" "normalized_watch_path p \<in> targets"
  shows "normalized_watch_path p \<in> changed'"
  using assms(1,2)
proof (induction events arbitrary: b changed)
  case (Cons ev events)
  consider "reported wd events p" | "ev_overflow ev"
    | n where "ev_name ev = Some n" "wd (ev_wd ev) = Some (watch_parent p)" "path_file_name p = Some n"
    using Cons.prems(2) by (auto simp: reported_def)
  then show ?case
  proof cases
    case 1
    then show ?thesis
      using Cons by (auto simp: Let_def split: if_splits option.splits prod.splits)
  next
    case 2
    then show ?thesis
      using Cons.prems(1) collect_grows [of wd targets events] assms(3) by (auto split: prod.splits)
  next
    case 3
    then show ?thesis
      using Cons.prems(1) collect_grows [of wd targets events] assms(3) normalized_watch_path_join [of p n]
      by (auto simp: Let_def split: if_splits prod.splits)
  qed
qed (simp add: reported_def)

lemma ruleset_reload_follows:
  assumes inv: "rulesets_follow env w" and hot: "as_hot st = as_hot (w_app w)"
    and reload: "reload_ruleset (with_files env (w_fs w)) now (w_changed w) st = Some (st', Inr ())"
  shows "rulesets_follow env (w\<lparr>w_app := st', w_changed := {}\<rparr>)"
proof -
  let ?cfg = "rc_cfg (hs_routing (as_hot (w_app w)))"
  let ?specs = "cf_ruleset_specs ?cfg" and ?dts = "needed_ruleset_domain_tags ?cfg" and ?its = "needed_ruleset_ipcidr_tags ?cfg"
  obtain fs where ok: "routing_ok (hs_routing (as_hot st))" "distinct (map rs_tag ?specs)"
      "load_ruleset ((se_loader env)\<lparr>le_read := fs\<rparr>) ?specs ?dts ?its None = Some (Inr (hs_ruleset (as_hot st)))"
    and same: "\<And>spec. spec \<in> set ?specs \<Longrightarrow> normalized_watch_path (rs_path spec) \<notin> w_changed w \<Longrightarrow>
      w_fs w (rs_path spec) = fs (rs_path spec)"
    using inv by (auto simp: rulesets_follow_def hot)
  have "as_hot st' = as_hot st \<and> ?dts = [] \<and> ?its = [] \<or>
      hs_routing (as_hot st') = hs_routing (as_hot st) \<and>
      load_ruleset ((se_loader env)\<lparr>le_read := w_fs w\<rparr>) ?specs ?dts ?its (map_option (\<lambda>db. (db, w_changed w)) (hs_ruleset (as_hot st)))
        = Some (Inr (hs_ruleset (as_hot st')))"
    using reload_ruleset_cases [OF reload ok(1)] by (auto simp: hot same_state_def)
  then show ?thesis
  proof (elim disjE conjE)
    assume "as_hot st' = as_hot st" "?dts = []" "?its = []"
    then show ?thesis using ok by (auto simp: rulesets_follow_def hot load_ruleset_def)
  next
    assume r: "hs_routing (as_hot st') = hs_routing (as_hot st)"
      and l: "load_ruleset ((se_loader env)\<lparr>le_read := w_fs w\<rparr>) ?specs ?dts ?its (map_option (\<lambda>db. (db, w_changed w)) (hs_ruleset (as_hot st)))
        = Some (Inr (hs_ruleset (as_hot st')))"
    have "load_ruleset ((se_loader env)\<lparr>le_read := w_fs w\<rparr>) ?specs ?dts ?its None = Some (Inr (hs_ruleset (as_hot st')))"
    proof (cases "hs_ruleset (as_hot st)")
      case (Some db)
      then have "ruleset_load ((se_loader env)\<lparr>le_read := fs\<rparr>) ?specs ?dts ?its None = Some (Inr db)"
        using ok(3) by (auto simp: load_ruleset_def try_res_Inr split: if_splits)
      then have "ruleset_load ((se_loader env)\<lparr>le_read := w_fs w\<rparr>) ?specs ?dts ?its (Some (db, w_changed w))
          = ruleset_load ((se_loader env)\<lparr>le_read := w_fs w\<rparr>) ?specs ?dts ?its None"
        using partial_load_eq [OF _ ok(2), of "(se_loader env)\<lparr>le_read := fs\<rparr>" ?dts ?its db "w_changed w" "w_fs w" ?dts ?its] same
        by simp
      then have "load_ruleset ((se_loader env)\<lparr>le_read := w_fs w\<rparr>) ?specs ?dts ?its (Some (db, w_changed w))
          = load_ruleset ((se_loader env)\<lparr>le_read := w_fs w\<rparr>) ?specs ?dts ?its None"
        by (simp only: load_ruleset_def)
      then show ?thesis using l Some by simp
    qed (use l in simp)
    then show ?thesis using ok r by (auto simp: rulesets_follow_def hot)
  qed
qed

lemma retry_cases:
  assumes "retry_reload (\<lambda>st changed. watcher_reload (reload_ruleset env now changed st)) n changed st = Some (st', changed')"
    and ok: "routing_ok (hs_routing (as_hot st))"
  shows "as_hot st' = as_hot st \<and> changed' = changed \<or>
    (\<exists>st1. as_hot st1 = as_hot st \<and> reload_ruleset env now changed st1 = Some (st', Inr ()) \<and> changed' = {})"
  using assms
proof (induction n arbitrary: st)
  case (Suc n)
  obtain st1 r where r: "reload_ruleset env now changed st = Some (st1, r)"
    using Suc.prems(1) by (auto simp: watcher_reload_def split: bind_splits)
  show ?case
  proof (cases r)
    case (Inl e)
    then have st1: "as_hot st1 = as_hot st"
      using reload_ruleset_cases [OF r Suc.prems(2)] by (auto simp: same_state_def)
    then show ?thesis
      using Suc.IH [of "st1\<lparr>as_reload := record_failed_attempt e (as_reload st1)\<rparr>"] Suc.prems r Inl by (auto simp: watcher_reload_def)
  next
    case (Inr u)
    then show ?thesis using Suc.prems(1) r by (auto simp: watcher_reload_def)
  qed
qed simp

lemma reload_step_follows: "reload_step env w w' \<Longrightarrow> rulesets_follow env w \<Longrightarrow> rulesets_follow env w'"
proof (induction rule: reload_step.induct)
  case (files w fs wd_dirs events relevant changed)
  then obtain fs0 where "routing_ok (hs_routing (as_hot (w_app w)))" "distinct (map rs_tag (specs_of (w_app w)))"
      "load_ruleset ((se_loader env)\<lparr>le_read := fs0\<rparr>) (specs_of (w_app w)) (needed_ruleset_domain_tags (rc_cfg (hs_routing (as_hot (w_app w)))))
         (needed_ruleset_ipcidr_tags (rc_cfg (hs_routing (as_hot (w_app w))))) None = Some (Inr (hs_ruleset (as_hot (w_app w))))"
      "\<forall>spec\<in>set (specs_of (w_app w)). normalized_watch_path (rs_path spec) \<notin> w_changed w \<longrightarrow> w_fs w (rs_path spec) = fs0 (rs_path spec)"
    by (auto simp: rulesets_follow_def)
  moreover have "w_fs w (rs_path spec) = fs (rs_path spec)"
    if "spec \<in> set (specs_of (w_app w))" "normalized_watch_path (rs_path spec) \<notin> changed" for spec
    using files.hyps(1) [OF that(1)] collect_reported [OF files.hyps(2)] that by fastforce
  moreover have "w_changed w \<subseteq> changed" using collect_grows [OF files.hyps(2)] .
  ultimately show ?case by (fastforce simp: rulesets_follow_def intro!: exI [of _ fs0])
next
  case (rulesets w now st changed)
  then have ok: "routing_ok (hs_routing (as_hot (w_app w)))" by (simp add: rulesets_follow_def)
  from retry_cases [OF rulesets.hyps ok] ruleset_reload_follows [OF rulesets.prems] rulesets.prems show ?case
    by (auto simp: rulesets_follow_def)
next
  case (config w now cwd parsed st r)
  then obtain st1 where st1: "reload_config (with_files env (w_fs w)) now cwd parsed (w_app w) = Some (st1, r)" "as_hot st = as_hot st1"
    by (auto simp: watcher_reload_def split: bind_splits sum.splits)
  from reload_config_cases [OF st1(1)] config.prems st1(2) show ?case
    by (auto simp: rulesets_follow_def same_state_def swapped_def)
qed

lemma reload_steps_follow: "(reload_step env)\<^sup>*\<^sup>* w w' \<Longrightarrow> rulesets_follow env w \<Longrightarrow> rulesets_follow env w'"
  by (induction rule: rtranclp_induct) (auto intro: reload_step_follows)

text \<open>
  (C6) The rule-sets in use follow the files. Start from a state built from a configuration and let
  files change, the watcher collect the reported paths, partial rule-set reloads (with
  their retries) and configuration reloads happen in any order and number. Whenever no
  change is pending, loading all files now would give exactly the rule-set database in use.
\<close>

theorem rulesets_up_to_date:
  assumes "build_hot_state (with_files env fs) cfg cache g = Some (Inr (as_hot st))"
    and "distinct (map rs_tag (cf_ruleset_specs cfg))"
    and run: "(reload_step env)\<^sup>*\<^sup>* \<lparr>w_fs = fs, w_changed = {}, w_app = st\<rparr> w"
    and idle: "w_changed w = {}"
  shows "load_ruleset ((se_loader env)\<lparr>le_read := w_fs w\<rparr>) (specs_of (w_app w))
       (needed_ruleset_domain_tags (rc_cfg (hs_routing (as_hot (w_app w)))))
       (needed_ruleset_ipcidr_tags (rc_cfg (hs_routing (as_hot (w_app w))))) None
     = Some (Inr (hs_ruleset (as_hot (w_app w))))"
proof -
  note b = build_hot_state_Inr [OF assms(1)]
  have "rulesets_follow env \<lparr>w_fs = fs, w_changed = {}, w_app = st\<rparr>"
    using b assms(2) by (auto simp: rulesets_follow_def)
  from reload_steps_follow [OF run this] obtain fs0 where
    l: "load_ruleset ((se_loader env)\<lparr>le_read := fs0\<rparr>) (specs_of (w_app w))
       (needed_ruleset_domain_tags (rc_cfg (hs_routing (as_hot (w_app w)))))
       (needed_ruleset_ipcidr_tags (rc_cfg (hs_routing (as_hot (w_app w))))) None
     = Some (Inr (hs_ruleset (as_hot (w_app w))))"
    and "\<forall>spec\<in>set (specs_of (w_app w)). w_fs w (rs_path spec) = fs0 (rs_path spec)"
    using idle by (auto simp: rulesets_follow_def)
  then have "ruleset_load ((se_loader env)\<lparr>le_read := w_fs w\<rparr>) (specs_of (w_app w)) dts its None
      = ruleset_load ((se_loader env)\<lparr>le_read := fs0\<rparr>) (specs_of (w_app w)) dts its None" for dts its
    using ruleset_load_cong [of "specs_of (w_app w)" "w_fs w" "(se_loader env)\<lparr>le_read := fs0\<rparr>"] by simp
  then show ?thesis using l by (simp only: load_ruleset_def)
qed

section \<open>An example\<close>

definition sample_config :: Config where
  "sample_config = \<lparr>cf_bind = [], cf_interface = IfAll, cf_timeout = 3000, cf_max_inflight = 1, cf_inflight_queue_ms = 0,
     cf_worker_threads = 1, cf_fallback = \<lparr>fb_target = Dual (str ''s'') (str ''s'') \<lparr>aim_include = [str ''i''], aim_exclude = []\<rparr>,
       fb_noip_as_primary_ip = False\<rparr>,
     cf_cache_size = 0, cf_cache_min_ttl = 0, cf_cache_max_ttl = 0, cf_cache_persist_path = None, cf_cache_persist_interval = 0,
     cf_udp_buf_size = 0, cf_uring_recv_buffers = 16, cf_udp_diagnostics = DiagFull, cf_upstream_udp_sockets = 1,
     cf_tcp_max_connections = 0, cf_tcp_read_timeout_ms = 0, cf_tcp_idle_timeout_ms = 0,
     cf_dashboard = \<lparr>db_enabled = False, db_bind = [], db_token = None, db_memory = 0, db_channel = 0, db_file = None\<rparr>,
     cf_servers = [(str ''s'', SpecFixed \<lparr>fa_rcode = Some 3, fa_rcode_ttl = 60, fa_answers = []\<rparr>)],
     cf_rules = [\<lparr>sp_matcher = [MatchTag [str ''d''] []], sp_server = str ''s'', sp_cache_policy = None, sp_filters = []\<rparr>],
     cf_ipset = None, cf_verdict_cache = None, cf_ruleset_specs = [domain_spec, ip_spec], cf_upstream_max_inflight = 0,
     cf_hedge_delay = None, cf_upstream_max_response_bytes = 0\<rparr>"

definition sample_server_env :: "(rx_token list, unit, (bytes \<times> nat) list, (CacheKey \<times> Entry) list, (bytes \<times> VerdictEntry) list) server_env" where
  "sample_server_env = \<lparr>se_loader = sample_env, se_pool_new = (\<lambda>_ _ _. Inr ()), se_route_qc = alist_qc, se_cache_qc = alist_qc,
     se_verdict_qc = alist_qc\<rparr>"

definition sample_app :: "(rx_token list, unit, (bytes \<times> nat) list, (CacheKey \<times> Entry) list, (bytes \<times> VerdictEntry) list) AppState" where
  "sample_app = \<lparr>as_hot = (case build_hot_state sample_server_env sample_config (cache_new alist_qc (cache_config sample_config)) 0 of
       Some (Inr h) \<Rightarrow> h), as_config_path = None, as_cache = cache_new alist_qc (cache_config sample_config),
     as_verdict_cache = vc_new alist_qc None, as_reload = reload_stats_new\<rparr>"

lemma sample_hot: "build_hot_state sample_server_env sample_config (cache_new alist_qc (cache_config sample_config)) 0
    = Some (Inr (as_hot sample_app))"
proof -
  have "load_ruleset sample_env [domain_spec, ip_spec] [str ''d''] [str ''i''] None = Some (Inr (Some sample_db))"
    by (simp add: load_ruleset_def sample_load)
  moreover have "needed_ruleset_domain_tags sample_config = [str ''d'']" "needed_ruleset_ipcidr_tags sample_config = [str ''i'']"
    by (simp_all add: needed_ruleset_domain_tags_def needed_ruleset_ipcidr_tags_def sample_config_def)
  ultimately have "\<exists>h. build_hot_state sample_server_env sample_config (cache_new alist_qc (cache_config sample_config)) 0 = Some (Inr h)"
    by (simp add: build_hot_state_def Let_def sample_server_env_def)
      (simp add: sample_config_def server_by_name_def resolve_policy_def cache_new_def cache_config_def resolve_fallback_def
        find_server_def aim_is_empty_def)
  then show ?thesis by (auto simp: sample_app_def)
qed

definition sample_files :: "path \<Rightarrow> bytes option" where
  "sample_files = (le_read sample_env)(rs_path ip_spec \<mapsto> str ''11.0.0.0/8'')"

definition sample_wd :: "nat \<Rightarrow> path option" where
  "sample_wd = (\<lambda>n. if n = 1 then Some (Path False [str ''.'']) else None)"

definition sample_events :: "watch_event list" where
  "sample_events = [\<lparr>ev_overflow = False, ev_wd = 1, ev_name = Some (str ''i.list'')\<rparr>]"

definition sample_changed :: "path set" where
  "sample_changed = {Path False [str ''.'', str ''i.list'']}"

lemma sample_env_files: "with_files sample_server_env (le_read sample_env) = sample_server_env"
  by (simp add: sample_server_env_def)

lemma sample_specs: "specs_of sample_app = [domain_spec, ip_spec]"
  using build_hot_state_Inr(2) [OF sample_hot] by (simp add: sample_config_def)

lemma sample_reload:
  "\<exists>st. retry_reload (\<lambda>st changed. watcher_reload (reload_ruleset (with_files sample_server_env sample_files) 0 changed st))
     RELOAD_RETRIES sample_changed sample_app = Some (st, {})"
proof -
  have tags: "needed_ruleset_domain_tags (rc_cfg (hs_routing (as_hot sample_app))) = [str ''d'']"
    "needed_ruleset_ipcidr_tags (rc_cfg (hs_routing (as_hot sample_app))) = [str ''i'']"
    using build_hot_state_Inr(2) [OF sample_hot]
    by (simp_all add: needed_ruleset_domain_tags_def needed_ruleset_ipcidr_tags_def sample_config_def)
  have db: "hs_ruleset (as_hot sample_app) = Some sample_db"
    using build_hot_state_Inr(2,5) [OF sample_hot] tags sample_specs
    by (simp add: load_ruleset_def sample_load sample_server_env_def)
  have "(case ruleset_load (sample_env\<lparr>le_read := sample_files\<rparr>) [domain_spec, ip_spec] [str ''d''] [str ''i''] (Some (sample_db, sample_changed)) of
      Some (Inr db) \<Rightarrow> True | _ \<Rightarrow> False)"
    by code_simp
  then obtain db' where "load_ruleset (sample_env\<lparr>le_read := sample_files\<rparr>) [domain_spec, ip_spec] [str ''d''] [str ''i'']
      (Some (sample_db, sample_changed)) = Some (Inr db')"
    by (auto simp: load_ruleset_def split: option.splits sum.splits)
  then show ?thesis
    by (simp add: RELOAD_RETRIES_def eval_nat_numeral watcher_reload_def reload_ruleset_def Let_def tags db sample_specs
        sample_server_env_def)
qed

lemma sample_file_step:
  "reload_step sample_server_env \<lparr>w_fs = le_read sample_env, w_changed = {}, w_app = sample_app\<rparr>
     \<lparr>w_fs = sample_files, w_changed = sample_changed, w_app = sample_app\<rparr>"
proof -
  let ?w0 = "\<lparr>w_fs = le_read sample_env, w_changed = {}, w_app = sample_app\<rparr>"
  have rep: "watch_parent (rs_path ip_spec) = Path False [str ''.'']" "path_file_name (rs_path ip_spec) = Some (str ''i.list'')"
    "collect_changed_paths sample_wd (set (map (normalized_watch_path \<circ> rs_path) [domain_spec, ip_spec])) sample_events {} = (True, sample_changed)"
    by code_simp+
  have "reload_step sample_server_env ?w0 (?w0\<lparr>w_fs := sample_files, w_changed := sample_changed\<rparr>)"
  proof (rule reload_step.files)
    show "collect_changed_paths sample_wd ((normalized_watch_path \<circ> rs_path) ` set (specs_of (w_app ?w0))) sample_events (w_changed ?w0)
        = (True, sample_changed)"
      using rep(3) by (simp add: sample_specs)
  next
    fix spec assume "spec \<in> set (specs_of (w_app ?w0))" "sample_files (rs_path spec) \<noteq> w_fs ?w0 (rs_path spec)"
    then have "rs_path spec = rs_path ip_spec" by (auto simp: sample_files_def split: if_splits)
    then show "reported sample_wd sample_events (rs_path spec)"
      by (simp add: reported_def sample_events_def sample_wd_def rep)
  qed
  then show ?thesis by simp
qed

theorem rulesets_up_to_date_witness:
  "\<exists>st. (reload_step sample_server_env)\<^sup>*\<^sup>* \<lparr>w_fs = le_read sample_env, w_changed = {}, w_app = sample_app\<rparr>
       \<lparr>w_fs = sample_files, w_changed = {}, w_app = st\<rparr> \<and>
     load_ruleset ((se_loader sample_server_env)\<lparr>le_read := sample_files\<rparr>) (specs_of st)
       (needed_ruleset_domain_tags (rc_cfg (hs_routing (as_hot st)))) (needed_ruleset_ipcidr_tags (rc_cfg (hs_routing (as_hot st)))) None
     = Some (Inr (hs_ruleset (as_hot st)))"
proof -
  let ?w = "\<lambda>fs c st. \<lparr>w_fs = fs, w_changed = c, w_app = st\<rparr>"
  obtain st where st: "retry_reload (\<lambda>st changed. watcher_reload (reload_ruleset (with_files sample_server_env sample_files) 0 changed st))
      RELOAD_RETRIES sample_changed sample_app = Some (st, {})"
    using sample_reload by blast
  have "reload_step sample_server_env (?w sample_files sample_changed sample_app) (?w sample_files {} st)"
    using reload_step.rulesets [where env = sample_server_env and w = "?w sample_files sample_changed sample_app"] st by fastforce
  then have run: "(reload_step sample_server_env)\<^sup>*\<^sup>* (?w (le_read sample_env) {} sample_app) (?w sample_files {} st)"
    using sample_file_step by (meson converse_rtranclp_into_rtranclp r_into_rtranclp)
  have d: "distinct (map rs_tag (cf_ruleset_specs sample_config))" by code_simp
  show ?thesis
    using rulesets_up_to_date [OF _ d run, unfolded sample_env_files, OF sample_hot] run by auto
qed


end
