(* ===== verification/Sync.thy ===== *)
theory Sync
  imports Prelude
begin

text \<open>
  What the concurrent tables of the program share: hash maps with insertion and removal, a
  mutex that may be poisoned, a table split into 64 shards by the low bits of the key, and
  the signals that end a one-shot channel.
\<close>

section \<open>Hash maps\<close>

text \<open>A hash map is the list of its entries; the order is that of no particular iteration.\<close>

definition hm_insert :: "'k \<Rightarrow> 'v \<Rightarrow> ('k \<times> 'v) list \<Rightarrow> ('k \<times> 'v) list" where
  "hm_insert k v m = (k, v) # filter (\<lambda>e. fst e \<noteq> k) m"

definition hm_remove :: "'k \<Rightarrow> ('k \<times> 'v) list \<Rightarrow> ('k \<times> 'v) list" where
  "hm_remove k m = filter (\<lambda>e. fst e \<noteq> k) m"

lemma map_of_filter_key: "map_of (filter (\<lambda>e. P (fst e)) m) k = (if P k then map_of m k else None)"
  by (induction m) auto

lemma map_of_hm_insert [simp]: "map_of (hm_insert k v m) = (map_of m)(k \<mapsto> v)"
  by (auto simp: hm_insert_def map_of_filter_key [where P = "\<lambda>q. q \<noteq> k"] fun_eq_iff)

lemma map_of_hm_remove [simp]: "map_of (hm_remove k m) = (map_of m)(k := None)"
  by (auto simp: hm_remove_def map_of_filter_key [where P = "\<lambda>q. q \<noteq> k"] fun_eq_iff)

lemma distinct_keys_filter: "distinct (map fst m) \<Longrightarrow> distinct (map fst (filter P m))"
  by (induction m) (auto simp: image_iff)

lemma distinct_hm [simp]:
  "distinct (map fst m) \<Longrightarrow> distinct (map fst (hm_insert k v m))"
  "distinct (map fst m) \<Longrightarrow> distinct (map fst (hm_remove k m))"
  by (auto simp: hm_insert_def hm_remove_def distinct_keys_filter)

section \<open>Shards\<close>

text \<open>
  A mutex holds its contents, or nothing once it is poisoned: a thread panicked while it held
  the lock. A table of shards holds an entry in the shard of its key.
\<close>

type_synonym 'a Mutex = "'a option"

type_synonym ('k, 'v) shards = "('k \<times> 'v) list Mutex list"

definition SHARDS :: nat where
  "SHARDS = 64"

definition shards_new :: "('k, 'v) shards" where
  "shards_new = replicate SHARDS (Some [])"

definition shard_index :: "'w::len word \<Rightarrow> nat" where
  "shard_index k = unat (k AND 63)"

definition shard :: "('w::len word, 'v) shards \<Rightarrow> 'w word \<Rightarrow> ('w word \<times> 'v) list Mutex run" where
  "shard t k = idx t (shard_index k)"

text \<open>The table as one map, and the tables that the operations build.\<close>

definition tbl :: "('w::len word, 'v) shards \<Rightarrow> 'w word \<rightharpoonup> 'v" where
  "tbl t k = (case t ! shard_index k of None \<Rightarrow> None | Some m \<Rightarrow> map_of m k)"

definition shards_ok :: "('w::len word, 'v) shards \<Rightarrow> bool" where
  "shards_ok t \<longleftrightarrow> length t = SHARDS \<and>
     (\<forall>i<SHARDS. \<exists>m. t ! i = Some m \<and> distinct (map fst m) \<and> (\<forall>k\<in>fst ` set m. shard_index k = i))"

lemma shard_index_less: "shard_index k < SHARDS"
proof -
  have "shard_index k = unat (take_bit 6 k)"
    by (simp add: shard_index_def take_bit_eq_mask mask_eq_exp_minus_1)
  then show ?thesis using take_bit_nat_less_exp [of 6 "unat k"] by (simp add: SHARDS_def unsigned_take_bit_eq)
qed

lemma shards_okD:
  assumes "shards_ok t"
  obtains m where "t ! shard_index k = Some m" "shard t k = Some (Some m)" "tbl t k = map_of m k" "distinct (map fst m)"
proof -
  obtain m where "t ! shard_index k = Some m" "distinct (map fst m)" "length t = SHARDS"
    using assms shard_index_less [of k] unfolding shards_ok_def by blast
  then show thesis
    using that [of m] shard_index_less [of k] by (simp add: shard_def idx_def tbl_def)
qed

lemma shards_new_ok [simp]: "shards_ok shards_new" "tbl shards_new = Map.empty"
  by (auto simp: shards_ok_def shards_new_def tbl_def fun_eq_iff nth_replicate shard_index_less)

text \<open>Writing one key in its shard writes that key of the table and keeps the table well formed.\<close>

lemma tbl_update:
  assumes "shards_ok t" "t ! shard_index k = Some m"
    and "map_of m' = (map_of m)(k := x)" "distinct (map fst m')"
  shows "shards_ok (t[shard_index k := Some m'])" and "tbl (t[shard_index k := Some m']) = (tbl t)(k := x)"
proof -
  let ?i = "shard_index k"
  have len: "length t = SHARDS" and i: "?i < length t" using assms(1) shard_index_less by (auto simp: shards_ok_def)
  have sub: "fst ` set m' \<subseteq> insert k (fst ` set m)"
    unfolding dom_map_of_conv_image_fst [symmetric] assms(3) by auto
  have keys: "\<forall>k\<in>fst ` set m. shard_index k = ?i"
    using assms(1,2) i len unfolding shards_ok_def by (metis option.inject)
  then have keys': "\<forall>q\<in>fst ` set m'. shard_index q = ?i" using sub by blast
  show "shards_ok (t[?i := Some m'])"
    unfolding shards_ok_def
  proof (intro conjI allI impI)
    fix j assume j: "j < SHARDS"
    show "\<exists>m. t[?i := Some m'] ! j = Some m \<and> distinct (map fst m) \<and> (\<forall>k\<in>fst ` set m. shard_index k = j)"
    proof (cases "j = ?i")
      case True
      then show ?thesis using i assms(4) keys' by simp
    next
      case False
      then show ?thesis using assms(1) j by (simp add: shards_ok_def)
    qed
  qed (simp add: len)
  have "map_of m q = None" if "shard_index q \<noteq> ?i" for q
    using that keys by (auto simp: map_of_eq_None_iff)
  then show "tbl (t[?i := Some m']) = (tbl t)(k := x)"
    using i assms(2,3) by (auto simp: tbl_def nth_list_update fun_eq_iff)
qed

section \<open>One-shot channels\<close>

text \<open>
  A one-shot channel ends with the first value sent, or with its sender dropped; a channel is
  named by a number. The mail is what the receivers of all channels find.
\<close>

type_synonym chan = nat

datatype 'v signal = Sent 'v | SenderDropped

type_synonym 'v mail = "chan \<rightharpoonup> 'v signal"

fun signal_all :: "(chan \<times> 'v signal) list \<Rightarrow> 'v mail \<Rightarrow> 'v mail" where
  "signal_all [] box = box"
| "signal_all ((c, v) # sigs) box = signal_all sigs (if box c = None then box(c \<mapsto> v) else box)"

lemma signal_all_same:
  "signal_all (map (\<lambda>c. (c, v)) cs) box c = (if c \<in> set cs \<and> box c = None then Some v else box c)"
  by (induction cs arbitrary: box) auto

end
