(* ===== verification/Singleflight.thy ===== *)
theory Singleflight
  imports Sync Cache
begin

text \<open>
  \<open>src/singleflight.rs\<close> and the leader guard of \<open>src/resolver.rs\<close>: the table that lets concurrent
  queries for one cache key share one upstream exchange. The first caller of a key leads;
  later callers wait on a channel each until the leader publishes, drops or is cancelled.
\<close>

section \<open>The table\<close>

type_synonym Waiters = "chan list"

record InflightTable =
  it_shards :: "(CacheKey, Waiters) shards"

type_synonym published = "bytes option"

definition inflight_table_new :: InflightTable where
  "inflight_table_new = \<lparr>it_shards = shards_new\<rparr>"

text \<open>\<open>tx\<close> is the channel that the caller waits on if another caller leads.\<close>

definition register :: "InflightTable \<Rightarrow> CacheKey \<Rightarrow> chan \<Rightarrow> (InflightTable \<times> chan option res) run" where
  "register table key tx = do {
     m \<leftarrow> shard (it_shards table) key;
     Some (case m of
        None \<Rightarrow> (table, Inl ''singleflight map poisoned'')
      | Some inflight \<Rightarrow>
          (case map_of inflight key of
             Some waiters \<Rightarrow>
               (\<lparr>it_shards = (it_shards table)[shard_index key := Some (hm_insert key (waiters @ [tx]) inflight)]\<rparr>,
                Inr (Some tx))
           | None \<Rightarrow>
               (\<lparr>it_shards = (it_shards table)[shard_index key := Some (hm_insert key [] inflight)]\<rparr>, Inr None))) }"

definition take_waiters :: "InflightTable \<Rightarrow> CacheKey \<Rightarrow> (InflightTable \<times> Waiters) run" where
  "take_waiters table key = do {
     m \<leftarrow> shard (it_shards table) key;
     Some (case m of
        None \<Rightarrow> (table, [])
      | Some inflight \<Rightarrow>
          (case map_of inflight key of
             None \<Rightarrow> (table, [])
           | Some waiters \<Rightarrow>
               (\<lparr>it_shards = (it_shards table)[shard_index key := Some (hm_remove key inflight)]\<rparr>, waiters))) }"

type_synonym sf_effect = "(InflightTable \<times> (chan \<times> published signal) list) run"

definition publish_bytes :: "InflightTable \<Rightarrow> CacheKey \<Rightarrow> bytes \<Rightarrow> sf_effect" where
  "publish_bytes table key resp = do {
     (table, waiters) \<leftarrow> take_waiters table key;
     Some (table, map (\<lambda>tx. (tx, Sent (Some resp))) waiters) }"

definition publish_drop :: "InflightTable \<Rightarrow> CacheKey \<Rightarrow> sf_effect" where
  "publish_drop table key = do {
     (table, waiters) \<leftarrow> take_waiters table key;
     Some (table, map (\<lambda>tx. (tx, Sent None)) waiters) }"

definition sf_remove :: "InflightTable \<Rightarrow> CacheKey \<Rightarrow> sf_effect" where
  "sf_remove table key = do {
     (table, waiters) \<leftarrow> take_waiters table key;
     Some (table, map (\<lambda>tx. (tx, SenderDropped)) waiters) }"

text \<open>The guard that a leader holds until its query ends, and what dropping it does.\<close>

record SingleflightLeader =
  sl_key :: CacheKey
  sl_published :: bool

definition leader_drop :: "SingleflightLeader \<Rightarrow> InflightTable \<Rightarrow> sf_effect" where
  "leader_drop l table = (if sl_published l then Some (table, []) else sf_remove table (sl_key l))"

section \<open>The table as a map\<close>

abbreviation waiters_of :: "InflightTable \<Rightarrow> CacheKey \<rightharpoonup> Waiters" where
  "waiters_of table \<equiv> tbl (it_shards table)"

abbreviation table_ok :: "InflightTable \<Rightarrow> bool" where
  "table_ok table \<equiv> shards_ok (it_shards table)"

lemma register_spec:
  assumes "table_ok table"
  obtains table' where "table_ok table'"
    "register table key tx = Some (table', Inr (case waiters_of table key of None \<Rightarrow> None | Some ws \<Rightarrow> Some tx))"
    "waiters_of table' = (waiters_of table)(key \<mapsto> (case waiters_of table key of None \<Rightarrow> [] | Some ws \<Rightarrow> ws @ [tx]))"
proof -
  obtain m where m: "it_shards table ! shard_index key = Some m" "shard (it_shards table) key = Some (Some m)"
    "waiters_of table key = map_of m key" "distinct (map fst m)"
    using assms by (rule shards_okD)
  let ?ws = "case map_of m key of None \<Rightarrow> [] | Some ws \<Rightarrow> ws @ [tx]"
  let ?t = "\<lparr>it_shards = (it_shards table)[shard_index key := Some (hm_insert key ?ws m)]\<rparr>"
  have "table_ok ?t" "waiters_of ?t = (waiters_of table)(key \<mapsto> ?ws)"
    using tbl_update [OF assms m(1), of "hm_insert key ?ws m" "Some ?ws"] m(4) by simp_all
  moreover have "register table key tx = Some (?t, Inr (case waiters_of table key of None \<Rightarrow> None | Some ws \<Rightarrow> Some tx))"
    by (simp add: register_def m split: option.split)
  ultimately show thesis using that [of ?t] by (simp add: m(3))
qed

lemma take_waiters_spec:
  assumes "table_ok table"
  obtains table' where "table_ok table'" "waiters_of table' = (waiters_of table)(key := None)"
    "take_waiters table key = Some (table', case waiters_of table key of None \<Rightarrow> [] | Some ws \<Rightarrow> ws)"
proof -
  obtain m where m: "it_shards table ! shard_index key = Some m" "shard (it_shards table) key = Some (Some m)"
    "waiters_of table key = map_of m key" "distinct (map fst m)"
    using assms by (rule shards_okD)
  show thesis
  proof (cases "map_of m key")
    case None
    then show ?thesis using that [of table] assms m by (simp add: take_waiters_def fun_upd_idem)
  next
    case (Some ws)
    let ?t = "\<lparr>it_shards = (it_shards table)[shard_index key := Some (hm_remove key m)]\<rparr>"
    have "table_ok ?t" "waiters_of ?t = (waiters_of table)(key := None)"
      using tbl_update [OF assms m(1), of "hm_remove key m" None] m(4) by simp_all
    then show ?thesis using that [of ?t] Some m by (simp add: take_waiters_def)
  qed
qed

section \<open>Leaders and followers\<close>

text \<open>
  Any number of queries run through the table. A query that joins becomes a leader, with a
  guard, or a follower, with a channel. A leader publishes a response or a drop and marks
  its guard; its guard is dropped at the end of the query, or earlier when the query is
  cancelled. Between any two of these steps, any other query may take one.
\<close>

record sf_sys =
  sy_table :: InflightTable
  sy_mail :: "published mail"
  sy_leaders :: "nat \<rightharpoonup> SingleflightLeader"
  sy_followers :: "chan \<rightharpoonup> CacheKey"
  sy_next :: nat

definition sf_init :: sf_sys where
  "sf_init = \<lparr>sy_table = inflight_table_new, sy_mail = Map.empty, sy_leaders = Map.empty, sy_followers = Map.empty,
     sy_next = 0\<rparr>"

inductive sf_step :: "sf_sys \<Rightarrow> sf_sys \<Rightarrow> bool" where
  lead: "register (sy_table s) k (sy_next s) = Some (t, Inr None) \<Longrightarrow>
    sf_step s (s\<lparr>sy_table := t, sy_leaders := (sy_leaders s)(sy_next s \<mapsto> \<lparr>sl_key = k, sl_published = False\<rparr>),
      sy_next := sy_next s + 1\<rparr>)"
| follow: "register (sy_table s) k (sy_next s) = Some (t, Inr (Some rx)) \<Longrightarrow>
    sf_step s (s\<lparr>sy_table := t, sy_followers := (sy_followers s)(rx \<mapsto> k), sy_next := sy_next s + 1\<rparr>)"
| publish: "sy_leaders s l = Some ld \<Longrightarrow> \<not> sl_published ld \<Longrightarrow>
    publish_bytes (sy_table s) (sl_key ld) resp = Some (t, sigs) \<or> publish_drop (sy_table s) (sl_key ld) = Some (t, sigs) \<Longrightarrow>
    sf_step s (s\<lparr>sy_table := t, sy_mail := signal_all sigs (sy_mail s),
      sy_leaders := (sy_leaders s)(l \<mapsto> ld\<lparr>sl_published := True\<rparr>)\<rparr>)"
| finish: "sy_leaders s l = Some ld \<Longrightarrow> leader_drop ld (sy_table s) = Some (t, sigs) \<Longrightarrow>
    sf_step s (s\<lparr>sy_table := t, sy_mail := signal_all sigs (sy_mail s), sy_leaders := (sy_leaders s)(l := None)\<rparr>)"

abbreviation sf_reachable :: "sf_sys \<Rightarrow> bool" where
  "sf_reachable s \<equiv> sf_step\<^sup>*\<^sup>* sf_init s"

definition leads :: "sf_sys \<Rightarrow> nat \<Rightarrow> CacheKey \<Rightarrow> bool" where
  "leads s l k \<longleftrightarrow> sy_leaders s l = Some \<lparr>sl_key = k, sl_published = False\<rparr>"

definition waits :: "sf_sys \<Rightarrow> chan \<Rightarrow> CacheKey \<Rightarrow> bool" where
  "waits s c k \<longleftrightarrow> sy_followers s c = Some k \<and> sy_mail s c = None"

text \<open>A key is in the table exactly while a query leads it, and its list is of the queries that wait for it.\<close>

definition sf_inv :: "sf_sys \<Rightarrow> bool" where
  "sf_inv s \<longleftrightarrow> table_ok (sy_table s) \<and>
     (\<forall>k. waiters_of (sy_table s) k = None \<longleftrightarrow> (\<nexists>l. leads s l k)) \<and>
     (\<forall>k l l'. leads s l k \<longrightarrow> leads s l' k \<longrightarrow> l = l') \<and>
     (\<forall>k c. waits s c k \<longleftrightarrow> (\<exists>ws. waiters_of (sy_table s) k = Some ws \<and> c \<in> set ws)) \<and>
     (\<forall>l\<in>dom (sy_leaders s). l < sy_next s) \<and> (\<forall>c\<in>dom (sy_followers s) \<union> dom (sy_mail s). c < sy_next s)"

lemma sf_invD:
  assumes "sf_inv s"
  shows "table_ok (sy_table s)"
    and "waiters_of (sy_table s) k = None \<longleftrightarrow> (\<nexists>l. leads s l k)"
    and "leads s l k \<Longrightarrow> leads s l' k \<Longrightarrow> l = l'"
    and "waits s c k \<longleftrightarrow> (\<exists>ws. waiters_of (sy_table s) k = Some ws \<and> c \<in> set ws)"
    and "l \<in> dom (sy_leaders s) \<Longrightarrow> l < sy_next s"
    and "c \<in> dom (sy_followers s) \<union> dom (sy_mail s) \<Longrightarrow> c < sy_next s"
  using assms unfolding sf_inv_def by (simp, blast+)

lemma leads_iff: "sy_leaders s l = Some ld \<Longrightarrow> \<not> sl_published ld \<Longrightarrow> leads s l k \<longleftrightarrow> k = sl_key ld"
  by (cases ld) (auto simp: leads_def)

text \<open>Taking the waiters of a led key ends the lead and signals exactly the queries that wait for the key.\<close>

lemma end_lead:
  assumes inv: "sf_inv s" and l: "leads s l k" and tk: "take_waiters (sy_table s) k = Some (t, ws)"
    and lds: "\<And>j q. (\<exists>ld. lds j = Some ld \<and> ld = \<lparr>sl_key = q, sl_published = False\<rparr>) \<longleftrightarrow> leads s j q \<and> j \<noteq> l"
      "dom lds \<subseteq> dom (sy_leaders s)"
  shows "sf_inv (s\<lparr>sy_table := t, sy_mail := signal_all (map (\<lambda>c. (c, v)) ws) (sy_mail s), sy_leaders := lds\<rparr>)"
    and "set ws = {c. waits s c k}"
proof -
  obtain t' where t': "table_ok t'" "waiters_of t' = (waiters_of (sy_table s))(k := None)"
    "take_waiters (sy_table s) k = Some (t', case waiters_of (sy_table s) k of None \<Rightarrow> [] | Some ws \<Rightarrow> ws)"
    using take_waiters_spec [OF sf_invD(1) [OF inv]] by metis
  obtain ws' where ws': "waiters_of (sy_table s) k = Some ws'" using sf_invD(2) [OF inv] l by fastforce
  then have eq: "t' = t" "ws' = ws" using tk t'(3) by auto
  show set: "set ws = {c. waits s c k}" using sf_invD(4) [OF inv, of _ k] ws' eq(2) by auto
  let ?s = "s\<lparr>sy_table := t, sy_mail := signal_all (map (\<lambda>c. (c, v)) ws) (sy_mail s), sy_leaders := lds\<rparr>"
  have leads: "leads ?s j q \<longleftrightarrow> leads s j q \<and> j \<noteq> l" for j q using lds(1) by (simp add: leads_def)
  have key: "q = k" if "leads s l q" for q using that l by (simp add: leads_def)
  have waits: "waits ?s c q \<longleftrightarrow> waits s c q \<and> q \<noteq> k" for c q
    by (auto simp: waits_def signal_all_same set)
  have box: "dom (sy_mail ?s) \<subseteq> dom (sy_followers s) \<union> dom (sy_mail s)"
    by (auto simp: signal_all_same set waits_def split: if_splits)
  have "waiters_of t q = None \<longleftrightarrow> (\<nexists>j. leads ?s j q)" for q
  proof (cases "q = k")
    case True
    then show ?thesis using t'(2) sf_invD(3) [OF inv l] unfolding leads eq(1) by auto
  next
    case False
    then have "(\<nexists>j. leads ?s j q) \<longleftrightarrow> (\<nexists>j. leads s j q)" unfolding leads using key by blast
    then show ?thesis using False t'(2) sf_invD(2) [OF inv, of q] by (simp add: eq(1))
  qed
  moreover have "waits ?s c q \<longleftrightarrow> (\<exists>ws. waiters_of t q = Some ws \<and> c \<in> set ws)" for c q
    unfolding waits t'(2) [unfolded eq(1)] sf_invD(4) [OF inv] by auto
  moreover have "c < sy_next s" if "c \<in> dom (sy_followers s) \<union> dom (sy_mail ?s)" for c
    using that box sf_invD(6) [OF inv, of c] by blast
  moreover have "j < sy_next s" if "j \<in> dom lds" for j using that lds(2) sf_invD(5) [OF inv, of j] by blast
  moreover have "j = j'" if "leads ?s j q" "leads ?s j' q" for j j' q
    using that sf_invD(3) [OF inv, of j q j'] unfolding leads by blast
  ultimately show "sf_inv ?s" unfolding sf_inv_def [of ?s] using t'(1) eq(1) by simp
qed

lemma take_waiters_run: "table_ok table \<Longrightarrow> \<exists>r. take_waiters table key = Some r"
  using take_waiters_spec by metis

lemma join_inv:
  assumes inv: "sf_inv s" and reg: "register (sy_table s) k (sy_next s) = Some (t, Inr w)"
  shows "sf_inv (case w of
      None \<Rightarrow> s\<lparr>sy_table := t, sy_leaders := (sy_leaders s)(sy_next s \<mapsto> \<lparr>sl_key = k, sl_published = False\<rparr>), sy_next := sy_next s + 1\<rparr>
    | Some rx \<Rightarrow> s\<lparr>sy_table := t, sy_followers := (sy_followers s)(rx \<mapsto> k), sy_next := sy_next s + 1\<rparr>)"
proof -
  let ?n = "sy_next s" and ?w = "waiters_of (sy_table s)"
  obtain t' where t': "table_ok t'"
    "register (sy_table s) k ?n = Some (t', Inr (case ?w k of None \<Rightarrow> None | Some ws \<Rightarrow> Some ?n))"
    "waiters_of t' = ?w(k \<mapsto> (case ?w k of None \<Rightarrow> [] | Some ws \<Rightarrow> ws @ [?n]))"
    using register_spec [OF sf_invD(1) [OF inv]] by metis
  have t: "t' = t" and w: "w = (case ?w k of None \<Rightarrow> None | Some ws \<Rightarrow> Some ?n)" using reg t'(2) by auto
  have fresh: "?n \<notin> dom (sy_leaders s)" "?n \<notin> dom (sy_followers s)" "?n \<notin> dom (sy_mail s)"
    using sf_invD(5,6) [OF inv, of ?n] by auto
  have later: "\<And>l y. sy_leaders s l = Some y \<Longrightarrow> l < Suc ?n" "\<And>c y. sy_followers s c = Some y \<Longrightarrow> c < Suc ?n"
    "\<And>c y. sy_mail s c = Some y \<Longrightarrow> c < Suc ?n"
    using sf_invD(5,6) [OF inv] by (blast intro: less_SucI)+
  show ?thesis
  proof (cases "?w k")
    case None
    let ?s = "s\<lparr>sy_table := t, sy_leaders := (sy_leaders s)(?n \<mapsto> \<lparr>sl_key = k, sl_published = False\<rparr>), sy_next := ?n + 1\<rparr>"
    have leads: "leads ?s l q \<longleftrightarrow> leads s l q \<or> l = ?n \<and> q = k" for l q using fresh(1) by (auto simp: leads_def)
    have "\<not> leads s l k" for l using sf_invD(2) [OF inv, of k] None by blast
    then have "sf_inv ?s"
      using t'(1) sf_invD(1-4) [OF inv] later unfolding sf_inv_def [of ?s] leads
      by (auto simp: t waits_def None t'(3) [unfolded t])
    then show ?thesis by (simp add: w None)
  next
    case (Some ws)
    let ?s = "s\<lparr>sy_table := t, sy_followers := (sy_followers s)(?n \<mapsto> k), sy_next := ?n + 1\<rparr>"
    have waits: "waits ?s c q \<longleftrightarrow> (if c = ?n then q = k else waits s c q)" for c q
      using fresh(3) by (auto simp: waits_def)
    have "\<not> waits s ?n q" for q using fresh(2) by (auto simp: waits_def)
    then have old: "?n \<notin> set ws'" if "?w q = Some ws'" for q ws' using that sf_invD(4) [OF inv, of ?n q] by simp
    have "waits ?s c q \<longleftrightarrow> (\<exists>ws. waiters_of t q = Some ws \<and> c \<in> set ws)" for c q
      unfolding waits t'(3) [unfolded t] using sf_invD(4) [OF inv, of c q] Some old [of q] by (auto split: if_splits)
    moreover have "leads ?s = leads s" by (auto simp: leads_def fun_eq_iff)
    moreover have "waiters_of t q = None \<longleftrightarrow> ?w q = None" for q by (simp add: t'(3) [unfolded t] Some)
    ultimately have "sf_inv ?s"
      using t'(1) sf_invD(1-4) [OF inv] later unfolding sf_inv_def [of ?s] by (auto simp: t)
    then show ?thesis by (simp add: w Some)
  qed
qed

lemma sf_step_inv: "sf_step s s' \<Longrightarrow> sf_inv s \<Longrightarrow> sf_inv s'"
proof (induction rule: sf_step.induct)
  case (lead s k t)
  then show ?case using join_inv [of s k t None] by simp
next
  case (follow s k t rx)
  then show ?case using join_inv [of s k t "Some rx"] by simp
next
  case (publish s l ld resp t sigs)
  then obtain ws v where tk: "take_waiters (sy_table s) (sl_key ld) = Some (t, ws)" "sigs = map (\<lambda>c. (c, v)) ws"
    by (auto simp: publish_bytes_def publish_drop_def split: Option.bind_splits)
  have marked: "ld\<lparr>sl_published := True\<rparr> \<noteq> \<lparr>sl_key = q, sl_published = False\<rparr>" for q by (cases ld) simp
  have "leads s l (sl_key ld)" using publish leads_iff by blast
  then show ?case
    unfolding tk(2) by (intro end_lead(1) [OF publish.prems _ tk(1)]) (use publish.hyps(1) marked in \<open>auto simp: leads_def\<close>)
next
  case (finish s l ld t sigs)
  show ?case
  proof (cases "sl_published ld")
    case True
    then have "leads (s\<lparr>sy_leaders := (sy_leaders s)(l := None)\<rparr>) = leads s" (is "leads ?s = _")
      using finish(1) by (auto simp: leads_def fun_eq_iff)
    then have "sf_inv ?s"
      using finish.prems unfolding sf_inv_def waits_def by (auto split: if_splits)
    moreover have "t = sy_table s" "sigs = []" using finish(2) True by (simp_all add: leader_drop_def)
    ultimately show ?thesis by simp
  next
    case False
    then obtain ws where tk: "take_waiters (sy_table s) (sl_key ld) = Some (t, ws)" "sigs = map (\<lambda>c. (c, SenderDropped)) ws"
      using finish(2) by (auto simp: leader_drop_def sf_remove_def split: Option.bind_splits)
    have "leads s l (sl_key ld)" using finish(1) False leads_iff by blast
    then show ?thesis
      unfolding tk(2) by (intro end_lead(1) [OF finish.prems _ tk(1)]) (use finish.hyps(1) in \<open>auto simp: leads_def\<close>)
  qed
qed

lemma sf_reachable_inv: "sf_reachable s \<Longrightarrow> sf_inv s"
proof (induction rule: rtranclp_induct)
  case base
  show ?case by (simp add: sf_inv_def sf_init_def inflight_table_new_def leads_def waits_def)
qed (rule sf_step_inv)

text \<open>Ending a lead, by whichever of the three ways, signals exactly the queries that wait for the key.\<close>

lemma lead_signals:
  assumes "sf_inv s" "leads s l k"
  obtains t ws where "take_waiters (sy_table s) k = Some (t, ws)" "waiters_of t k = None"
    "\<And>v c. signal_all (map (\<lambda>c. (c, v)) ws) (sy_mail s) c = (if waits s c k then Some v else sy_mail s c)"
proof -
  obtain t where t: "waiters_of t = (waiters_of (sy_table s))(k := None)"
    "take_waiters (sy_table s) k = Some (t, case waiters_of (sy_table s) k of None \<Rightarrow> [] | Some ws \<Rightarrow> ws)" (is "_ = Some (t, ?ws)")
    using take_waiters_spec [OF sf_invD(1) [OF assms(1)]] by metis
  have "set ?ws = {c. waits s c k}"
    using sf_invD(4) [OF assms(1), of _ k] by (cases "waiters_of (sy_table s) k") auto
  then show thesis using that [OF t(2)] t(1) by (auto simp: signal_all_same waits_def)
qed

text \<open>
  (C4) Queries that share a cache key share one exchange. However joining, publishing,
  cancelling and finishing queries interleave: a key has at most one leader; a query that
  waits always has a leader that will answer it; and when that leader publishes a response,
  publishes a drop or is cancelled, without any panic exactly the queries waiting for its
  key receive the response, the drop or the closed channel, and the key is free for a new
  leader, whom the old leader's guard can no longer evict.
\<close>

theorem no_stranded_follower:
  assumes "sf_reachable s"
  shows "(\<forall>k l l'. leads s l k \<longrightarrow> leads s l' k \<longrightarrow> l = l') \<and>
    (\<forall>c k. waits s c k \<longrightarrow> (\<exists>l. leads s l k)) \<and>
    (\<forall>l k resp. leads s l k \<longrightarrow>
       (\<exists>t sigs drops gone. publish_bytes (sy_table s) k resp = Some (t, sigs) \<and> publish_drop (sy_table s) k = Some (t, drops) \<and>
          leader_drop \<lparr>sl_key = k, sl_published = False\<rparr> (sy_table s) = Some (t, gone) \<and>
          (\<forall>c. signal_all sigs (sy_mail s) c = (if waits s c k then Some (Sent (Some resp)) else sy_mail s c) \<and>
               signal_all drops (sy_mail s) c = (if waits s c k then Some (Sent None) else sy_mail s c) \<and>
               signal_all gone (sy_mail s) c = (if waits s c k then Some SenderDropped else sy_mail s c)) \<and>
          waiters_of t k = None \<and> leader_drop \<lparr>sl_key = k, sl_published = True\<rparr> (sy_table s) = Some (sy_table s, [])))"
proof (intro conjI allI impI)
  have inv: "sf_inv s" using assms by (rule sf_reachable_inv)
  show "l = l'" if "leads s l k" "leads s l' k" for k l l' using that by (rule sf_invD(3) [OF inv])
  show "\<exists>l. leads s l k" if "waits s c k" for c k using that sf_invD(2) [OF inv, of k] sf_invD(4) [OF inv, of c k] by fastforce
  fix l k resp assume "leads s l k"
  then obtain t ws where t: "take_waiters (sy_table s) k = Some (t, ws)" "waiters_of t k = None"
    "\<And>v c. signal_all (map (\<lambda>c. (c, v)) ws) (sy_mail s) c = (if waits s c k then Some v else sy_mail s c)"
    using lead_signals [OF inv] by metis
  show "\<exists>t sigs drops gone. publish_bytes (sy_table s) k resp = Some (t, sigs) \<and> publish_drop (sy_table s) k = Some (t, drops) \<and>
      leader_drop \<lparr>sl_key = k, sl_published = False\<rparr> (sy_table s) = Some (t, gone) \<and>
      (\<forall>c. signal_all sigs (sy_mail s) c = (if waits s c k then Some (Sent (Some resp)) else sy_mail s c) \<and>
           signal_all drops (sy_mail s) c = (if waits s c k then Some (Sent None) else sy_mail s c) \<and>
           signal_all gone (sy_mail s) c = (if waits s c k then Some SenderDropped else sy_mail s c)) \<and>
      waiters_of t k = None \<and> leader_drop \<lparr>sl_key = k, sl_published = True\<rparr> (sy_table s) = Some (sy_table s, [])"
    using t(2,3) by (auto simp: publish_bytes_def publish_drop_def leader_drop_def sf_remove_def t(1))
qed

definition led_and_followed :: sf_sys where
  "led_and_followed = (let (t, _) = the (register inflight_table_new 42 0); (t', _) = the (register t 42 1)
     in sf_init\<lparr>sy_table := t', sy_leaders := [0 \<mapsto> \<lparr>sl_key = 42, sl_published = False\<rparr>], sy_followers := [1 \<mapsto> 42], sy_next := 1 + 1\<rparr>)"

theorem no_stranded_follower_witness:
  "\<exists>t sigs. publish_bytes (sy_table led_and_followed) 42 [7] = Some (t, sigs) \<and>
     signal_all sigs (sy_mail led_and_followed) 1 = Some (Sent (Some [7])) \<and> waiters_of t 42 = None"
proof -
  obtain t where t: "table_ok t" "register inflight_table_new 42 0 = Some (t, Inr None)" "waiters_of t = [42 \<mapsto> []]"
    using register_spec [of inflight_table_new 42 0] by (auto simp: inflight_table_new_def)
  obtain t' where t': "register t 42 1 = Some (t', Inr (Some 1))"
    using register_spec [OF t(1), of 42 1] t(3) by auto
  have "sf_step sf_init (sf_init\<lparr>sy_table := t, sy_leaders := [0 \<mapsto> \<lparr>sl_key = 42, sl_published = False\<rparr>], sy_next := 1\<rparr>)"
    (is "sf_step _ ?s") using lead [of sf_init 42 t] t(2) by (simp add: sf_init_def)
  moreover have "sf_step ?s led_and_followed"
    using follow [of ?s 42 t' 1] t(2) t' by (simp add: led_and_followed_def sf_init_def)
  ultimately have "sf_reachable led_and_followed" by (meson rtranclp.simps)
  moreover have "leads led_and_followed 0 42" "waits led_and_followed 1 42"
    using t(2) t' by (simp_all add: led_and_followed_def leads_def waits_def sf_init_def)
  ultimately show ?thesis
    using no_stranded_follower [of led_and_followed] by fastforce
qed

end
