(* ===== verification/Upstream_Wire.thy ===== *)
theory Upstream_Wire
  imports Config Cache_Correct
begin

text \<open>
  The parts of \<open>src/upstream/mod.rs\<close> that shape the bytes exchanged with an upstream: the ECS mode
  of a query, its upstream id, the check that a response answers the query it arrived for,
  and the length prefix of a stream transport.
\<close>

section \<open>Definitions\<close>

definition unwrap_or_packet :: "bytes \<Rightarrow> bytes option \<Rightarrow> bytes" where
  "unwrap_or_packet packet r = (case r of None \<Rightarrow> packet | Some v \<Rightarrow> v)"

definition apply_ecs_mode :: "bytes \<Rightarrow> EcsMode \<Rightarrow> bytes run" where
  "apply_ecs_mode packet mode =
     (case mode of
        EcsStrip \<Rightarrow> map_option (unwrap_or_packet packet) (strip_edns_ecs packet)
      | EcsForward \<Rightarrow> Some packet
      | EcsFixed subnet \<Rightarrow> map_option (unwrap_or_packet packet) (inject_or_replace_ecs packet subnet))"

definition prepare_query :: "bytes \<Rightarrow> EcsMode \<Rightarrow> u16 \<Rightarrow> bytes res run" where
  "prepare_query packet ecs_mode upstream_id = do {
     pkt \<leftarrow> apply_ecs_mode packet ecs_mode;
     Some (set_id pkt upstream_id) }"

text \<open>The question section of a packet, empty if there is none.\<close>

definition question_of :: "bytes \<Rightarrow> bytes" where
  "question_of packet =
     (case question_end packet of
        None \<Rightarrow> []
      | Some e \<Rightarrow> (case get_range packet 12 e of None \<Rightarrow> [] | Some q \<Rightarrow> q))"

definition validate_upstream_response :: "bytes \<Rightarrow> u16 \<Rightarrow> bytes \<Rightarrow> unit res run" where
  "validate_upstream_response resp upstream_id question =
     (if \<not> is_reply resp then Some (Inl ''response QR bit not set'')
      else if get_id resp \<noteq> Inr upstream_id then Some (Inl ''response ID mismatch'')
      else do {
        same \<leftarrow> questions_match (question_of resp) question;
        Some (if same then Inr () else Inl ''response question mismatch'') })"

definition finalize_response :: "bytes \<Rightarrow> u16 \<Rightarrow> bytes \<Rightarrow> u16 \<Rightarrow> bytes res run" where
  "finalize_response resp upstream_id question client_id =
     try_res (validate_upstream_response resp upstream_id question) (\<lambda>_. Some (set_id resp client_id))"

text \<open>The bytes that \<open>tcp_write_framed\<close> writes.\<close>

definition tcp_write_framed :: "bytes \<Rightarrow> bytes res" where
  "tcp_write_framed packet =
     (if length packet < 65536 then Inr (to_be 2 (of_nat (length packet) :: u16) @ packet)
      else Inl ''dns packet too large for tcp'')"

section \<open>Answers to a question\<close>

text \<open>A packet answers a question for a client: it is a reply with the client's id and that question.\<close>

definition answers :: "bytes \<Rightarrow> u16 \<Rightarrow> bytes \<Rightarrow> bool" where
  "answers resp i question \<longleftrightarrow>
     is_reply resp \<and> get_id resp = Inr i \<and> questions_match (question_of resp) question = Some True"

lemma set_id_same_answer: "set_id p i = Inr q \<Longrightarrow> same_answer 12 p q"
  by (auto simp: set_id_def same_answer_def Let_def split: if_splits)

lemma question_of_same:
  assumes "same_answer 12 p q"
  shows "question_of q = question_of p"
proof -
  have len: "length q = length p" and sk: "skip_name q 12 = skip_name p 12"
    using assms skip_name_same [OF assms, of 12] by (simp_all add: same_answer_def)
  then have qe: "question_end q = question_end p" by (simp only: question_end_def)
  have "drop 12 q = drop 12 p"
    using assms len by (intro nth_equalityI) (auto simp: same_answer_def)
  then have "get_range q 12 e = get_range p 12 e" for e by (simp add: get_range_def Prelude.slice_def len)
  then show ?thesis by (simp only: question_of_def qe)
qed

lemma is_reply_same: "same_answer 12 p q \<Longrightarrow> is_reply q = is_reply p"
  by (auto simp: is_reply_def same_answer_def)

lemma set_id_Inr: "is_reply p \<Longrightarrow> \<exists>q. set_id p i = Inr q"
  by (simp add: is_reply_def set_id_def Let_def)

lemma answers_set_id:
  assumes "is_reply p" "questions_match (question_of p) question = Some True" "set_id p i = Inr q"
  shows "answers q i question"
  using assms get_set_id [OF assms(3)] is_reply_same question_of_same set_id_same_answer
  by (metis answers_def)

lemma finalize_response_exact:
  "\<exists>r. finalize_response resp uid question cid = Some r \<and>
     (\<forall>out. r = Inr out \<longleftrightarrow> answers resp uid question \<and> set_id resp cid = Inr out) \<and>
     (\<forall>out. r = Inr out \<longrightarrow> answers out cid question \<and> same_answer 12 resp out)"
proof -
  obtain b where b: "questions_match (question_of resp) question = Some b" using questions_match_total by blast
  show ?thesis
    using answers_set_id [of resp question cid] set_id_same_answer [of resp cid]
    by (auto simp: finalize_response_def validate_upstream_response_def answers_def b)
qed

end
