(* ===== verification/Inflight.thy ===== *)
theory Inflight
  imports Sync Upstream_Wire
begin

text \<open>
  \<open>src/upstream/inflight.rs\<close>: the registry by which a transport pairs responses with the queries
  in flight. A query takes an unused 16-bit id, and a permit when the upstream has a cap; a
  packet completes a query only if its question is the one registered under its id.
\<close>

section \<open>Definitions\<close>

record InflightEntry =
  ie_tx :: chan
  ie_client_id :: u16
  ie_question :: bytes
  ie_token :: u64

datatype Completion = Delivered | NoWaiter | Mismatch u16

text \<open>The semaphore of the cap is the number of its free permits.\<close>

record InflightRegistry =
  ir_shards :: "(u16, InflightEntry) shards"
  ir_next_id :: u32
  ir_next_token :: u64
  ir_cap :: "nat option"

record InflightGuard =
  ig_id :: u16
  ig_token :: u64
  ig_permit :: bool

definition mix16 :: "u32 \<Rightarrow> u16" where
  "mix16 x = (let x = x * 0x45d9f3b; x = x XOR drop_bit 16 x; i = ucast x in if i = 0 then 1 else i)"

definition registry_new :: "nat \<Rightarrow> u32 \<Rightarrow> InflightRegistry" where
  "registry_new max_inflight seed =
     \<lparr>ir_shards = shards_new, ir_next_id = seed, ir_next_token = 0,
      ir_cap = (if 0 < max_inflight then Some max_inflight else None)\<rparr>"

definition InflightCapReached :: err where
  "InflightCapReached = ''inflight cap reached''"

text \<open>The tries of \<open>register\<close>; the permit is given back when none succeeds.\<close>

fun register_loop :: "nat \<Rightarrow> InflightRegistry \<Rightarrow> InflightEntry \<Rightarrow> (InflightRegistry \<times> u16 res) run" where
  "register_loop 0 reg entry = Some (reg, Inl ''inflight table is full'')"
| "register_loop (Suc n) reg entry = do {
     let i = mix16 (ir_next_id reg);
     let reg = reg\<lparr>ir_next_id := ir_next_id reg + 1\<rparr>;
     m \<leftarrow> shard (ir_shards reg) i;
     case m of
       None \<Rightarrow> Some (reg, Inl ''inflight map poisoned'')
     | Some s \<Rightarrow>
         (case map_of s i of
            None \<Rightarrow> Some (reg\<lparr>ir_shards := (ir_shards reg)[shard_index i := Some (hm_insert i entry s)]\<rparr>, Inr i)
          | Some _ \<Rightarrow> register_loop n reg entry) }"

definition release :: "bool \<Rightarrow> InflightRegistry \<Rightarrow> InflightRegistry" where
  "release permit reg = (if permit then reg\<lparr>ir_cap := map_option Suc (ir_cap reg)\<rparr> else reg)"

definition registry_register :: "InflightRegistry \<Rightarrow> u16 \<Rightarrow> bytes \<Rightarrow> chan \<Rightarrow> (InflightRegistry \<times> (u16 \<times> InflightGuard) res) run" where
  "registry_register reg client_id question tx =
     (if ir_cap reg = Some 0 then Some (reg, Inl InflightCapReached)
      else do {
        let permit = (ir_cap reg \<noteq> None);
        let reg = reg\<lparr>ir_cap := map_option (\<lambda>n. n - 1) (ir_cap reg)\<rparr>;
        let token = ir_next_token reg;
        let reg = reg\<lparr>ir_next_token := token + 1\<rparr>;
        (reg, r) \<leftarrow> register_loop 65535 reg
          \<lparr>ie_tx = tx, ie_client_id = client_id, ie_question = question, ie_token = token\<rparr>;
        Some (case r of
            Inl e \<Rightarrow> (release permit reg, Inl e)
          | Inr i \<Rightarrow> (reg, Inr (i, \<lparr>ig_id = i, ig_token = token, ig_permit = permit\<rparr>))) })"

definition complete :: "InflightRegistry \<Rightarrow> bytes \<Rightarrow> (InflightRegistry \<times> (chan \<times> bytes signal) list \<times> bytes \<times> Completion) run" where
  "complete reg packet =
     (if \<not> is_reply packet then Some (reg, [], packet, NoWaiter)
      else do {
        b2 \<leftarrow> idx packet 2;
        if drop_bit 3 b2 AND 0x0f \<noteq> 0 then Some (reg, [], packet, NoWaiter)
        else do {
          qd \<leftarrow> be16_at packet 4;
          if qd \<noteq> 1 then Some (reg, [], packet, NoWaiter)
          else
            (case get_id packet of
               Inl _ \<Rightarrow> Some (reg, [], packet, NoWaiter)
             | Inr i \<Rightarrow> do {
                 m \<leftarrow> shard (ir_shards reg) i;
                 case m of
                   None \<Rightarrow> Some (reg, [], packet, NoWaiter)
                 | Some s \<Rightarrow>
                     (case map_of s i of
                        None \<Rightarrow> Some (reg, [], packet, NoWaiter)
                      | Some entry \<Rightarrow> do {
                          matches \<leftarrow> questions_match (question_of packet) (ie_question entry);
                          if \<not> matches then Some (reg, [], packet, Mismatch i)
                          else
                            (let reg = reg\<lparr>ir_shards := (ir_shards reg)[shard_index i := Some (hm_remove i s)]\<rparr>;
                                 packet = set_id_ignoring packet (ie_client_id entry)
                             in Some (reg, [(ie_tx entry, Sent packet)], packet, Delivered)) }) }) } })"

definition registry_is_empty :: "InflightRegistry \<Rightarrow> bool" where
  "registry_is_empty reg \<longleftrightarrow> list_all (\<lambda>m. m = Some []) (ir_shards reg)"

text \<open>Dropping an entry drops its sender.\<close>

definition dropped :: "(u16 \<times> InflightEntry) list Mutex \<Rightarrow> (chan \<times> bytes signal) list" where
  "dropped m = (case m of None \<Rightarrow> [] | Some s \<Rightarrow> map (\<lambda>e. (ie_tx (snd e), SenderDropped)) s)"

definition clear :: "InflightRegistry \<Rightarrow> InflightRegistry \<times> (chan \<times> bytes signal) list" where
  "clear reg =
     (reg\<lparr>ir_shards := map (map_option (\<lambda>_. [])) (ir_shards reg)\<rparr>,
      concat (map dropped (ir_shards reg)))"

definition guard_drop :: "InflightRegistry \<Rightarrow> InflightGuard \<Rightarrow> (InflightRegistry \<times> (chan \<times> bytes signal) list) run" where
  "guard_drop reg g = do {
     m \<leftarrow> shard (ir_shards reg) (ig_id g);
     let (reg, sigs) =
       (case m of
          None \<Rightarrow> (reg, [])
        | Some s \<Rightarrow>
            (case map_of s (ig_id g) of
               None \<Rightarrow> (reg, [])
             | Some e \<Rightarrow>
                 if ie_token e = ig_token g
                 then (reg\<lparr>ir_shards := (ir_shards reg)[shard_index (ig_id g) := Some (hm_remove (ig_id g) s)]\<rparr>,
                       [(ie_tx e, SenderDropped)])
                 else (reg, [])));
     Some (release (ig_permit g) reg, sigs) }"

section \<open>The operations on the table\<close>

abbreviation entry_of :: "InflightRegistry \<Rightarrow> u16 \<rightharpoonup> InflightEntry" where
  "entry_of reg \<equiv> tbl (ir_shards reg)"

abbreviation registry_ok :: "InflightRegistry \<Rightarrow> bool" where
  "registry_ok reg \<equiv> shards_ok (ir_shards reg)"

lemma mix16_nonzero: "mix16 x \<noteq> 0"
  by (simp add: mix16_def Let_def)

lemma register_loop_spec:
  "registry_ok reg \<Longrightarrow> \<exists>reg' r. register_loop n reg entry = Some (reg', r) \<and>
     ir_next_token reg' = ir_next_token reg \<and> ir_cap reg' = ir_cap reg \<and> registry_ok reg' \<and>
     (\<forall>e. r = Inl e \<longrightarrow> ir_shards reg' = ir_shards reg) \<and>
     (\<forall>i. r = Inr i \<longrightarrow> i \<noteq> 0 \<and> entry_of reg i = None \<and> entry_of reg' = (entry_of reg)(i \<mapsto> entry))"
proof (induction n arbitrary: reg)
  case (Suc n)
  let ?i = "mix16 (ir_next_id reg)" and ?reg = "reg\<lparr>ir_next_id := ir_next_id reg + 1\<rparr>"
  obtain m where m: "ir_shards reg ! shard_index ?i = Some m" "shard (ir_shards reg) ?i = Some (Some m)"
    "entry_of reg ?i = map_of m ?i" "distinct (map fst m)"
    using Suc.prems by (rule shards_okD)
  show ?case
  proof (cases "map_of m ?i")
    case None
    let ?m = "hm_insert ?i entry m"
    have "shards_ok ((ir_shards reg)[shard_index ?i := Some ?m])"
      "tbl ((ir_shards reg)[shard_index ?i := Some ?m]) = (entry_of reg)(?i \<mapsto> entry)"
      using tbl_update [OF Suc.prems m(1), of ?m "Some entry"] m(4) by simp_all
    then show ?thesis using None m mix16_nonzero by (simp add: Let_def fun_eq_iff)
  next
    case (Some e)
    then show ?thesis using Suc.IH [of ?reg] Suc.prems m by (simp add: Let_def)
  qed
qed simp

lemma registry_register_spec:
  assumes "registry_ok reg"
  obtains reg' r where "registry_register reg cid q tx = Some (reg', r)" "registry_ok reg'"
    "\<And>e. r = Inl e \<Longrightarrow> ir_shards reg' = ir_shards reg \<and> ir_cap reg' = ir_cap reg"
    "\<And>i g. r = Inr (i, g) \<Longrightarrow> g = \<lparr>ig_id = i, ig_token = ir_next_token reg, ig_permit = (ir_cap reg \<noteq> None)\<rparr> \<and>
         i \<noteq> 0 \<and> entry_of reg i = None \<and> ir_cap reg \<noteq> Some 0 \<and> ir_cap reg' = map_option (\<lambda>n. n - 1) (ir_cap reg) \<and>
         entry_of reg' = (entry_of reg)(i \<mapsto> \<lparr>ie_tx = tx, ie_client_id = cid, ie_question = q, ie_token = ir_next_token reg\<rparr>)"
    "ir_next_token reg' = ir_next_token reg + (if ir_cap reg = Some 0 then 0 else 1)"
proof (cases "ir_cap reg = Some 0")
  case True
  then show thesis using that [of reg "Inl InflightCapReached"] assms by (simp add: registry_register_def)
next
  case False
  let ?t = "ir_next_token reg"
  let ?reg = "reg\<lparr>ir_cap := map_option (\<lambda>n. n - 1) (ir_cap reg), ir_next_token := ?t + 1\<rparr>"
  let ?e = "\<lparr>ie_tx = tx, ie_client_id = cid, ie_question = q, ie_token = ?t\<rparr>"
  obtain reg' r where r: "register_loop 65535 ?reg ?e = Some (reg', r)" "ir_next_token reg' = ?t + 1"
      "ir_cap reg' = map_option (\<lambda>n. n - 1) (ir_cap reg)" "registry_ok reg'"
      "\<And>e. r = Inl e \<Longrightarrow> ir_shards reg' = ir_shards reg"
      "\<And>i. r = Inr i \<Longrightarrow> i \<noteq> 0 \<and> entry_of reg i = None \<and> entry_of reg' = (entry_of reg)(i \<mapsto> ?e)"
    using register_loop_spec [of ?reg 65535 ?e] assms by auto
  show thesis
  proof (cases r)
    case (Inl e)
    have "map_option (Suc \<circ> (\<lambda>n. n - 1)) (ir_cap reg) = ir_cap reg" using False by (cases "ir_cap reg") auto
    then show ?thesis
      using that [of "release (ir_cap reg \<noteq> None) reg'" "Inl e"] r False Inl
      by (auto simp: registry_register_def Let_def release_def option.map_comp)
  next
    case (Inr i)
    then show ?thesis
      using that [of reg' "Inr (i, \<lparr>ig_id = i, ig_token = ?t, ig_permit = (ir_cap reg \<noteq> None)\<rparr>)"] r False
      by (simp add: registry_register_def Let_def)
  qed
qed

lemma register_Inr:
  assumes "registry_ok reg" "registry_register reg cid q tx = Some (reg', Inr (i, g))"
  shows "registry_ok reg'" "ig_id g = i" "ig_token g = ir_next_token reg" "entry_of reg i = None"
    "entry_of reg' = (entry_of reg)(i \<mapsto> \<lparr>ie_tx = tx, ie_client_id = cid, ie_question = q, ie_token = ir_next_token reg\<rparr>)"
    "ir_next_token reg' = ir_next_token reg + 1" "ig_permit g \<longleftrightarrow> ir_cap reg \<noteq> None" "ir_cap reg \<noteq> Some 0"
    "ir_cap reg' = map_option (\<lambda>n. n - 1) (ir_cap reg)" "i \<noteq> 0"
  by (rule registry_register_spec [OF assms(1), of cid q tx], use assms(2) in simp)+

lemma register_Inl:
  assumes "registry_ok reg" "registry_register reg cid q tx = Some (reg', Inl e)"
  shows "ir_shards reg' = ir_shards reg" "ir_next_token reg' = ir_next_token reg \<or> ir_next_token reg' = ir_next_token reg + 1"
    "ir_cap reg' = ir_cap reg"
  by (rule registry_register_spec [OF assms(1), of cid q tx], use assms(2) in simp)+

text \<open>What a packet does: nothing, or it takes the entry whose question it answers.\<close>

definition acceptable :: "bytes \<Rightarrow> bool" where
  "acceptable p \<longleftrightarrow> is_reply p \<and> drop_bit 3 (p ! 2) AND 0x0f = 0 \<and> u16_of p 4 = 1"

definition without :: "InflightRegistry \<Rightarrow> u16 \<Rightarrow> InflightRegistry" where
  "without reg i = reg\<lparr>ir_shards := (ir_shards reg)[shard_index i := map_option (hm_remove i) (ir_shards reg ! shard_index i)]\<rparr>"

lemma without_spec [simp]:
  assumes "registry_ok reg"
  shows "registry_ok (without reg i)" "entry_of (without reg i) = (entry_of reg)(i := None)"
proof -
  obtain m where m: "ir_shards reg ! shard_index i = Some m" "distinct (map fst m)"
    using assms by (rule shards_okD)
  then show "registry_ok (without reg i)" "entry_of (without reg i) = (entry_of reg)(i := None)"
    using tbl_update [OF assms m(1), of "hm_remove i m" None] by (simp_all add: without_def)
qed

lemma without_fields [simp]: "ir_cap (without reg i) = ir_cap reg" "ir_next_token (without reg i) = ir_next_token reg"
  by (simp_all add: without_def)

lemma complete_eq:
  assumes ok: "registry_ok reg"
  shows "complete reg p = Some
    (if \<not> acceptable p then (reg, [], p, NoWaiter)
     else case entry_of reg (u16_of p 0) of
       None \<Rightarrow> (reg, [], p, NoWaiter)
     | Some e \<Rightarrow>
         if questions_match (question_of p) (ie_question e) = Some True
         then (without reg (u16_of p 0), [(ie_tx e, Sent (set_id_ignoring p (ie_client_id e)))], set_id_ignoring p (ie_client_id e), Delivered)
         else (reg, [], p, Mismatch (u16_of p 0)))"
proof (cases "acceptable p")
  case False
  then show ?thesis
    by (cases "is_reply p"; cases "drop_bit 3 (p ! 2) AND 0x0f = 0"; cases "u16_of p 4 = 1")
       (simp_all add: complete_def acceptable_def is_reply_def idx_in be16_at_in)
next
  case True
  let ?i = "u16_of p 0"
  have p: "is_reply p" "2 < length p" "drop_bit 3 (p ! 2) AND 0x0f = 0" "be16_at p 4 = Some 1" "get_id p = Inr ?i"
    using True by (simp_all add: acceptable_def is_reply_def be16_at_in get_id_def u16_of_def)
  obtain m where m: "ir_shards reg ! shard_index ?i = Some m" "shard (ir_shards reg) ?i = Some (Some m)"
    "entry_of reg ?i = map_of m ?i" using ok by (rule shards_okD)
  show ?thesis
  proof (cases "map_of m ?i")
    case None
    then show ?thesis using p m True by (simp add: complete_def idx_in)
  next
    case (Some e)
    obtain b where "questions_match (question_of p) (ie_question e) = Some b" using questions_match_total by blast
    then show ?thesis using p m Some True by (simp add: complete_def idx_in Let_def without_def)
  qed
qed

lemma guard_drop_eq:
  assumes ok: "registry_ok reg"
  shows "guard_drop reg g = Some
    (case entry_of reg (ig_id g) of
       None \<Rightarrow> (release (ig_permit g) reg, [])
     | Some e \<Rightarrow>
         if ie_token e = ig_token g
         then (release (ig_permit g) (without reg (ig_id g)), [(ie_tx e, SenderDropped)])
         else (release (ig_permit g) reg, []))"
proof -
  obtain m where "ir_shards reg ! shard_index (ig_id g) = Some m" "shard (ir_shards reg) (ig_id g) = Some (Some m)"
    "entry_of reg (ig_id g) = map_of m (ig_id g)" using ok by (rule shards_okD)
  then show ?thesis by (cases "map_of m (ig_id g)") (simp_all add: guard_drop_def without_def)
qed

lemma release_simps [simp]:
  "ir_shards (release b reg) = ir_shards reg" "ir_next_token (release b reg) = ir_next_token reg"
  "ir_cap (release b reg) = (if b then map_option Suc (ir_cap reg) else ir_cap reg)"
  by (simp_all add: release_def)

lemma dropped_signals: "y \<in> set (dropped m) \<longleftrightarrow> (\<exists>s k e. m = Some s \<and> (k, e) \<in> set s \<and> y = (ie_tx e, SenderDropped))"
  by (cases m) (force simp: dropped_def)+

lemma all_dropped:
  "set (concat (map dropped ms)) = {(ie_tx e, SenderDropped) | e. \<exists>m k. Some m \<in> set ms \<and> (k, e) \<in> set m}"
proof (induction ms)
  case (Cons m ms)
  have "set (dropped m) = {(ie_tx e, SenderDropped) | e. \<exists>s k. m = Some s \<and> (k, e) \<in> set s}"
    unfolding set_eq_iff mem_Collect_eq dropped_signals by blast
  then show ?case using Cons.IH by auto
qed simp

lemma clear_spec:
  assumes "registry_ok reg"
  shows "registry_ok (fst (clear reg))" "entry_of (fst (clear reg)) = Map.empty" "ir_cap (fst (clear reg)) = ir_cap reg"
    "ir_next_token (fst (clear reg)) = ir_next_token reg"
    "set (snd (clear reg)) = {(ie_tx e, SenderDropped) | e. e \<in> ran (entry_of reg)}"
proof -
  have len: "length (ir_shards reg) = SHARDS" using assms by (simp add: shards_ok_def)
  have some: "\<exists>m. ir_shards reg ! i = Some m \<and> distinct (map fst m) \<and> (\<forall>k\<in>fst ` set m. shard_index k = i)" if "i < SHARDS" for i
    using that assms by (simp add: shards_ok_def)
  have nth: "ir_shards (fst (clear reg)) ! i = Some []" if "i < SHARDS" for i
    using some [OF that] that by (auto simp: clear_def len)
  then show "registry_ok (fst (clear reg))" by (simp add: shards_ok_def) (simp add: clear_def len)
  show "entry_of (fst (clear reg)) = Map.empty"
    by (simp add: tbl_def nth shard_index_less fun_eq_iff)
  show "ir_cap (fst (clear reg)) = ir_cap reg" "ir_next_token (fst (clear reg)) = ir_next_token reg" by (simp_all add: clear_def)
  have ran: "(\<exists>m k. Some m \<in> set (ir_shards reg) \<and> (k, e) \<in> set m) \<longleftrightarrow> e \<in> ran (entry_of reg)" for e
  proof
    assume "\<exists>m k. Some m \<in> set (ir_shards reg) \<and> (k, e) \<in> set m"
    then obtain m k i where "ir_shards reg ! i = Some m" "i < SHARDS" "(k, e) \<in> set m" by (auto simp: in_set_conv_nth len)
    moreover from this have "shard_index k = i" "map_of m k = Some e" using some [of i] by force+
    ultimately have "entry_of reg k = Some e" by (simp add: tbl_def)
    then show "e \<in> ran (entry_of reg)" by (rule ranI)
  next
    assume "e \<in> ran (entry_of reg)"
    then obtain k where "entry_of reg k = Some e" by (auto simp: ran_def)
    moreover obtain m where "ir_shards reg ! shard_index k = Some m" "entry_of reg k = map_of m k"
      using assms by (rule shards_okD)
    moreover from this have "Some m \<in> set (ir_shards reg)"
      using shard_index_less [of k] len nth_mem [of "shard_index k" "ir_shards reg"] by simp
    ultimately show "\<exists>m k. Some m \<in> set (ir_shards reg) \<and> (k, e) \<in> set m"
      by (intro exI [of _ m] exI [of _ k]) (simp add: map_of_SomeD)
  qed
  then show "set (snd (clear reg)) = {(ie_tx e, SenderDropped) | e. e \<in> ran (entry_of reg)}"
    by (simp only: clear_def snd_conv all_dropped)
qed

section \<open>Queries in flight\<close>

text \<open>
  Queries register, packets arrive from the network (any bytes, in any order), the connection
  is lost and clears the registry, and the guard of a query is dropped when the query has
  its response, times out or is cancelled. The number of calls of \<open>register\<close> names the channels.
\<close>

record ir_sys =
  iy_reg :: InflightRegistry
  iy_mail :: "bytes mail"
  iy_asked :: "chan \<rightharpoonup> u16 \<times> bytes"
  iy_live :: "chan \<rightharpoonup> InflightGuard"
  iy_calls :: nat

definition ir_init :: "nat \<Rightarrow> u32 \<Rightarrow> ir_sys" where
  "ir_init cap seed = \<lparr>iy_reg = registry_new cap seed, iy_mail = Map.empty, iy_asked = Map.empty, iy_live = Map.empty, iy_calls = 0\<rparr>"

inductive ir_step :: "ir_sys \<Rightarrow> ir_sys \<Rightarrow> bool" where
  joined: "registry_register (iy_reg s) cid q (iy_calls s) = Some (reg, Inr (i, g)) \<Longrightarrow>
    ir_step s (s\<lparr>iy_reg := reg, iy_asked := (iy_asked s)(iy_calls s \<mapsto> (cid, q)), iy_live := (iy_live s)(iy_calls s \<mapsto> g),
      iy_calls := iy_calls s + 1\<rparr>)"
| refused: "registry_register (iy_reg s) cid q (iy_calls s) = Some (reg, Inl e) \<Longrightarrow>
    ir_step s (s\<lparr>iy_reg := reg, iy_calls := iy_calls s + 1\<rparr>)"
| received: "complete (iy_reg s) packet = Some (reg, sigs, packet', r) \<Longrightarrow>
    ir_step s (s\<lparr>iy_reg := reg, iy_mail := signal_all sigs (iy_mail s)\<rparr>)"
| cleared: "clear (iy_reg s) = (reg, sigs) \<Longrightarrow> ir_step s (s\<lparr>iy_reg := reg, iy_mail := signal_all sigs (iy_mail s)\<rparr>)"
| ended: "iy_live s c = Some g \<Longrightarrow> guard_drop (iy_reg s) g = Some (reg, sigs) \<Longrightarrow>
    ir_step s (s\<lparr>iy_reg := reg, iy_mail := signal_all sigs (iy_mail s), iy_live := (iy_live s)(c := None)\<rparr>)"

abbreviation ir_reachable :: "nat \<Rightarrow> u32 \<Rightarrow> ir_sys \<Rightarrow> bool" where
  "ir_reachable cap seed s \<equiv> ir_step\<^sup>*\<^sup>* (ir_init cap seed) s"

text \<open>The entry of a query: the live query of that id and token, not yet answered.\<close>

definition entry_for :: "ir_sys \<Rightarrow> u16 \<Rightarrow> InflightEntry \<Rightarrow> bool" where
  "entry_for s i e \<longleftrightarrow> (\<exists>g. iy_live s (ie_tx e) = Some g \<and> ig_id g = i \<and> ig_token g = ie_token e) \<and>
     iy_mail s (ie_tx e) = None \<and> iy_asked s (ie_tx e) = Some (ie_client_id e, ie_question e)"

definition ir_inv :: "ir_sys \<Rightarrow> bool" where
  "ir_inv s \<longleftrightarrow> registry_ok (iy_reg s) \<and>
     (\<forall>i e. entry_of (iy_reg s) i = Some e \<longrightarrow> entry_for s i e) \<and>
     (\<forall>c g. iy_live s c = Some g \<longrightarrow> iy_mail s c = None \<longrightarrow> (\<exists>e. entry_of (iy_reg s) (ig_id g) = Some e \<and> ie_tx e = c)) \<and>
     (\<forall>c c' g g'. iy_live s c = Some g \<longrightarrow> iy_live s c' = Some g' \<longrightarrow> ig_token g = ig_token g' \<longrightarrow> c = c') \<and>
     (\<forall>c g. iy_live s c = Some g \<longrightarrow> ig_token g < ir_next_token (iy_reg s)) \<and>
     unat (ir_next_token (iy_reg s)) \<le> iy_calls s \<and>
     (\<forall>c p. iy_mail s c = Some (Sent p) \<longrightarrow> (\<exists>cid q. iy_asked s c = Some (cid, q) \<and> answers p cid q)) \<and>
     (\<forall>c\<in>dom (iy_live s) \<union> dom (iy_asked s) \<union> dom (iy_mail s). c < iy_calls s)"

lemma ir_invD:
  assumes "ir_inv s"
  shows "registry_ok (iy_reg s)"
    and "entry_of (iy_reg s) i = Some e \<Longrightarrow> entry_for s i e"
    and "iy_live s c = Some g \<Longrightarrow> iy_mail s c = None \<Longrightarrow> \<exists>e. entry_of (iy_reg s) (ig_id g) = Some e \<and> ie_tx e = c"
    and "iy_live s c = Some g \<Longrightarrow> iy_live s c' = Some g' \<Longrightarrow> ig_token g = ig_token g' \<Longrightarrow> c = c'"
    and "iy_live s c = Some g \<Longrightarrow> ig_token g < ir_next_token (iy_reg s)"
    and "unat (ir_next_token (iy_reg s)) \<le> iy_calls s"
    and "iy_mail s c = Some (Sent p) \<Longrightarrow> \<exists>cid q. iy_asked s c = Some (cid, q) \<and> answers p cid q"
    and "c \<in> dom (iy_live s) \<union> dom (iy_asked s) \<union> dom (iy_mail s) \<Longrightarrow> c < iy_calls s"
  using assms unfolding ir_inv_def by (simp, blast+)

lemma ir_invI:
  assumes "registry_ok (iy_reg s)"
    and "\<And>i e. entry_of (iy_reg s) i = Some e \<Longrightarrow> entry_for s i e"
    and "\<And>c g. iy_live s c = Some g \<Longrightarrow> iy_mail s c = None \<Longrightarrow> \<exists>e. entry_of (iy_reg s) (ig_id g) = Some e \<and> ie_tx e = c"
    and "\<And>c c' g g'. iy_live s c = Some g \<Longrightarrow> iy_live s c' = Some g' \<Longrightarrow> ig_token g = ig_token g' \<Longrightarrow> c = c'"
    and "\<And>c g. iy_live s c = Some g \<Longrightarrow> ig_token g < ir_next_token (iy_reg s)"
    and "unat (ir_next_token (iy_reg s)) \<le> iy_calls s"
    and "\<And>c p. iy_mail s c = Some (Sent p) \<Longrightarrow> \<exists>cid q. iy_asked s c = Some (cid, q) \<and> answers p cid q"
    and "\<And>c. c \<in> dom (iy_live s) \<union> dom (iy_asked s) \<union> dom (iy_mail s) \<Longrightarrow> c < iy_calls s"
  shows "ir_inv s"
  using assms unfolding ir_inv_def by blast

definition cap_inv :: "nat \<Rightarrow> ir_sys \<Rightarrow> bool" where
  "cap_inv cap s \<longleftrightarrow> finite (dom (iy_live s)) \<and> (\<forall>g\<in>ran (iy_live s). ig_permit g \<longleftrightarrow> 0 < cap) \<and>
     (if cap = 0 then ir_cap (iy_reg s) = None
      else card (dom (iy_live s)) \<le> cap \<and> ir_cap (iy_reg s) = Some (cap - card (dom (iy_live s))))"

lemma set_id_answers:
  assumes "acceptable p" "questions_match (question_of p) q = Some True"
  shows "answers (set_id_ignoring p i) i q"
proof -
  have "set_id p i = Inr (set_id_ignoring p i)"
    using assms(1) by (simp add: acceptable_def is_reply_def set_id_ignoring_def set_id_def Let_def)
  then show ?thesis using answers_set_id assms by (auto simp: acceptable_def)
qed

text \<open>Removing the entry of one id, and signalling its query, keeps the pairing.\<close>

lemma taken_inv:
  assumes inv: "ir_inv s" and e: "entry_of (iy_reg s) i = Some e"
    and v: "\<And>p. v = Sent p \<Longrightarrow> answers p (ie_client_id e) (ie_question e)"
    and reg: "registry_ok reg" "entry_of reg = (entry_of (iy_reg s))(i := None)" "ir_next_token reg = ir_next_token (iy_reg s)"
    and live: "live = iy_live s \<or> live = (iy_live s)(ie_tx e := None)"
  shows "ir_inv (s\<lparr>iy_reg := reg, iy_mail := signal_all [(ie_tx e, v)] (iy_mail s), iy_live := live\<rparr>)" (is "ir_inv ?s")
proof -
  let ?c = "ie_tx e"
  obtain g where g: "iy_live s ?c = Some g" "ig_id g = i" "ig_token g = ie_token e" "iy_mail s ?c = None"
    "iy_asked s ?c = Some (ie_client_id e, ie_question e)"
    using ir_invD(2) [OF inv e] by (auto simp: entry_for_def)
  have other: "ie_tx e' \<noteq> ?c" if "entry_of (iy_reg s) j = Some e'" "j \<noteq> i" for j e'
    using ir_invD(2) [OF inv that(1)] that(2) g by (auto simp: entry_for_def)
  have sub: "iy_live s c = Some g" if "live c = Some g" for c g using that live by (auto split: if_splits)
  have mail: "iy_mail ?s = (iy_mail s)(?c \<mapsto> v)" using g(4) by simp
  have 1: "entry_for ?s j e'" if "entry_of reg j = Some e'" for j e'
    using that ir_invD(2) [OF inv, of j e'] other [of j e'] live
    unfolding reg(2) entry_for_def mail by (auto split: if_splits)
  have 2: "\<exists>e'. entry_of reg (ig_id g') = Some e' \<and> ie_tx e' = c" if "live c = Some g'" "((iy_mail s)(?c \<mapsto> v)) c = None" for c g'
    using that sub [OF that(1)] ir_invD(3) [OF inv, of c g'] e reg(2) by (auto split: if_splits)
  show ?thesis
    unfolding ir_inv_def [of ?s] mail
    using 1 2 reg(1) sub ir_invD(4-8) [OF inv] v g(1,5) by (auto simp: reg(3)) blast+
qed

lemma joined_inv:
  assumes inv: "ir_inv s" and reg: "registry_register (iy_reg s) cid q (iy_calls s) = Some (reg, Inr (i, g))"
    and fits: "iy_calls s + 1 < 2 ^ 64"
  shows "ir_inv (s\<lparr>iy_reg := reg, iy_asked := (iy_asked s)(iy_calls s \<mapsto> (cid, q)), iy_live := (iy_live s)(iy_calls s \<mapsto> g),
    iy_calls := iy_calls s + 1\<rparr>)" (is "ir_inv ?s")
proof -
  let ?n = "iy_calls s" and ?t = "ir_next_token (iy_reg s)"
  let ?e = "\<lparr>ie_tx = ?n, ie_client_id = cid, ie_question = q, ie_token = ?t\<rparr>"
  note r = register_Inr [OF ir_invD(1) [OF inv] reg]
  have fresh: "iy_live s ?n = None" "iy_asked s ?n = None" "iy_mail s ?n = None"
    using ir_invD(8) [OF inv, of ?n] by auto
  have "unat ?t + 1 < 2 ^ 64" using ir_invD(6) [OF inv] fits by simp
  then have t: "unat (?t + 1) = unat ?t + 1" by (simp add: unat_word_ariths)
  have tok: "ig_token g' < ?t + 1" "ig_token g' \<noteq> ?t" if "iy_live s c = Some g'" for c g'
    using ir_invD(5) [OF inv that] t by (auto simp: word_less_nat_alt)
  have t1: "?t < ?t + 1" using t by (simp add: word_less_nat_alt)
  show ?thesis
  proof (rule ir_invI)
    show "entry_for ?s j e'" if "entry_of (iy_reg ?s) j = Some e'" for j e'
    proof (cases "j = i")
      case True
      then have "e' = ?e" using that r(5) by simp
      then show ?thesis using r fresh True by (simp add: entry_for_def)
    next
      case False
      then have "entry_for s j e'" using that r(5) ir_invD(2) [OF inv] by simp
      then show ?thesis using fresh by (auto simp: entry_for_def)
    qed
    show "\<exists>e'. entry_of (iy_reg ?s) (ig_id g') = Some e' \<and> ie_tx e' = c" if "iy_live ?s c = Some g'" "iy_mail ?s c = None" for c g'
    proof (cases "c = ?n")
      case False
      then have "iy_live s c = Some g'" "iy_mail s c = None" using that by simp_all
      from ir_invD(3) [OF inv this] show ?thesis using r(4,5) by auto
    qed (use that r in auto)
    show "c = c'" if "iy_live ?s c = Some a" "iy_live ?s c' = Some b" "ig_token a = ig_token b" for c c' a b
      using that tok(2) r(3) ir_invD(4) [OF inv, of c a c' b] by (auto split: if_splits)
    show "c < iy_calls ?s" if "c \<in> dom (iy_live ?s) \<union> dom (iy_asked ?s) \<union> dom (iy_mail ?s)" for c
      using that ir_invD(8) [OF inv, of c] by (cases "c = ?n") (auto intro: less_SucI)
    show "\<exists>cid' q'. iy_asked ?s c = Some (cid', q') \<and> answers p cid' q'" if "iy_mail ?s c = Some (Sent p)" for c p
      using that ir_invD(7) [OF inv, of c p] fresh by auto
    show "ig_token a < ir_next_token (iy_reg ?s)" if "iy_live ?s c = Some a" for c a
      using that tok(1) [of c a] t1 r(3,6) by (auto split: if_splits)
  qed (use r(1,6) t ir_invD(6) [OF inv] in simp_all)
qed

lemma refused_inv:
  assumes inv: "ir_inv s" and reg: "registry_register (iy_reg s) cid q n = Some (reg, Inl e)" and fits: "iy_calls s + 1 < 2 ^ 64"
  shows "ir_inv (s\<lparr>iy_reg := reg, iy_calls := iy_calls s + 1\<rparr>)" (is "ir_inv ?s")
proof -
  let ?t = "ir_next_token (iy_reg s)"
  note r = register_Inl [OF ir_invD(1) [OF inv] reg]
  have "unat ?t + 1 < 2 ^ 64" using ir_invD(6) [OF inv] fits by simp
  then have "unat (?t + 1) = unat ?t + 1" by (simp add: unat_word_ariths)
  then have t: "?t \<le> ir_next_token reg" "unat (ir_next_token reg) \<le> iy_calls s + 1"
    using r(2) ir_invD(6) [OF inv] by (auto simp: word_le_nat_alt)
  have tok: "ig_token g < ir_next_token reg" if "iy_live s c = Some g" for c g
    using ir_invD(5) [OF inv that] t(1) by simp
  have dom: "c < iy_calls s + 1" if "c \<in> dom (iy_live s) \<union> dom (iy_asked s) \<union> dom (iy_mail s)" for c
    using that ir_invD(8) [OF inv, of c] by (auto intro: less_SucI)
  have same: "iy_live ?s = iy_live s" "iy_mail ?s = iy_mail s" "iy_asked ?s = iy_asked s" "entry_for ?s = entry_for s"
    "entry_of (iy_reg ?s) = entry_of (iy_reg s)" by (simp_all add: entry_for_def fun_eq_iff r(1))
  show ?thesis
  proof (rule ir_invI, unfold same)
    show "c = c'" if "iy_live s c = Some a" "iy_live s c' = Some b" "ig_token a = ig_token b" for c c' a b
      using that by (rule ir_invD(4) [OF inv])
  qed (use ir_invD(1-3,7) [OF inv] tok dom t(2) r(1) in simp_all)
qed

lemma received_inv:
  assumes inv: "ir_inv s" and got: "complete (iy_reg s) p = Some (reg, sigs, p', r)"
  shows "ir_inv (s\<lparr>iy_reg := reg, iy_mail := signal_all sigs (iy_mail s)\<rparr>)"
proof (cases "r = Delivered")
  case False
  then have "reg = iy_reg s" "sigs = []"
    using got complete_eq [OF ir_invD(1) [OF inv], of p] by (auto split: if_splits option.splits)
  then show ?thesis using inv by simp
next
  case True
  let ?i = "u16_of p 0"
  obtain e where e: "entry_of (iy_reg s) ?i = Some e" "acceptable p"
    "questions_match (question_of p) (ie_question e) = Some True" "reg = without (iy_reg s) ?i"
    "sigs = [(ie_tx e, Sent (set_id_ignoring p (ie_client_id e)))]"
    using True got complete_eq [OF ir_invD(1) [OF inv], of p] by (auto split: if_splits option.splits)
  have "ir_inv (s\<lparr>iy_reg := reg, iy_mail := signal_all sigs (iy_mail s), iy_live := iy_live s\<rparr>)"
    unfolding e(4,5) by (rule taken_inv [OF inv e(1)]) (use e set_id_answers ir_invD(1) [OF inv] in auto)
  then show ?thesis by simp
qed

lemma ended_inv:
  assumes inv: "ir_inv s" and c: "iy_live s c = Some g" and drop: "guard_drop (iy_reg s) g = Some (reg, sigs)"
  shows "ir_inv (s\<lparr>iy_reg := reg, iy_mail := signal_all sigs (iy_mail s), iy_live := (iy_live s)(c := None)\<rparr>)" (is "ir_inv ?s")
proof (cases "\<exists>e. entry_of (iy_reg s) (ig_id g) = Some e \<and> ie_token e = ig_token g")
  case True
  then obtain e where e: "entry_of (iy_reg s) (ig_id g) = Some e" "ie_token e = ig_token g" by blast
  then have d: "reg = release (ig_permit g) (without (iy_reg s) (ig_id g))" "sigs = [(ie_tx e, SenderDropped)]"
    using drop guard_drop_eq [OF ir_invD(1) [OF inv], of g] by simp_all
  have "ie_tx e = c"
    using ir_invD(2) [OF inv e(1)] ir_invD(4) [OF inv _ c] e(2) by (auto simp: entry_for_def)
  then show ?thesis
    unfolding d by (intro taken_inv [OF inv e(1)]) (use ir_invD(1) [OF inv] in auto)
next
  case False
  then have d: "reg = release (ig_permit g) (iy_reg s)" "sigs = []"
    using drop guard_drop_eq [OF ir_invD(1) [OF inv], of g] by (auto split: option.splits)
  have "ie_tx e \<noteq> c" if "entry_of (iy_reg s) i = Some e" for i e
    using ir_invD(2) [OF inv that] False c that by (auto simp: entry_for_def)
  then have ent: "entry_for ?s i e" if "entry_of (iy_reg s) i = Some e" for i e
    using ir_invD(2) [OF inv that] that by (auto simp: entry_for_def d(2))
  have sub: "iy_live s c' = Some g'" if "iy_live ?s c' = Some g'" for c' g' using that by (auto split: if_splits)
  have same: "entry_of (iy_reg ?s) = entry_of (iy_reg s)" "iy_mail ?s = iy_mail s" "iy_asked ?s = iy_asked s"
    "ir_next_token (iy_reg ?s) = ir_next_token (iy_reg s)" "iy_calls ?s = iy_calls s" by (simp_all add: d)
  show ?thesis
  proof (rule ir_invI, unfold same)
    show "c' < iy_calls s" if "c' \<in> dom (iy_live ?s) \<union> dom (iy_asked s) \<union> dom (iy_mail s)" for c'
      using that sub ir_invD(8) [OF inv, of c'] by blast
    show "a = b" if "iy_live ?s a = Some x" "iy_live ?s b = Some y" "ig_token x = ig_token y" for a b x y
      using ir_invD(4) [OF inv sub [OF that(1)] sub [OF that(2)] that(3)] .
    show "\<exists>e. entry_of (iy_reg s) (ig_id g') = Some e \<and> ie_tx e = c'" if "iy_live ?s c' = Some g'" "iy_mail s c' = None" for c' g'
      using ir_invD(3) [OF inv sub [OF that(1)] that(2)] .
    show "ig_token g' < ir_next_token (iy_reg s)" if "iy_live ?s c' = Some g'" for c' g'
      using ir_invD(5) [OF inv sub [OF that]] .
  qed (use ent ir_invD(1,6,7) [OF inv] in \<open>simp_all add: d\<close>)
qed

lemma cleared_inv:
  assumes inv: "ir_inv s" and cl: "clear (iy_reg s) = (reg, sigs)"
  shows "ir_inv (s\<lparr>iy_reg := reg, iy_mail := signal_all sigs (iy_mail s)\<rparr>)" (is "ir_inv ?s")
proof -
  note spec = clear_spec [OF ir_invD(1) [OF inv], unfolded cl fst_conv snd_conv]
  have "sigs = map (\<lambda>c. (c, SenderDropped)) (map fst sigs)" using spec(5) by (intro nth_equalityI) (auto dest!: nth_mem)
  then have mail: "iy_mail ?s c = (if c \<in> fst ` set sigs \<and> iy_mail s c = None then Some SenderDropped else iy_mail s c)" for c
    using signal_all_same [of SenderDropped "map fst sigs" "iy_mail s" c] by simp
  have txs: "fst ` set sigs = ie_tx ` ran (entry_of (iy_reg s))" unfolding spec(5) by force
  show ?thesis
  proof (rule ir_invI)
    show "\<exists>e. entry_of (iy_reg ?s) (ig_id g) = Some e \<and> ie_tx e = c" if live: "iy_live ?s c = Some g" and got: "iy_mail ?s c = None" for c g
    proof -
      have none: "iy_mail s c = None" "c \<notin> fst ` set sigs" using got unfolding mail by (auto split: if_splits)
      obtain e where "entry_of (iy_reg s) (ig_id g) = Some e" "ie_tx e = c"
        using ir_invD(3) [OF inv _ none(1), of g] live by auto
      then show ?thesis using none(2) txs by (auto intro: ranI)
    qed
    show "c = c'" if "iy_live ?s c = Some a" "iy_live ?s c' = Some b" "ig_token a = ig_token b" for c c' a b
      using that ir_invD(4) [OF inv, of c a c' b] by simp
    show "\<exists>cid q. iy_asked ?s c = Some (cid, q) \<and> answers p cid q" if "iy_mail ?s c = Some (Sent p)" for c p
      using that ir_invD(7) [OF inv, of c p] unfolding mail by (auto split: if_splits)
    show "c < iy_calls ?s" if "c \<in> dom (iy_live ?s) \<union> dom (iy_asked ?s) \<union> dom (iy_mail ?s)" for c
    proof -
      have "ie_tx e \<in> dom (iy_live s)" if "e \<in> ran (entry_of (iy_reg s))" for e
        using that ir_invD(2) [OF inv] by (auto simp: ran_def entry_for_def)
      then have "c \<in> dom (iy_live s)" if "c \<in> fst ` set sigs" using that txs by auto
      then have "c \<in> dom (iy_mail s) \<union> dom (iy_live s)" if "c \<in> dom (iy_mail ?s)"
        using that mail [of c] by (cases "c \<in> fst ` set sigs") auto
      then show ?thesis using that ir_invD(8) [OF inv, of c] by auto
    qed
  qed (use spec ir_invD(5,6) [OF inv] in simp_all)
qed

lemma ir_step_calls: "ir_step s s' \<Longrightarrow> iy_calls s \<le> iy_calls s'"
  by (induction rule: ir_step.induct) simp_all

lemma ir_step_inv: "ir_step s s' \<Longrightarrow> ir_inv s \<Longrightarrow> iy_calls s' < 2 ^ 64 \<Longrightarrow> ir_inv s'"
proof (induction rule: ir_step.induct)
  case (joined s cid q reg i g)
  then show ?case using joined_inv by simp
next
  case (refused s cid q reg e)
  then show ?case using refused_inv by simp
next
  case (received s packet reg sigs packet' r)
  then show ?case using received_inv by simp
next
  case (cleared s reg sigs)
  then show ?case using cleared_inv by simp
next
  case (ended s c g reg sigs)
  then show ?case using ended_inv by simp
qed

lemma cap_inv_drop:
  assumes "cap_inv cap s" "iy_live s c = Some g" "ir_cap reg = ir_cap (iy_reg s)"
  shows "cap_inv cap (s\<lparr>iy_reg := release (ig_permit g) reg, iy_mail := mail, iy_live := (iy_live s)(c := None)\<rparr>)"
proof -
  have c: "c \<in> dom (iy_live s)" "finite (dom (iy_live s))" "ig_permit g \<longleftrightarrow> 0 < cap"
    using assms by (auto simp: cap_inv_def ran_def)
  then have "Suc (card (dom (iy_live s) - {c})) = card (dom (iy_live s))" by (intro card_Suc_Diff1)
  moreover have "\<forall>g\<in>ran ((iy_live s)(c := None)). ig_permit g \<longleftrightarrow> 0 < cap" using assms(1) by (auto simp: cap_inv_def ran_def split: if_splits)
  ultimately show ?thesis using assms c by (auto simp: cap_inv_def)
qed

lemma ir_step_cap: "ir_step s s' \<Longrightarrow> ir_inv s \<Longrightarrow> cap_inv cap s \<Longrightarrow> cap_inv cap s'"
proof (induction rule: ir_step.induct)
  case (joined s cid q reg i g)
  note r = register_Inr [OF ir_invD(1) [OF joined.prems(1)] joined.hyps]
  have fresh: "iy_calls s \<notin> dom (iy_live s)" using ir_invD(8) [OF joined.prems(1), of "iy_calls s"] by auto
  have "\<forall>h\<in>ran ((iy_live s)(iy_calls s \<mapsto> g)). ig_permit h \<longleftrightarrow> 0 < cap"
    using joined.prems(2) r(7) by (auto simp: cap_inv_def ran_def split: if_splits)
  then show ?case using joined.prems(2) r(8,9) fresh by (auto simp: cap_inv_def split: if_splits)
next
  case (refused s cid q reg e)
  then show ?case using register_Inl(3) [OF ir_invD(1)] by (simp add: cap_inv_def)
next
  case (received s packet reg sigs packet' r)
  then have "ir_cap reg = ir_cap (iy_reg s)"
    using complete_eq [OF ir_invD(1), of s packet] by (auto split: if_splits option.splits)
  then show ?case using received by (simp add: cap_inv_def)
next
  case (cleared s reg sigs)
  then have "ir_cap reg = ir_cap (iy_reg s)" using clear_spec(3) [OF ir_invD(1), of s] by simp
  then show ?case using cleared by (simp add: cap_inv_def)
next
  case (ended s c g reg sigs)
  then obtain reg0 where "reg = release (ig_permit g) reg0" "ir_cap reg0 = ir_cap (iy_reg s)"
    using guard_drop_eq [OF ir_invD(1), of s g] by (auto split: if_splits option.splits)
  then show ?case using cap_inv_drop ended by simp
qed

lemma ir_reachable_inv: "ir_reachable cap seed s \<Longrightarrow> iy_calls s < 2 ^ 64 \<Longrightarrow> ir_inv s \<and> cap_inv cap s"
proof (induction rule: rtranclp_induct)
  case base
  show ?case
    by (auto simp: ir_init_def registry_new_def ir_inv_def cap_inv_def)
next
  case (step s s')
  then have "iy_calls s < 2 ^ 64" using ir_step_calls [of s s'] by simp
  then show ?case using step ir_step_inv ir_step_cap by blast
qed


definition sample_question :: bytes where
  "sample_question = [1, 97, 0, 0, 1, 0, 1]"

definition sample_reply :: bytes where
  "sample_reply = [0x9b, 0x66, 0x80, 0, 0, 1, 0, 0, 0, 0, 0, 0, 1, 65, 0, 0, 1, 0, 1]"

lemma register_loop_free:
  "mix16 (ir_next_id reg) = i \<Longrightarrow> shard (ir_shards reg) i = Some (Some []) \<Longrightarrow> \<exists>reg'. register_loop (Suc n) reg e = Some (reg', Inr i)"
  by (simp add: Let_def)

lemma first_register:
  obtains reg where "registry_register (registry_new 1 1) 7 q 0 = Some (reg, Inr (0x9b66, \<lparr>ig_id = 0x9b66, ig_token = 0, ig_permit = True\<rparr>))"
proof -
  let ?reg = "\<lparr>ir_shards = shards_new, ir_next_id = 1, ir_next_token = 1, ir_cap = Some 0\<rparr>"
  let ?e = "\<lparr>ie_tx = 0, ie_client_id = 7, ie_question = q, ie_token = 0\<rparr>"
  have "mix16 1 = 0x9b66" by code_simp
  moreover have "shard shards_new (0x9b66 :: u16) = Some (Some [])"
    using shard_index_less [of "0x9b66 :: u16"] by (simp add: shard_def shards_new_def idx_in)
  ultimately obtain reg where "register_loop 65535 ?reg ?e = Some (reg, Inr 0x9b66)"
    using register_loop_free [of ?reg "0x9b66" 65534 ?e] by auto
  then show thesis using that by (simp add: registry_register_def registry_new_def Let_def)
qed


end
