(* ===== verification/Upstream_Pool.thy ===== *)
theory Upstream_Pool
  imports Inflight
begin

text \<open>
  \<open>src/upstream/mod.rs\<close>, \<open>src/stats.rs\<close> and the exchanges of the transports: the health of a node,
  its score, the choice of the node for a query and of the second node of a hedged query,
  and what an exchange records. A transport's sockets are parameters: what arrives from
  the network, in which order, and how long it takes.
\<close>

section \<open>Constants\<close>

definition SELECT_BAND_FLOOR_US :: u64 where "SELECT_BAND_FLOOR_US = 2000"
definition FAILURE_RTT_FLOOR_US :: u64 where "FAILURE_RTT_FLOOR_US = 50000"
definition FAILURE_RTT_CAP_US :: u64 where "FAILURE_RTT_CAP_US = 10000000"
definition CONGESTION_SCORE_FACTOR :: u64 where "CONGESTION_SCORE_FACTOR = 4"
definition PROBE_INTERVAL :: u64 where "PROBE_INTERVAL = 100"
definition SELECT_BAND_FACTOR :: u64 where "SELECT_BAND_FACTOR = 2"
definition HEDGE_RTT_MULTIPLIER :: u64 where "HEDGE_RTT_MULTIPLIER = 3"
definition HEDGE_MIN_DELAY :: nat where "HEDGE_MIN_DELAY = 2000"

definition saturating_mul :: "'w::len word \<Rightarrow> 'w word \<Rightarrow> 'w word" where
  "saturating_mul a b = (if unat a * unat b < 2 ^ LENGTH('w) then a * b else - 1)"

definition band_limit :: "u64 \<Rightarrow> u64 \<Rightarrow> u64 \<Rightarrow> u64" where
  "band_limit best factor floor = max (saturating_mul best factor) (saturating_add best floor)"

section \<open>Statistics and health of a node\<close>

record NodeStats =
  ns_queries_ok :: u64
  ns_queries_err :: u64
  ns_queries_timeout :: u64
  ns_queries_cancelled :: u64
  ns_active_inflight :: "64 word"
  ns_rtt_sum_us :: u64

definition stats_new :: NodeStats where
  "stats_new = \<lparr>ns_queries_ok = 0, ns_queries_err = 0, ns_queries_timeout = 0, ns_queries_cancelled = 0,
     ns_active_inflight = 0, ns_rtt_sum_us = 0\<rparr>"

definition record_ok :: "u64 \<Rightarrow> NodeStats \<Rightarrow> NodeStats" where
  "record_ok rtt s = s\<lparr>ns_queries_ok := ns_queries_ok s + 1, ns_rtt_sum_us := ns_rtt_sum_us s + rtt\<rparr>"

definition record_err :: "NodeStats \<Rightarrow> NodeStats" where
  "record_err s = s\<lparr>ns_queries_err := ns_queries_err s + 1\<rparr>"

definition record_timeout :: "NodeStats \<Rightarrow> NodeStats" where
  "record_timeout s = s\<lparr>ns_queries_err := ns_queries_err s + 1, ns_queries_timeout := ns_queries_timeout s + 1\<rparr>"

definition record_cancelled :: "NodeStats \<Rightarrow> NodeStats" where
  "record_cancelled s = s\<lparr>ns_queries_cancelled := ns_queries_cancelled s + 1\<rparr>"

record NodeStatsSnapshot =
  nss_name :: bytes
  nss_addr :: bytes
  nss_queries_ok :: u64
  nss_queries_err :: u64
  nss_queries_timeout :: u64
  nss_queries_cancelled :: u64
  nss_active_inflight :: "64 word"
  nss_rtt_sum_us :: u64

definition snapshot :: "NodeStats \<Rightarrow> bytes \<Rightarrow> bytes \<Rightarrow> NodeStatsSnapshot" where
  "snapshot s name addr = \<lparr>nss_name = name, nss_addr = addr, nss_queries_ok = ns_queries_ok s,
     nss_queries_err = ns_queries_err s, nss_queries_timeout = ns_queries_timeout s,
     nss_queries_cancelled = ns_queries_cancelled s, nss_active_inflight = ns_active_inflight s,
     nss_rtt_sum_us = ns_rtt_sum_us s\<rparr>"

definition rtt_count :: "NodeStatsSnapshot \<Rightarrow> u64" where
  "rtt_count s = nss_queries_ok s"

record HealthStats =
  he_ewma_rtt_us :: u64
  he_consecutive_failures :: u32
  he_concurrency_window :: u64
  he_max_inflight :: u64

definition health_new :: "u64 \<Rightarrow> HealthStats" where
  "health_new max_inflight = \<lparr>he_ewma_rtt_us = 0, he_consecutive_failures = 0,
     he_concurrency_window = (if 0 < max_inflight then max_inflight else - 1), he_max_inflight = max_inflight\<rparr>"

definition record_success :: "u64 \<Rightarrow> HealthStats \<Rightarrow> HealthStats" where
  "record_success rtt h =
     (let old = he_ewma_rtt_us h;
          ewma = (if old = 0 \<or> he_consecutive_failures h \<noteq> 0 then rtt else old - drop_bit 2 old + drop_bit 2 rtt);
          w = he_concurrency_window h
      in h\<lparr>he_ewma_rtt_us := ewma, he_consecutive_failures := 0,
           he_concurrency_window := (if 0 < he_max_inflight h \<and> w < he_max_inflight h then w + 1 else w)\<rparr>)"

definition record_failure :: "bool \<Rightarrow> HealthStats \<Rightarrow> HealthStats" where
  "record_failure is_timeout h =
     (let inflated = min (max (saturating_mul (he_ewma_rtt_us h) 2) FAILURE_RTT_FLOOR_US) FAILURE_RTT_CAP_US;
          w = he_concurrency_window h
      in h\<lparr>he_ewma_rtt_us := inflated,
           he_concurrency_window := (if is_timeout \<and> 0 < he_max_inflight h then max (w div 2) 1 else w),
           he_consecutive_failures := he_consecutive_failures h + 1\<rparr>)"

section \<open>Nodes\<close>

datatype UpstreamTransport = UdpTransport bytes | TcpTransport bytes | DohTransport bytes | DoqTransport bytes | H3Transport bytes

fun transport_name :: "UpstreamTransport \<Rightarrow> bytes" where
  "transport_name (UdpTransport n) = n"
| "transport_name (TcpTransport n) = n"
| "transport_name (DohTransport n) = n"
| "transport_name (DoqTransport n) = n"
| "transport_name (H3Transport n) = n"

record UpstreamNode =
  un_transport :: UpstreamTransport
  un_health :: HealthStats
  un_stats :: NodeStats
  un_last_selected :: u64
  un_addr_display :: bytes

definition selection_score :: "UpstreamNode \<Rightarrow> u64" where
  "selection_score n =
     (let ewma = he_ewma_rtt_us (un_health n);
          active = ns_active_inflight (un_stats n);
          inflight = (if sint active < 0 then 0 else active);
          base = (if ewma = 0 then inflight else saturating_mul ewma (1 + inflight));
          window = he_concurrency_window (un_health n)
      in if 0 < window \<and> window \<le> inflight then saturating_mul base CONGESTION_SCORE_FACTOR else base)"

text \<open>Delays in microseconds.\<close>

definition node_hedge_delay :: "UpstreamNode \<Rightarrow> nat \<Rightarrow> nat" where
  "node_hedge_delay n fallback =
     (if 0 < he_consecutive_failures (un_health n) then fallback
      else let ewma = he_ewma_rtt_us (un_health n)
           in if ewma = 0 then fallback else max (unat (saturating_mul ewma HEDGE_RTT_MULTIPLIER)) HEDGE_MIN_DELAY)"

section \<open>The choice of a node\<close>

text \<open>\<open>Iterator::min_by_key\<close> over an enumeration: the first position of a smallest key.\<close>

fun min_by_key :: "(nat \<times> 'k::linorder) list \<Rightarrow> (nat \<times> 'k) option" where
  "min_by_key [] = None"
| "min_by_key (x # xs) =
     (case min_by_key xs of None \<Rightarrow> Some x | Some y \<Rightarrow> if snd x \<le> snd y then Some x else Some y)"

record UpstreamPool =
  up_nodes :: "UpstreamNode list"
  up_next :: u64
  up_hedge_delay :: "nat option"
  up_active_hedges :: u64
  up_hedged_queries :: u64

definition keyed :: "(UpstreamNode \<Rightarrow> 'k) \<Rightarrow> UpstreamNode list \<Rightarrow> (nat \<times> 'k) list" where
  "keyed f nodes = enumerate 0 (map f nodes)"

text \<open>The pick of the loop over the candidates in the band.\<close>

fun pick_in_band :: "u64 \<Rightarrow> nat \<Rightarrow> nat \<Rightarrow> (nat \<times> u64) list \<Rightarrow> nat option" where
  "pick_in_band limit pick seen [] = None"
| "pick_in_band limit pick seen ((i, score) # rest) =
     (if score \<le> limit then (if seen = pick then Some i else pick_in_band limit pick (seen + 1) rest)
      else pick_in_band limit pick seen rest)"

definition select_primary_idx :: "UpstreamNode list \<Rightarrow> u64 \<Rightarrow> nat option run" where
  "select_primary_idx nodes query_ix =
     (case min_by_key (keyed un_last_selected nodes) of
        Some (probe, lru) \<Rightarrow>
          if PROBE_INTERVAL \<le> query_ix - lru then Some (Some probe)
          else
            (let candidates = keyed selection_score nodes;
                 best = fold min (map snd candidates) (- 1);
                 limit = band_limit best SELECT_BAND_FACTOR SELECT_BAND_FLOOR_US;
                 in_band = length (filter (\<lambda>(_, s). s \<le> limit) candidates)
             in if in_band = 0 then None
                else Some (pick_in_band limit (unat (drop_bit 33 (query_ix * 0x9E3779B97F4A7C15)) mod in_band) 0 candidates))
      | None \<Rightarrow> Some None)"

definition select_secondary_idx :: "UpstreamNode list \<Rightarrow> nat \<Rightarrow> nat option" where
  "select_secondary_idx nodes primary =
     map_option fst (min_by_key (filter (\<lambda>(i, _). i \<noteq> primary) (keyed selection_score nodes)))"

section \<open>Exchanges of the transports\<close>

record UpstreamRequest =
  rq_packet :: bytes
  rq_client_id :: u16
  rq_question :: bytes

text \<open>An error, and what its chain of causes holds: an elapsed timer, a saturated cap.\<close>

record UpstreamError =
  ue_msg :: err
  ue_timeout :: bool
  ue_cap :: bool

type_synonym exchanged = "UpstreamError + bytes"

definition plain :: "err \<Rightarrow> UpstreamError" where
  "plain e = \<lparr>ue_msg = e, ue_timeout = False, ue_cap = False\<rparr>"

definition elapsed :: "err \<Rightarrow> UpstreamError" where
  "elapsed e = \<lparr>ue_msg = e, ue_timeout = True, ue_cap = False\<rparr>"

definition of_res :: "bytes res \<Rightarrow> exchanged" where
  "of_res r = (case r of Inl e \<Rightarrow> Inl (plain e) | Inr b \<Rightarrow> Inr b)"

definition register_error :: "err \<Rightarrow> UpstreamError" where
  "register_error e = \<lparr>ue_msg = e, ue_timeout = False, ue_cap = (e = InflightCapReached)\<rparr>"

text \<open>What comes of the channel that the registry completes; \<open>None\<close> is the timer of the query.\<close>

record udp_net =
  udp_queued :: bool
  udp_rx :: "bytes signal option"
  udp_tcp :: exchanged

definition udp_exchange :: "EcsMode \<Rightarrow> UpstreamRequest \<Rightarrow> u16 res \<Rightarrow> udp_net \<Rightarrow> exchanged run" where
  "udp_exchange mode req registered net = do {
     packet \<leftarrow> apply_ecs_mode (rq_packet req) mode;
     case registered of
       Inl e \<Rightarrow> Some (Inl (register_error e))
     | Inr upstream_id \<Rightarrow>
         (case set_id packet upstream_id of
            Inl e \<Rightarrow> Some (Inl (plain e))
          | Inr packet \<Rightarrow>
              if \<not> udp_queued net then Some (Inl (plain ''send flusher stopped''))
              else
                (case udp_rx net of
                   None \<Rightarrow> Some (Inl (elapsed ''timeout''))
                 | Some SenderDropped \<Rightarrow> Some (Inl (plain ''response channel closed''))
                 | Some (Sent resp) \<Rightarrow>
                     if \<not> is_truncated resp then Some (Inr resp)
                     else
                       (case udp_tcp net of
                          Inl e \<Rightarrow> Some (Inl e)
                        | Inr tcp_resp \<Rightarrow>
                            map_option of_res
                              (try_res (validate_upstream_response tcp_resp upstream_id (rq_question req))
                                 (\<lambda>_. Some (set_id tcp_resp (rq_client_id req))))))) }"

text \<open>The stream of the multiplexed connection takes the frame, or the reason why it does not.\<close>

record mux_net =
  mux_enqueued :: "UpstreamError + unit"
  mux_rx :: "bytes signal option"

definition mux_exchange :: "EcsMode \<Rightarrow> UpstreamRequest \<Rightarrow> u16 res \<Rightarrow> mux_net \<Rightarrow> exchanged run" where
  "mux_exchange mode req registered net =
     (case registered of
        Inl e \<Rightarrow> Some (Inl (register_error e))
      | Inr upstream_id \<Rightarrow> do {
          pkt \<leftarrow> prepare_query (rq_packet req) mode upstream_id;
          Some (case pkt of
              Inl e \<Rightarrow> Inl (plain e)
            | Inr pkt \<Rightarrow>
                if \<not> length pkt < 65536 then Inl (plain ''dns packet too large for tcp'')
                else
                  (case mux_enqueued net of
                     Inl e \<Rightarrow> Inl e
                   | Inr _ \<Rightarrow>
                       (case mux_rx net of
                          None \<Rightarrow> Inl (elapsed ''tcp timeout'')
                        | Some SenderDropped \<Rightarrow> Inl (plain ''tcp response channel closed'')
                        | Some (Sent resp) \<Rightarrow> Inr resp))) })"

text \<open>
  DoH, DoQ and HTTP/3: a permit, the prepared query, the body of the response and its check.
  The body is read in chunks (DoH, with a limit) or after a length prefix (DoQ).
\<close>

fun doh_read_body :: "bytes \<Rightarrow> bytes res list \<Rightarrow> bytes res" where
  "doh_read_body acc [] = Inr acc"
| "doh_read_body acc (Inl e # _) = Inl e"
| "doh_read_body acc (Inr chunk # rest) =
     (if 65535 < length (acc @ chunk) then Inl ''DoH response too large'' else doh_read_body (acc @ chunk) rest)"

definition doh_body :: "nat \<Rightarrow> bytes res list \<Rightarrow> exchanged" where
  "doh_body status chunks = (if status \<noteq> 200 then Inl (plain ''DoH HTTP status'') else of_res (doh_read_body [] chunks))"

fun h3_read_body :: "bytes \<Rightarrow> bytes res list \<Rightarrow> bytes res" where
  "h3_read_body acc [] = Inr acc"
| "h3_read_body acc (Inl e # _) = Inl e"
| "h3_read_body acc (Inr chunk # rest) = h3_read_body (acc @ chunk) rest"

definition h3_body :: "nat \<Rightarrow> bytes res list \<Rightarrow> exchanged" where
  "h3_body status chunks = (if status \<noteq> 200 then Inl (plain ''H3 HTTP/3 status'') else of_res (h3_read_body [] chunks))"

definition doq_body :: "bytes \<Rightarrow> bytes \<Rightarrow> exchanged" where
  "doq_body pkt stream =
     (if \<not> length pkt < 65536 then Inl (plain ''DNS packet too large for DoQ'')
      else if length stream < 2 then Inl (plain ''DoQ response length read failed'')
      else let resp_len = unat (u16_of stream 0)
           in if resp_len < 12 then Inl (plain ''DoQ response too short'')
              else if length stream < 2 + resp_len then Inl (plain ''DoQ response body read failed'')
              else Inr (take resp_len (drop 2 stream)))"

definition stream_exchange :: "EcsMode \<Rightarrow> UpstreamRequest \<Rightarrow> UpstreamError + unit \<Rightarrow> u16 \<Rightarrow> (bytes \<Rightarrow> exchanged) \<Rightarrow> exchanged run" where
  "stream_exchange mode req permit upstream_id body =
     (case permit of
        Inl e \<Rightarrow> Some (Inl e)
      | Inr _ \<Rightarrow> do {
          pkt \<leftarrow> prepare_query (rq_packet req) mode upstream_id;
          case pkt of
            Inl e \<Rightarrow> Some (Inl (plain e))
          | Inr pkt \<Rightarrow>
              (case body pkt of
                 Inl e \<Rightarrow> Some (Inl e)
               | Inr resp \<Rightarrow> map_option of_res (finalize_response resp upstream_id (rq_question req) (rq_client_id req))) })"

definition doh_exchange :: "EcsMode \<Rightarrow> UpstreamRequest \<Rightarrow> UpstreamError + unit \<Rightarrow> u32 \<Rightarrow> (bytes \<Rightarrow> exchanged) \<Rightarrow> exchanged run" where
  "doh_exchange mode req permit next_id body = stream_exchange mode req permit (mix16 next_id) body"

definition doq_exchange :: "EcsMode \<Rightarrow> UpstreamRequest \<Rightarrow> UpstreamError + unit \<Rightarrow> (bytes \<Rightarrow> exchanged) \<Rightarrow> exchanged run" where
  "doq_exchange mode req permit body = stream_exchange mode req permit 0 body"

definition h3_exchange :: "EcsMode \<Rightarrow> UpstreamRequest \<Rightarrow> UpstreamError + unit \<Rightarrow> u32 \<Rightarrow> (bytes \<Rightarrow> exchanged) \<Rightarrow> exchanged run" where
  "h3_exchange mode req permit next_id body = stream_exchange mode req permit (mix16 next_id) body"

section \<open>The exchange of a pool\<close>

definition STALE_REFRESH_THRESHOLD :: u32 where
  "STALE_REFRESH_THRESHOLD = 6"

definition inflight_delta :: "64 word \<Rightarrow> UpstreamNode \<Rightarrow> UpstreamNode" where
  "inflight_delta d n = n\<lparr>un_stats := un_stats n\<lparr>ns_active_inflight := ns_active_inflight (un_stats n) + d\<rparr>\<rparr>"

text \<open>What a node records of a finished exchange, and whether its sockets are to be renewed.\<close>

definition exchange_done :: "exchanged \<Rightarrow> u64 \<Rightarrow> UpstreamNode \<Rightarrow> UpstreamNode \<times> bool" where
  "exchange_done result rtt n =
     (case result of
        Inr _ \<Rightarrow> (n\<lparr>un_health := record_success rtt (un_health n), un_stats := record_ok rtt (un_stats n)\<rparr>, False)
      | Inl e \<Rightarrow>
          (let n = n\<lparr>un_health := record_failure (ue_timeout e) (un_health n)\<rparr>
           in if ue_timeout e
              then (n\<lparr>un_stats := record_timeout (un_stats n)\<rparr>,
                    STALE_REFRESH_THRESHOLD \<le> he_consecutive_failures (un_health n) \<and>
                    (case un_transport n of UdpTransport _ \<Rightarrow> True | TcpTransport _ \<Rightarrow> True | _ \<Rightarrow> False))
              else (n\<lparr>un_stats := record_err (un_stats n)\<rparr>, False)))"

text \<open>A node's exchange from start to end, and one that is cancelled before its end.\<close>

definition node_exchange :: "exchanged \<Rightarrow> u64 \<Rightarrow> UpstreamNode \<Rightarrow> UpstreamNode" where
  "node_exchange result rtt n = inflight_delta (- 1) (fst (exchange_done result rtt (inflight_delta 1 n)))"

definition node_cancelled :: "UpstreamNode \<Rightarrow> UpstreamNode" where
  "node_cancelled n = (let n = inflight_delta (- 1) (inflight_delta 1 n) in n\<lparr>un_stats := record_cancelled (un_stats n)\<rparr>)"

text \<open>The network during one exchange: what each node would answer and when.\<close>

record pool_env =
  pe_result :: "nat \<Rightarrow> UpstreamRequest \<Rightarrow> exchanged \<times> u64"
  pe_in_time :: "nat \<Rightarrow> bool"
  pe_primary_first :: bool

definition with_node :: "nat \<Rightarrow> (UpstreamNode \<Rightarrow> UpstreamNode) \<Rightarrow> UpstreamPool \<Rightarrow> UpstreamPool" where
  "with_node i f pool = pool\<lparr>up_nodes := (up_nodes pool)[i := f (up_nodes pool ! i)]\<rparr>"

definition ran_node :: "nat \<Rightarrow> exchanged \<times> u64 \<Rightarrow> UpstreamPool \<Rightarrow> UpstreamPool" where
  "ran_node i r = with_node i (node_exchange (fst r) (snd r))"

definition hedged :: "pool_env \<Rightarrow> UpstreamRequest \<Rightarrow> nat \<Rightarrow> UpstreamPool \<Rightarrow> UpstreamPool \<times> exchanged" where
  "hedged env req primary pool =
     (let p = pe_result env primary req
      in if of_nat (max (length (up_nodes pool)) 4) \<le> up_active_hedges pool then (ran_node primary p pool, fst p)
         else
           (let pool = pool\<lparr>up_hedged_queries := up_hedged_queries pool + 1\<rparr>
            in case select_secondary_idx ((up_nodes pool)[primary := inflight_delta 1 (up_nodes pool ! primary)]) primary of
                 None \<Rightarrow> (ran_node primary p pool, fst p)
               | Some secondary \<Rightarrow>
                   (let s = pe_result env secondary req
                    in if pe_primary_first env then
                         (case fst p of
                            Inr _ \<Rightarrow> (with_node secondary node_cancelled (ran_node primary p pool), fst p)
                          | Inl _ \<Rightarrow> (ran_node secondary s (ran_node primary p pool), case fst s of Inr b \<Rightarrow> Inr b | Inl _ \<Rightarrow> fst p))
                       else
                         (case fst s of
                            Inr _ \<Rightarrow> (with_node primary node_cancelled (ran_node secondary s pool), fst s)
                          | Inl _ \<Rightarrow> (ran_node primary p (ran_node secondary s pool), fst p)))))"

definition exchange_observed :: "pool_env \<Rightarrow> UpstreamPool \<Rightarrow> bytes \<Rightarrow> u16 \<Rightarrow> (UpstreamPool \<times> exchanged) run" where
  "exchange_observed env pool packet client_id =
     (if up_nodes pool = [] then Some (pool, Inl (plain ''empty upstream pool''))
      else do {
        let query_ix = up_next pool;
        let pool = pool\<lparr>up_next := query_ix + 1\<rparr>;
        question \<leftarrow> (case question_end packet of Some e \<Rightarrow> slice packet 12 e | None \<Rightarrow> Some []);
        sel \<leftarrow> select_primary_idx (up_nodes pool) query_ix;
        case sel of
          None \<Rightarrow> Some (pool, Inl (plain ''empty upstream pool''))
        | Some primary \<Rightarrow>
            (let pool = with_node primary (\<lambda>n. n\<lparr>un_last_selected := query_ix\<rparr>) pool;
                 req = \<lparr>rq_packet = packet, rq_client_id = client_id, rq_question = question\<rparr>;
                 p = pe_result env primary req
             in case up_hedge_delay pool of
                  None \<Rightarrow> Some (ran_node primary p pool, fst p)
                | Some fallback \<Rightarrow>
                    if pe_in_time env (node_hedge_delay (up_nodes pool ! primary) fallback)
                    then Some (ran_node primary p pool, fst p)
                    else Some (hedged env req primary pool)) })"

definition node_snapshots :: "UpstreamPool \<Rightarrow> (nat \<Rightarrow> bytes) \<Rightarrow> NodeStatsSnapshot list" where
  "node_snapshots pool name = map (\<lambda>(i, n). snapshot (un_stats n) (name i) (un_addr_display n)) (enumerate 0 (up_nodes pool))"

section \<open>Selection\<close>

lemma min_by_key_None [simp]: "min_by_key xs = None \<longleftrightarrow> xs = []"
  by (cases xs) (auto split: option.splits)

lemma min_by_key_Some: "min_by_key xs = Some x \<Longrightarrow> x \<in> set xs \<and> (\<forall>y\<in>set xs. snd x \<le> snd y)"
  by (induction xs arbitrary: x) (auto split: option.splits if_splits)

lemma keyed_iff: "(i, k) \<in> set (keyed f nodes) \<longleftrightarrow> i < length nodes \<and> k = f (nodes ! i)"
  by (auto simp: keyed_def in_set_enumerate_eq)

lemma fold_min: "fold min xs a = Min (insert a (set xs))"
  using Min.set_eq_fold [of a xs] by simp

lemma fold_min_le: "x \<in> set xs \<Longrightarrow> fold min xs a \<le> (x :: 'a :: linorder)"
  by (simp add: fold_min)

lemma fold_min_in: "fold min xs a \<in> insert (a :: 'a :: linorder) (set xs)"
  unfolding fold_min by (rule Min_in) simp_all

lemma le_saturating_add: "a \<le> saturating_add a b"
proof (cases "unat a + unat b < 2 ^ LENGTH('a)")
  case True
  then have "unat (a + b) = unat a + unat b" by (simp add: unat_word_ariths)
  then show ?thesis using True by (simp add: saturating_add_def word_le_nat_alt)
qed (simp add: saturating_add_def)

lemma best_in_band: "best \<le> band_limit best factor floor"
  using le_saturating_add [of best floor] by (auto simp: band_limit_def le_max_iff_disj)

lemma pick_in_band_spec:
  "seen \<le> pick \<Longrightarrow> pick < seen + length (filter (\<lambda>(_, s). s \<le> limit) cs) \<Longrightarrow>
     \<exists>i s. pick_in_band limit pick seen cs = Some i \<and> (i, s) \<in> set cs \<and> s \<le> limit"
proof (induction cs arbitrary: seen)
  case (Cons c cs)
  obtain i s where c: "c = (i, s)" by (cases c)
  show ?case
  proof (cases "s \<le> limit")
    case True
    then show ?thesis
    proof (cases "seen = pick")
      case False
      then show ?thesis using True Cons.IH [of "seen + 1"] Cons.prems by (auto simp: c)
    qed (use c True in auto)
  next
    case False
    then show ?thesis using Cons.IH [of seen] Cons.prems by (auto simp: c)
  qed
qed simp

text \<open>
  The node of a query: the least recently chosen one once it has been passed over for the
  probe interval, otherwise one whose score is in the band of the best score.
\<close>

definition due :: "UpstreamNode list \<Rightarrow> u64 \<Rightarrow> nat \<Rightarrow> bool" where
  "due nodes query_ix i \<longleftrightarrow> (\<forall>n\<in>set nodes. un_last_selected (nodes ! i) \<le> un_last_selected n) \<and>
     PROBE_INTERVAL \<le> query_ix - un_last_selected (nodes ! i)"

definition in_band :: "UpstreamNode list \<Rightarrow> nat \<Rightarrow> bool" where
  "in_band nodes i \<longleftrightarrow> (\<exists>n\<in>set nodes. (\<forall>m\<in>set nodes. selection_score n \<le> selection_score m) \<and>
     selection_score (nodes ! i) \<le> band_limit (selection_score n) SELECT_BAND_FACTOR SELECT_BAND_FLOOR_US)"

lemma select_primary_spec:
  assumes "nodes \<noteq> []"
  obtains i where "select_primary_idx nodes ix = Some (Some i)" "i < length nodes"
    "due nodes ix i \<or> (\<forall>j<length nodes. \<not> due nodes ix j) \<and> in_band nodes i"
proof -
  obtain probe lru where m: "min_by_key (keyed un_last_selected nodes) = Some (probe, lru)"
    using assms by (cases "min_by_key (keyed un_last_selected nodes)") (auto simp: keyed_def enumerate_eq_zip)
  then have "(probe, lru) \<in> set (keyed un_last_selected nodes)" by (simp add: min_by_key_Some)
  then have probe: "probe < length nodes" "lru = un_last_selected (nodes ! probe)" by (simp_all add: keyed_iff)
  have "lru \<le> un_last_selected (nodes ! j)" if "j < length nodes" for j
    using min_by_key_Some [OF m] that keyed_iff [of j "un_last_selected (nodes ! j)" un_last_selected nodes] by fastforce
  then have min: "\<forall>n\<in>set nodes. un_last_selected (nodes ! probe) \<le> un_last_selected n"
    using probe(2) by (auto simp: in_set_conv_nth)
  show thesis
  proof (cases "PROBE_INTERVAL \<le> ix - lru")
    case True
    then show ?thesis using that [of probe] m probe min by (simp add: select_primary_idx_def due_def)
  next
    case False
    then have no: "\<not> due nodes ix j" if "j < length nodes" for j
      using that min probe nth_mem [OF that] nth_mem [OF probe(1)] by (metis due_def order_antisym)
    let ?cs = "keyed selection_score nodes"
    let ?best = "fold min (map snd ?cs) (- 1)"
    let ?limit = "band_limit ?best SELECT_BAND_FACTOR SELECT_BAND_FLOOR_US"
    let ?n = "length (filter (\<lambda>(_, s). s \<le> ?limit) ?cs)"
    have scores: "map snd ?cs = map selection_score nodes" by (simp add: keyed_def)
    have le: "?best \<le> selection_score m" if "m \<in> set nodes" for m
      using that fold_min_le [of "selection_score m" "map snd ?cs"] by (simp add: scores)
    obtain b where b: "b \<in> set nodes" "selection_score b = ?best"
      using fold_min_in [of "map snd ?cs" "- 1"] assms le by (auto simp: scores neq_Nil_conv) (metis word_order.extremum_unique list.set_intros(1))
    then obtain j where j: "j < length nodes" "nodes ! j = b" by (auto simp: in_set_conv_nth)
    then have "(j, ?best) \<in> set ?cs" using b(2) by (simp add: keyed_iff)
    then have "filter (\<lambda>(_, s). s \<le> ?limit) ?cs \<noteq> []" using best_in_band by (force simp: filter_empty_conv)
    then have pos: "0 < ?n" by (simp only: length_greater_0_conv not_False_eq_True)
    let ?pick = "unat (drop_bit 33 (ix * 0x9E3779B97F4A7C15)) mod ?n"
    obtain i s where i: "pick_in_band ?limit ?pick 0 ?cs = Some i" "(i, s) \<in> set ?cs" "s \<le> ?limit"
      using pick_in_band_spec [of 0 ?pick ?limit ?cs] pos by auto
    have "in_band nodes i" unfolding in_band_def using b le i(2,3) by (intro bexI [of _ b]) (auto simp: keyed_iff)
    then show ?thesis using that [of i] no m False i pos by (simp add: select_primary_idx_def Let_def keyed_iff)
  qed
qed

section \<open>Exchanges\<close>

text \<open>What an exchange leaves of a node as it was, its health and counters apart.\<close>

definition same_slot :: "UpstreamNode \<Rightarrow> UpstreamNode \<Rightarrow> bool" where
  "same_slot n n' \<longleftrightarrow> un_transport n' = un_transport n \<and> un_last_selected n' = un_last_selected n \<and>
     un_addr_display n' = un_addr_display n \<and> ns_active_inflight (un_stats n') = ns_active_inflight (un_stats n) \<and>
     he_max_inflight (un_health n') = he_max_inflight (un_health n)"

definition pool_frame :: "UpstreamPool \<Rightarrow> UpstreamPool \<Rightarrow> bool" where
  "pool_frame p q \<longleftrightarrow> list_all2 same_slot (up_nodes p) (up_nodes q) \<and> up_next q = up_next p \<and>
     up_hedge_delay q = up_hedge_delay p \<and> up_active_hedges q = up_active_hedges p"

lemma same_slot_refl [simp]: "same_slot n n"
  by (simp add: same_slot_def)

lemma same_slot_trans: "same_slot a b \<Longrightarrow> same_slot b c \<Longrightarrow> same_slot a c"
  by (simp add: same_slot_def)

lemma pool_frame_refl [simp]: "pool_frame p p"
  by (simp add: pool_frame_def list.rel_refl)

lemma pool_frame_trans: "pool_frame a b \<Longrightarrow> pool_frame b c \<Longrightarrow> pool_frame a c"
  using list_all2_trans [of same_slot same_slot same_slot] same_slot_trans unfolding pool_frame_def by (metis (no_types, lifting))

lemma with_node_frame:
  assumes "\<And>n. same_slot n (f n)"
  shows "pool_frame p (with_node i f p)"
proof -
  have "same_slot (up_nodes p ! k) ((up_nodes p)[i := f (up_nodes p ! i)] ! k)" if "k < length (up_nodes p)" for k
    using that assms by (cases "k = i") simp_all
  then show ?thesis by (simp add: pool_frame_def with_node_def list_all2_conv_all_nth)
qed

lemma node_exchange_slot: "same_slot n (node_exchange r rtt n)"
  by (auto simp: same_slot_def node_exchange_def exchange_done_def inflight_delta_def record_ok_def record_err_def
      record_timeout_def record_success_def record_failure_def Let_def split: sum.split)

lemma node_cancelled_slot: "same_slot n (node_cancelled n)"
  by (simp add: same_slot_def node_cancelled_def inflight_delta_def record_cancelled_def Let_def)

lemma ran_node_frame: "pool_frame p (ran_node i r p)"
  unfolding ran_node_def by (rule with_node_frame) (rule node_exchange_slot)

lemma hedged_spec:
  assumes "hedged env req primary pool = (pool', r)" "primary < length (up_nodes pool)"
  shows "pool_frame pool pool'" and "\<exists>j<length (up_nodes pool). r = fst (pe_result env j req)"
    and "r = Inl e \<Longrightarrow> \<exists>e'. fst (pe_result env primary req) = Inl e'"
proof -
  let ?q = "pool\<lparr>up_hedged_queries := up_hedged_queries pool + 1\<rparr>"
  let ?nodes = "(up_nodes pool)[primary := inflight_delta 1 (up_nodes pool ! primary)]"
  have q: "pool_frame pool ?q" by (simp add: pool_frame_def list.rel_refl)
  have sec: "s < length (up_nodes pool)" if "select_secondary_idx ?nodes primary = Some s" for s
    using that by (auto simp: select_secondary_idx_def keyed_iff dest!: min_by_key_Some)
  have fr: "pool_frame pool (ran_node i a ?q)" "pool_frame pool (ran_node i a (ran_node j b ?q))"
    "pool_frame pool (with_node i node_cancelled (ran_node j b ?q))" for i j a b
    using q ran_node_frame with_node_frame [OF node_cancelled_slot] pool_frame_trans by meson+
  show "pool_frame pool pool'"
    using assms(1) by (auto simp: hedged_def Let_def fr ran_node_frame split: if_splits option.splits sum.splits)
  show "\<exists>j<length (up_nodes pool). r = fst (pe_result env j req)"
    using assms sec by (fastforce simp: hedged_def Let_def split: if_splits option.splits sum.splits)
  show "\<exists>e'. fst (pe_result env primary req) = Inl e'" if "r = Inl e"
    using assms(1) that by (auto simp: hedged_def Let_def split: if_splits option.splits sum.splits)
qed

definition request_of :: "bytes \<Rightarrow> u16 \<Rightarrow> UpstreamRequest" where
  "request_of packet client_id = \<lparr>rq_packet = packet, rq_client_id = client_id, rq_question = question_of packet\<rparr>"

lemma exchange_observed_spec:
  assumes "up_nodes pool \<noteq> []"
  obtains i pool' r where "select_primary_idx (up_nodes pool) (up_next pool) = Some (Some i)" "i < length (up_nodes pool)"
    "exchange_observed env pool packet cid = Some (pool', r)"
    "pool_frame (with_node i (\<lambda>n. n\<lparr>un_last_selected := up_next pool\<rparr>) (pool\<lparr>up_next := up_next pool + 1\<rparr>)) pool'"
    "\<exists>j<length (up_nodes pool). r = fst (pe_result env j (request_of packet cid))"
    "\<And>e. r = Inl e \<Longrightarrow> \<exists>e'. fst (pe_result env i (request_of packet cid)) = Inl e'"
proof -
  obtain i where i: "select_primary_idx (up_nodes pool) (up_next pool) = Some (Some i)" "i < length (up_nodes pool)"
    using select_primary_spec [OF assms] by metis
  let ?req = "request_of packet cid"
  let ?p = "with_node i (\<lambda>n. n\<lparr>un_last_selected := up_next pool\<rparr>) (pool\<lparr>up_next := up_next pool + 1\<rparr>)"
  let ?h = "hedged env ?req i ?p"
  have q: "(case question_end packet of Some e \<Rightarrow> slice packet 12 e | None \<Rightarrow> Some []) = Some (question_of packet)"
    using question_end_bounds [of packet] by (auto simp: question_of_def get_range_def slice_in split: option.splits)
  have len: "length (up_nodes ?p) = length (up_nodes pool)" "up_hedge_delay ?p = up_hedge_delay pool"
    by (simp_all add: with_node_def)
  let ?plain = "case up_hedge_delay pool of None \<Rightarrow> True | Some f \<Rightarrow> pe_in_time env (node_hedge_delay (up_nodes ?p ! i) f)"
  have eq: "exchange_observed env pool packet cid =
      Some (if ?plain then (ran_node i (pe_result env i ?req) ?p, fst (pe_result env i ?req)) else ?h)"
    using assms i by (simp add: exchange_observed_def q len request_of_def Let_def split: option.split)
  show thesis
  proof (cases ?plain)
    case True
    then show ?thesis using that [OF i(1,2)] eq i(2) ran_node_frame by auto
  next
    case False
    obtain pool' r where h: "?h = (pool', r)" by (cases ?h)
    note spec = hedged_spec [OF h]
    show ?thesis using that [OF i(1,2), of pool' r] eq False h i(2) spec by (simp add: len)
  qed
qed

section \<open>What a transport delivers\<close>

lemma finalized_answers:
  "finalize_response resp uid q cid = Some (Inr r) \<Longrightarrow> answers r cid q"
  using finalize_response_exact [of resp uid q cid] by auto

lemma of_res_Inr [simp]: "of_res x = Inr b \<longleftrightarrow> x = Inr b"
  by (auto simp: of_res_def split: sum.splits)

lemma udp_exchange_answers:
  assumes "udp_exchange mode req reg net = Some (Inr r)"
    and "\<And>p. udp_rx net = Some (Sent p) \<Longrightarrow> answers p (rq_client_id req) (rq_question req)"
  shows "answers r (rq_client_id req) (rq_question req)"
proof -
  obtain resp uid where x: "udp_rx net = Some (Sent resp)"
    "r = resp \<or> finalize_response (projr (udp_tcp net)) uid (rq_question req) (rq_client_id req) = Some (Inr r)"
    using assms(1) unfolding udp_exchange_def finalize_response_def
    by (auto split: Option.bind_splits sum.splits if_splits option.splits signal.splits)
  then show ?thesis using assms(2) finalized_answers by auto
qed

lemma mux_exchange_answers:
  assumes "mux_exchange mode req reg net = Some (Inr r)"
    and "\<And>p. mux_rx net = Some (Sent p) \<Longrightarrow> answers p (rq_client_id req) (rq_question req)"
  shows "answers r (rq_client_id req) (rq_question req)"
  using assms unfolding mux_exchange_def
  by (auto split: Option.bind_splits sum.splits if_splits option.splits signal.splits)

lemma stream_exchange_answers:
  "stream_exchange mode req permit uid body = Some (Inr r) \<Longrightarrow> answers r (rq_client_id req) (rq_question req)"
  using finalized_answers unfolding stream_exchange_def
  by (auto split: Option.bind_splits sum.splits)

lemma doh_read_body_bound: "length acc \<le> 65535 \<Longrightarrow> doh_read_body acc chunks = Inr b \<Longrightarrow> length b \<le> 65535"
  by (induction acc chunks rule: doh_read_body.induct) (auto split: if_splits)

lemma h3_read_body_all: "h3_read_body acc (map Inr chunks) = Inr (acc @ concat chunks)"
  by (induction chunks arbitrary: acc) simp_all

section \<open>Every node is measured again\<close>

text \<open>One query of a pool, and the node it went to first.\<close>

definition pool_step :: "UpstreamPool \<Rightarrow> nat \<Rightarrow> UpstreamPool \<Rightarrow> bool" where
  "pool_step pool i pool' \<longleftrightarrow> select_primary_idx (up_nodes pool) (up_next pool) = Some (Some i) \<and>
     (\<exists>env packet cid r. exchange_observed env pool packet cid = Some (pool', r))"

definition last_chosen :: "UpstreamPool \<Rightarrow> nat \<Rightarrow> nat" where
  "last_chosen pool j = unat (un_last_selected (up_nodes pool ! j))"

lemma pool_step_spec:
  assumes "pool_step pool i pool'" "up_nodes pool \<noteq> []"
  shows "i < length (up_nodes pool)" "length (up_nodes pool') = length (up_nodes pool)" "up_next pool' = up_next pool + 1"
    "\<And>j. j < length (up_nodes pool) \<Longrightarrow> last_chosen pool' j = (if j = i then unat (up_next pool) else last_chosen pool j)"
proof -
  obtain env packet cid r where x: "exchange_observed env pool packet cid = Some (pool', r)"
    "select_primary_idx (up_nodes pool) (up_next pool) = Some (Some i)"
    using assms(1) by (auto simp: pool_step_def)
  let ?p = "with_node i (\<lambda>n. n\<lparr>un_last_selected := up_next pool\<rparr>) (pool\<lparr>up_next := up_next pool + 1\<rparr>)"
  have i: "i < length (up_nodes pool)" and fr: "pool_frame ?p pool'"
    using x by (metis exchange_observed_spec [OF assms(2)] option.inject prod.inject)+
  show "i < length (up_nodes pool)" by (rule i)
  show len: "length (up_nodes pool') = length (up_nodes pool)" "up_next pool' = up_next pool + 1"
    using fr by (auto simp: pool_frame_def with_node_def dest: list_all2_lengthD)
  show "last_chosen pool' j = (if j = i then unat (up_next pool) else last_chosen pool j)" if "j < length (up_nodes pool)" for j
  proof -
    have "same_slot (up_nodes ?p ! j) (up_nodes pool' ! j)"
      using fr that by (auto simp: pool_frame_def list_all2_conv_all_nth with_node_def)
    then show ?thesis using that i by (auto simp: same_slot_def last_chosen_def with_node_def)
  qed
qed

lemma due_chosen:
  assumes "pool_step pool i pool'" "j < length (up_nodes pool)" "last_chosen pool j + 100 \<le> unat (up_next pool)"
  shows "last_chosen pool i \<le> last_chosen pool j"
proof -
  have ne: "up_nodes pool \<noteq> []" using assms(2) by auto
  let ?key = "\<lambda>k. un_last_selected (up_nodes pool ! k)"
  obtain m where m: "m < length (up_nodes pool)" "\<forall>k<length (up_nodes pool). ?key m \<le> ?key k"
  proof -
    let ?S = "?key ` {..<length (up_nodes pool)}"
    have "Min ?S \<in> ?S" using ne by (intro Min_in) auto
    then obtain m where "m < length (up_nodes pool)" "?key m = Min ?S" by auto
    then show thesis using that [of m] by auto
  qed
  have "unat (?key m) + 100 \<le> unat (up_next pool)"
    using m(2) assms(2,3) by (fastforce simp: last_chosen_def word_le_nat_alt)
  then have "PROBE_INTERVAL \<le> up_next pool - ?key m"
    by (simp add: PROBE_INTERVAL_def word_le_nat_alt unat_sub)
  then have "due (up_nodes pool) (up_next pool) m" using m by (auto simp: due_def in_set_conv_nth)
  then have "due (up_nodes pool) (up_next pool) i"
    using select_primary_spec [OF ne, of "up_next pool"] assms(1) m(1) unfolding pool_step_def by (metis option.inject)
  then show ?thesis using assms(2) by (auto simp: due_def last_chosen_def word_le_nat_alt)
qed

text \<open>A run of a pool from its creation: the nodes and the query number at each step.\<close>

lemma pool_run:
  assumes run: "\<And>k. k < n \<Longrightarrow> pool_step (f k) (c k) (f (k + 1))"
    and start: "up_next (f 0) = 0" "\<forall>n\<in>set (up_nodes (f 0)). un_last_selected n = 0" "up_nodes (f 0) \<noteq> []" and n: "n < 2 ^ 64"
  shows "k \<le> n \<Longrightarrow> length (up_nodes (f k)) = length (up_nodes (f 0)) \<and> unat (up_next (f k)) = k \<and>
    (\<forall>j<length (up_nodes (f 0)). last_chosen (f k) j \<le> k)"
proof (induction k)
  case 0
  then show ?case using start by (simp add: last_chosen_def)
next
  case (Suc k)
  then have IH: "length (up_nodes (f k)) = length (up_nodes (f 0))" "unat (up_next (f k)) = k"
    "\<forall>j<length (up_nodes (f 0)). last_chosen (f k) j \<le> k" by simp_all
  have st: "pool_step (f k) (c k) (f (Suc k))" "up_nodes (f k) \<noteq> []" using run [of k] Suc.prems IH(1) start(3) by auto
  have "unat (up_next (f k) + 1) = Suc k" using IH(2) Suc.prems n by (simp add: unat_word_ariths)
  then show ?case using pool_step_spec [OF st] IH by (auto simp: le_SucI)
qed

lemma unchosen:
  fixes d :: nat
  assumes "\<And>k. start \<le> k \<Longrightarrow> k < start + D \<Longrightarrow> pool_step (f k) (c k) (f (k + 1)) \<and> i < length (up_nodes (f k)) \<and> c k \<noteq> i"
  shows "d \<le> D \<Longrightarrow> last_chosen (f (start + d)) i = last_chosen (f start) i"
proof (induction d)
  case (Suc d)
  then have st: "pool_step (f (start + d)) (c (start + d)) (f (start + d + 1))" "i < length (up_nodes (f (start + d)))" "c (start + d) \<noteq> i"
    using assms [of "start + d"] by auto
  then have "up_nodes (f (start + d)) \<noteq> []" by auto
  from pool_step_spec(4) [OF st(1) this st(2)] show ?case using Suc st(3) by simp
qed simp

lemma passed_over:
  assumes run: "\<And>k. k < start + 100 + n \<Longrightarrow> pool_step (f k) (c k) (f (k + 1))"
    and ok: "\<And>k. k \<le> start + 100 + n \<Longrightarrow> length (up_nodes (f k)) = n \<and> unat (up_next (f k)) = k \<and> (\<forall>j<n. last_chosen (f k) j \<le> k)"
    and i: "i < n" and not: "\<And>k. start \<le> k \<Longrightarrow> k < start + 100 + n \<Longrightarrow> c k \<noteq> i"
  shows "m \<le> n \<Longrightarrow> card {j. j < n \<and> last_chosen (f (start + 100 + m)) j \<le> last_chosen (f start) i} + m \<le> n"
proof (induction m)
  case 0
  have "card {j. j < n \<and> last_chosen (f (start + 100)) j \<le> last_chosen (f start) i} \<le> card {..<n}"
    by (rule card_mono) auto
  then show ?case by simp
next
  case (Suc m)
  let ?L = "last_chosen (f start) i" and ?k = "start + 100 + m"
  let ?S = "\<lambda>k. {j. j < n \<and> last_chosen (f k) j \<le> ?L}"
  have same: "last_chosen (f (start + d)) i = ?L" if "d \<le> 100 + m" for d
    by (rule unchosen [where D = "100 + m" and c = c, OF _ that]) (use run ok i not Suc.prems in simp_all)
  have st: "pool_step (f ?k) (c ?k) (f (?k + 1))" "length (up_nodes (f ?k)) = n" "unat (up_next (f ?k)) = ?k"
    using run [of ?k] ok [of ?k] Suc.prems by auto
  have L: "?L \<le> start" using ok [of start] i by simp
  have "last_chosen (f ?k) (c ?k) \<le> ?L"
    using due_chosen [OF st(1), of i] st i same [of "100 + m"] L by (simp add: add.assoc)
  moreover have ne: "up_nodes (f ?k) \<noteq> []" using st(2) i by auto
  then have "c ?k < n" using pool_step_spec(1) [OF st(1)] st(2) by simp
  ultimately have mem: "c ?k \<in> ?S ?k" by simp
  have "last_chosen (f (?k + 1)) j = (if j = c ?k then ?k else last_chosen (f ?k) j)" if "j < n" for j
    using pool_step_spec(4) [OF st(1) ne, of j] that st by auto
  then have "?S (?k + 1) = ?S ?k - {c ?k}" using L by (auto split: if_splits)
  then have "card (?S (?k + 1)) + 1 = card (?S ?k)" using mem by (simp add: card_Suc_Diff1 del: card_Diff_insert)
  then show ?case using Suc by (simp add: add.assoc)
qed


definition sample_node :: "u64 \<Rightarrow> UpstreamNode" where
  "sample_node rtt = \<lparr>un_transport = UdpTransport [], un_health = (health_new 8)\<lparr>he_ewma_rtt_us := rtt\<rparr>, un_stats = stats_new,
     un_last_selected = 0, un_addr_display = []\<rparr>"

definition sample_pool :: UpstreamPool where
  "sample_pool = \<lparr>up_nodes = [sample_node 1000, sample_node 9000000], up_next = 0, up_hedge_delay = None, up_active_hedges = 0,
     up_hedged_queries = 0\<rparr>"

definition silent_net :: pool_env where
  "silent_net = \<lparr>pe_result = \<lambda>_ _. (Inl (elapsed ''timeout''), 0), pe_in_time = \<lambda>_. True, pe_primary_first = True\<rparr>"

primrec sample_run :: "nat \<Rightarrow> UpstreamPool" where
  "sample_run 0 = sample_pool"
| "sample_run (Suc k) = fst (the (exchange_observed silent_net (sample_run k) [] 0))"


section \<open>Health\<close>

text \<open>The window of a node with a cap stays between one and the cap; without a cap it is unbounded.\<close>

definition health_ok :: "HealthStats \<Rightarrow> bool" where
  "health_ok h \<longleftrightarrow> (if he_max_inflight h = 0 then he_concurrency_window h = - 1
     else 1 \<le> unat (he_concurrency_window h) \<and> unat (he_concurrency_window h) \<le> unat (he_max_inflight h))"

lemma health_ok_new: "health_ok (health_new m)"
  by (simp add: health_ok_def health_new_def word_gt_0 Suc_le_eq unat_gt_0)

lemma health_ok_success:
  assumes "health_ok h"
  shows "health_ok (record_success rtt h)"
proof -
  have "unat (w + 1) = unat w + 1" if "w < m" for w m :: u64
    using that unat_bound [of m] by (simp add: word_less_nat_alt unat_word_ariths)
  then show ?thesis using assms by (auto simp: health_ok_def record_success_def Let_def word_less_nat_alt)
qed

lemma health_ok_failure:
  assumes "health_ok h"
  shows "health_ok (record_failure t h)"
proof -
  have "unat (max (w div 2) 1) = max (unat w div 2) 1" for w :: u64
    by (simp add: max_def word_le_nat_alt unat_div)
  then show ?thesis using assms by (auto simp: health_ok_def record_failure_def Let_def)
qed

lemma failure_backs_off:
  "FAILURE_RTT_FLOOR_US \<le> he_ewma_rtt_us (record_failure t h) \<and> he_ewma_rtt_us (record_failure t h) \<le> FAILURE_RTT_CAP_US"
  by (auto simp: record_failure_def Let_def FAILURE_RTT_FLOOR_US_def FAILURE_RTT_CAP_US_def min_def max_def word_le_nat_alt)

end
