(* ===== verification/Tcp_Mux.thy ===== *)
theory Tcp_Mux
  imports Upstream_Pool
begin

text \<open>
  \<open>src/upstream/tcp_mux.rs\<close> and the guards that \<open>src/upstream/mod.rs\<close> shares between transports: the
  life of a multiplexed connection, its generations, its backoff and its framing.
\<close>

section \<open>Guards\<close>

record RefreshGuard =
  rg_not_before_ms :: u64
  rg_in_progress :: bool

definition refresh_new :: RefreshGuard where
  "refresh_new = \<lparr>rg_not_before_ms = 0, rg_in_progress = False\<rparr>"

definition try_begin :: "u64 \<Rightarrow> u64 \<Rightarrow> RefreshGuard \<Rightarrow> RefreshGuard \<times> bool" where
  "try_begin now cooldown g =
     (if now < rg_not_before_ms g then (g, False)
      else if rg_in_progress g then (g, False)
      else (g\<lparr>rg_in_progress := True, rg_not_before_ms := now + cooldown\<rparr>, True))"

definition refresh_finish :: "RefreshGuard \<Rightarrow> RefreshGuard" where
  "refresh_finish g = g\<lparr>rg_in_progress := False\<rparr>"

text \<open>A slot for one connection; the lock is held over the whole of each operation.\<close>

definition get_or_connect :: "('c \<Rightarrow> bool) \<Rightarrow> 'c res \<Rightarrow> 'c option \<Rightarrow> 'c option \<times> 'c res" where
  "get_or_connect is_healthy connect slot =
     (case slot of
        Some c \<Rightarrow> if is_healthy c then (slot, Inr c) else (case connect of Inl e \<Rightarrow> (slot, Inl e) | Inr c \<Rightarrow> (Some c, Inr c))
      | None \<Rightarrow> (case connect of Inl e \<Rightarrow> (slot, Inl e) | Inr c \<Rightarrow> (Some c, Inr c)))"

definition evict_if_unhealthy :: "('c \<Rightarrow> bool) \<Rightarrow> 'c option \<Rightarrow> 'c option" where
  "evict_if_unhealthy is_healthy slot = (case slot of Some c \<Rightarrow> if is_healthy c then slot else None | None \<Rightarrow> None)"

section \<open>The connection\<close>

definition REFRESH_COOLDOWN_MS :: u64 where
  "REFRESH_COOLDOWN_MS = 30000"

text \<open>A connection is named by its generation; so are its sender and its teardown signal.\<close>

record TcpMux =
  tm_writer_tx :: "u64 option"
  tm_pending :: InflightRegistry
  tm_generation :: u64
  tm_reconnect_not_before_ms :: u64
  tm_reconnect_fail_count :: u32
  tm_current_torn_down :: "u64 option"
  tm_refresh_guard :: RefreshGuard

definition mux_new :: "nat \<Rightarrow> u32 \<Rightarrow> TcpMux" where
  "mux_new max_inflight seed = \<lparr>tm_writer_tx = None, tm_pending = registry_new max_inflight seed, tm_generation = 0,
     tm_reconnect_not_before_ms = 0, tm_reconnect_fail_count = 0, tm_current_torn_down = None, tm_refresh_guard = refresh_new\<rparr>"

definition backoff_ms :: "u32 \<Rightarrow> u64" where
  "backoff_ms failures = min (push_bit (unat (min failures 7)) 50) 5000"

text \<open>\<open>now\<close> is the clock before and \<open>then_ms\<close> the clock after an attempt to connect.\<close>

definition ensure_connection :: "u64 \<Rightarrow> u64 \<Rightarrow> unit res \<Rightarrow> TcpMux \<Rightarrow> TcpMux \<times> u64 res" where
  "ensure_connection now then_ms connected mux =
     (case tm_writer_tx mux of
        Some tx \<Rightarrow> (mux, Inr tx)
      | None \<Rightarrow>
          if now < tm_reconnect_not_before_ms mux then (mux, Inl ''tcp reconnect backoff'')
          else
            (case connected of
               Inr _ \<Rightarrow>
                 (let my_gen = tm_generation mux + 1
                  in (mux\<lparr>tm_reconnect_fail_count := 0, tm_reconnect_not_before_ms := 0, tm_generation := my_gen,
                          tm_writer_tx := Some my_gen, tm_current_torn_down := Some my_gen\<rparr>, Inr my_gen))
             | Inl e \<Rightarrow>
                 (let failures = tm_reconnect_fail_count mux + 1
                  in (mux\<lparr>tm_reconnect_fail_count := failures, tm_reconnect_not_before_ms := then_ms + backoff_ms failures\<rparr>, Inl e))))"

text \<open>Effects: waiters woken with a closed channel, and the generations whose tasks are told to stop.\<close>

type_synonym mux_effect = "TcpMux \<times> (chan \<times> bytes signal) list \<times> u64 list"

definition clear_pending :: "TcpMux \<Rightarrow> TcpMux \<times> (chan \<times> bytes signal) list" where
  "clear_pending mux = (let (reg, sigs) = clear (tm_pending mux) in (mux\<lparr>tm_pending := reg\<rparr>, sigs))"

definition disconnect :: "u64 \<Rightarrow> TcpMux \<Rightarrow> mux_effect" where
  "disconnect my_gen mux =
     (if tm_generation mux \<noteq> my_gen then (mux, [], [])
      else let (mux, sigs) = clear_pending (mux\<lparr>tm_writer_tx := None\<rparr>) in (mux, sigs, [my_gen]))"

text \<open>
  The task that \<open>force_reconnect\<close> spawns, in its four steps: the sender is dropped under its lock, the
  waiters are cleared, the teardown signal is taken and sent, the guard is released. Other
  tasks may run between them.
\<close>

definition force_drop_writer :: "TcpMux \<Rightarrow> TcpMux" where
  "force_drop_writer mux = mux\<lparr>tm_writer_tx := None\<rparr>"

definition force_notify :: "TcpMux \<Rightarrow> TcpMux \<times> u64 list" where
  "force_notify mux = (mux\<lparr>tm_current_torn_down := None\<rparr>, case tm_current_torn_down mux of None \<Rightarrow> [] | Some g \<Rightarrow> [g])"

definition force_finish :: "TcpMux \<Rightarrow> TcpMux" where
  "force_finish mux = mux\<lparr>tm_refresh_guard := refresh_finish (tm_refresh_guard mux)\<rparr>"

definition force_reconnect :: "u64 \<Rightarrow> TcpMux \<Rightarrow> mux_effect" where
  "force_reconnect now mux =
     (let (g, ok) = try_begin now REFRESH_COOLDOWN_MS (tm_refresh_guard mux); mux = mux\<lparr>tm_refresh_guard := g\<rparr>
      in if \<not> ok then (mux, [], [])
         else let (mux, sigs) = clear_pending (force_drop_writer mux); (mux, gone) = force_notify mux
              in (force_finish mux, sigs, gone))"

section \<open>Framing\<close>

definition MAX_WRITE_BATCH_BYTES :: nat where
  "MAX_WRITE_BATCH_BYTES = 64 * 1024"

definition push_framed :: "bytes \<Rightarrow> bytes \<Rightarrow> bytes" where
  "push_framed buf pkt = buf @ to_be 2 (of_nat (length pkt) :: u16) @ pkt"

text \<open>The frames ready in the queue that one write coalesces, and the frames left.\<close>

fun fill_batch :: "bytes \<Rightarrow> bytes list \<Rightarrow> bytes \<times> bytes list" where
  "fill_batch batch [] = (batch, [])"
| "fill_batch batch (pkt # queue) =
     (if length batch < MAX_WRITE_BATCH_BYTES then fill_batch (push_framed batch pkt) queue else (batch, pkt # queue))"

lemma fill_batch_length: "(b, q) = fill_batch batch queue \<Longrightarrow> length q \<le> length queue"
  by (induction batch queue rule: fill_batch.induct) (auto split: if_splits)

function mux_write_all :: "bytes list \<Rightarrow> bytes list" where
  "mux_write_all [] = []"
| "mux_write_all (first # queue) = (let (batch, queue) = fill_batch (push_framed [] first) queue in batch # mux_write_all queue)"
  by pat_completeness auto

termination
  by (relation "measure length") (auto dest: fill_batch_length)

datatype read_outcome = ReadFrame bytes bytes | ReadDisconnect

definition mux_read_frame :: "nat \<Rightarrow> bytes \<Rightarrow> read_outcome" where
  "mux_read_frame max_response_bytes stream =
     (if length stream < 2 then ReadDisconnect
      else let resp_len = unat (u16_of stream 0)
           in if resp_len < 12 \<or> (0 < max_response_bytes \<and> max_response_bytes < resp_len) then ReadDisconnect
              else if length stream < 2 + resp_len then ReadDisconnect
              else ReadFrame (take resp_len (drop 2 stream)) (drop (2 + resp_len) stream))"

text \<open>All frames that a reader takes from a stream before it disconnects.\<close>

function mux_read_all :: "nat \<Rightarrow> bytes \<Rightarrow> bytes list" where
  "mux_read_all m stream = (case mux_read_frame m stream of ReadDisconnect \<Rightarrow> [] | ReadFrame pkt rest \<Rightarrow> pkt # mux_read_all m rest)"
  by pat_completeness auto
termination
  by (relation "measure (\<lambda>(m, s). length s)") (auto simp: mux_read_frame_def Let_def split: if_splits)

declare mux_read_all.simps [simp del]

section \<open>Frames survive batching\<close>

abbreviation framed :: "bytes \<Rightarrow> bytes" where
  "framed pkt \<equiv> push_framed [] pkt"

lemma fill_batch_content: "fill_batch batch queue = (b, q) \<Longrightarrow> b @ concat (map framed q) = batch @ concat (map framed queue)"
  by (induction batch queue rule: fill_batch.induct) (auto simp: push_framed_def split: if_splits)

lemma mux_write_all_content: "concat (mux_write_all queue) = concat (map framed queue)"
proof (induction queue rule: mux_write_all.induct)
  case (2 first queue)
  obtain b q where f: "fill_batch (framed first) queue = (b, q)" by (cases "fill_batch (framed first) queue")
  then have "concat (mux_write_all q) = concat (map framed q)" using "2.IH" by simp
  then show ?case using fill_batch_content [OF f] f by simp
qed simp

lemma read_framed:
  assumes "12 \<le> length pkt" "length pkt < 65536" "m = 0 \<or> length pkt \<le> m"
  shows "mux_read_frame m (framed pkt @ rest) = ReadFrame pkt rest"
proof -
  define w where "w = (of_nat (length pkt) :: u16)"
  have "u16_of (framed pkt @ rest) 0 = w" by (simp add: push_framed_def to_be_2 u16_of_def w_def [symmetric])
  then have "unat (u16_of (framed pkt @ rest) 0) = length pkt" using assms(2) by (simp add: w_def unat_of_nat)
  moreover have "length (framed pkt) = 2 + length pkt" "drop 2 (framed pkt) = pkt" by (simp_all add: push_framed_def)
  ultimately show ?thesis using assms(1,3) by (auto simp: mux_read_frame_def Let_def)
qed

text \<open>
  (C16) What the writer of a multiplexed connection sends, in whatever batches, the reader at the
  other end takes apart into the same messages in the same order, for messages a DNS header
  and a length prefix can hold and within the limit on responses.
\<close>

theorem mux_frames_round_trip:
  assumes "\<forall>pkt\<in>set queue. 12 \<le> length pkt \<and> length pkt < 65536 \<and> (m = 0 \<or> length pkt \<le> m)"
  shows "mux_read_all m (concat (mux_write_all queue)) = queue"
  unfolding mux_write_all_content using assms
proof (induction queue)
  case Nil
  show ?case by (simp add: mux_read_all.simps [of m "[]"] mux_read_frame_def)
next
  case (Cons pkt queue)
  then show ?case
    by (simp add: mux_read_all.simps [of m "framed pkt @ concat (map framed queue)"] read_framed)
qed

theorem mux_frames_round_trip_witness:
  "mux_read_all 4096 (concat (mux_write_all [replicate 12 7, replicate 300 1])) = [replicate 12 7, replicate 300 1]"
  using mux_frames_round_trip [of "[replicate 12 7, replicate 300 1]" 4096] by simp

section \<open>Backoff and generations\<close>

lemma shifted_backoff: "0 < n \<Longrightarrow> n \<le> 7 \<Longrightarrow> 100 \<le> push_bit n (50 :: u64)"
proof -
  assume "0 < n" "n \<le> 7"
  then have "n \<in> set [1..<8]" by simp
  then have "n \<in> {1, 2, 3, 4, 5, 6, 7}" by (simp add: upt_rec eval_nat_numeral)
  then show ?thesis by (elim insertE) (simp_all add: push_bit_eq_mult)
qed

lemma backoff_bounds: "0 < failures \<Longrightarrow> 100 \<le> backoff_ms failures \<and> backoff_ms failures \<le> 5000"
proof -
  assume "0 < failures"
  moreover have "unat (min failures 7) = min (unat failures) 7" by (simp add: min_def word_le_nat_alt)
  ultimately have "0 < unat (min failures 7)" "unat (min failures 7) \<le> 7" by (simp_all add: word_less_nat_alt)
  then have "100 \<le> push_bit (unat (min failures 7)) (50 :: u64)" by (rule shifted_backoff)
  then show ?thesis by (simp add: backoff_ms_def)
qed

text \<open>A task of an older connection cannot tear down a newer one.\<close>

lemma stale_disconnect: "tm_generation mux \<noteq> my_gen \<Longrightarrow> disconnect my_gen mux = (mux, [], [])"
  by (simp add: disconnect_def)

text \<open>
  The forced reconnect has no such check. If a query reconnects between its first and its
  second step, the queries of the new connection are dropped and the teardown signal that
  it takes and sends is that of the new connection.
\<close>

lemma forced_reconnect_hits_new_connection:
  assumes "ensure_connection now then_ms (Inr ()) (force_drop_writer mux) = (mux1, Inr g)"
    and "tm_reconnect_not_before_ms mux \<le> now" and "clear_pending (mux1\<lparr>tm_pending := reg\<rparr>) = (mux2, sigs)"
  shows "g = tm_generation mux + 1" "tm_writer_tx mux2 = Some g" "snd (force_notify mux2) = [g]"
    "tm_pending mux2 = fst (clear reg)" "sigs = snd (clear reg)"
  using assms by (auto simp: ensure_connection_def force_drop_writer_def clear_pending_def force_notify_def Let_def not_less
      split: if_splits prod.splits)

text \<open>At most one refresh runs at a time, and the next begins only after the cooldown.\<close>

lemma try_begin_once:
  assumes "try_begin now cooldown g = (g', True)"
  shows "try_begin t cooldown' g' = (g', False)" "t < now + cooldown \<Longrightarrow> snd (try_begin t cooldown' (refresh_finish g')) = False"
  using assms by (auto simp: try_begin_def refresh_finish_def split: if_splits)

end
