(* ===== verification/Netlink.thy ===== *)
theory Netlink
  imports Iprange
begin

text \<open>
  \<open>src/ipset/codec.rs\<close> and the receive loop of \<open>src/ipset/socket.rs\<close>: netfilter requests in the wire
  format of netlink, and the attributes of a reply. Integers in the byte order of the machine
  take that order as an argument. The builder writes below the header of 20 bytes that
  \<open>nl_new\<close> lays out, or at the start of an attribute it has just appended, so its slice
  accesses are written with \<open>put\<close> and \<open>put_store\<close> says that they are in range.
\<close>

unbundle bit_operations_syntax

section \<open>Byte order\<close>

datatype endian = Little | Big

definition ne_bytes :: "endian \<Rightarrow> nat \<Rightarrow> 'w::len word \<Rightarrow> bytes" where
  "ne_bytes e n w = (case e of Little \<Rightarrow> to_le n w | Big \<Rightarrow> to_be n w)"

definition of_ne :: "endian \<Rightarrow> bytes \<Rightarrow> 'w::len word" where
  "of_ne e b = (case e of Little \<Rightarrow> of_le b | Big \<Rightarrow> of_be b)"

section \<open>Constants\<close>

definition NFNL_SUBSYS_IPSET :: u16 where "NFNL_SUBSYS_IPSET = 6"
definition IPSET_CMD_ADD :: u16 where "IPSET_CMD_ADD = 9"
definition IPSET_PROTOCOL :: u8 where "IPSET_PROTOCOL = 6"
definition NFNL_SUBSYS_NFTABLES :: u16 where "NFNL_SUBSYS_NFTABLES = 10"
definition NFT_MSG_NEWSET :: u16 where "NFT_MSG_NEWSET = 9"
definition NFT_MSG_GETSET :: u16 where "NFT_MSG_GETSET = 10"
definition NFT_MSG_NEWSETELEM :: u16 where "NFT_MSG_NEWSETELEM = 12"
definition NFNL_MSG_BATCH_BEGIN :: u16 where "NFNL_MSG_BATCH_BEGIN = 16"
definition NFNL_MSG_BATCH_END :: u16 where "NFNL_MSG_BATCH_END = 17"
definition NFNETLINK_V0 :: u8 where "NFNETLINK_V0 = 0"
definition NLM_F_REQUEST :: u16 where "NLM_F_REQUEST = 0x01"
definition NLM_F_CREATE :: u16 where "NLM_F_CREATE = 0x400"
definition NLM_F_EXCL :: u16 where "NLM_F_EXCL = 0x200"
definition NLMSG_ERROR :: u16 where "NLMSG_ERROR = 0x2"
definition NLA_F_NESTED :: u16 where "NLA_F_NESTED = push_bit 15 1"
definition NLA_F_NET_BYTEORDER :: u16 where "NLA_F_NET_BYTEORDER = push_bit 14 1"
definition NLA_TYPE_MASK :: u16 where "NLA_TYPE_MASK = NOT (NLA_F_NESTED OR NLA_F_NET_BYTEORDER)"
definition IPSET_ATTR_PROTOCOL :: u16 where "IPSET_ATTR_PROTOCOL = 1"
definition IPSET_ATTR_SETNAME :: u16 where "IPSET_ATTR_SETNAME = 2"
definition IPSET_ATTR_LINENO :: u16 where "IPSET_ATTR_LINENO = 9"
definition IPSET_ATTR_ADT :: u16 where "IPSET_ATTR_ADT = 8"
definition IPSET_ATTR_DATA :: u16 where "IPSET_ATTR_DATA = 7"
definition IPSET_ATTR_IP :: u16 where "IPSET_ATTR_IP = 1"
definition IPSET_ATTR_IPADDR_IPV4 :: u16 where "IPSET_ATTR_IPADDR_IPV4 = 1"
definition IPSET_ATTR_IPADDR_IPV6 :: u16 where "IPSET_ATTR_IPADDR_IPV6 = 2"
definition IPSET_ATTR_CIDR :: u16 where "IPSET_ATTR_CIDR = 3"
definition NFTA_SET_ELEM_LIST_TABLE :: u16 where "NFTA_SET_ELEM_LIST_TABLE = 1"
definition NFTA_SET_ELEM_LIST_SET :: u16 where "NFTA_SET_ELEM_LIST_SET = 2"
definition NFTA_SET_ELEM_LIST_ELEMENTS :: u16 where "NFTA_SET_ELEM_LIST_ELEMENTS = 3"
definition NFTA_LIST_ELEM :: u16 where "NFTA_LIST_ELEM = 1"
definition NFTA_SET_ELEM_KEY :: u16 where "NFTA_SET_ELEM_KEY = 1"
definition NFTA_SET_ELEM_FLAGS :: u16 where "NFTA_SET_ELEM_FLAGS = 3"
definition NFTA_DATA_VALUE :: u16 where "NFTA_DATA_VALUE = 1"
definition NFT_SET_ELEM_INTERVAL_END :: u32 where "NFT_SET_ELEM_INTERVAL_END = 1"
definition NFTA_SET_TABLE :: u16 where "NFTA_SET_TABLE = 1"
definition NFTA_SET_NAME :: u16 where "NFTA_SET_NAME = 2"
definition NFTA_SET_FLAGS :: u16 where "NFTA_SET_FLAGS = 3"
definition NFT_SET_INTERVAL :: u32 where "NFT_SET_INTERVAL = 0x4"

datatype NftFamily = Inet | Ip | Ip6 | Arp | Bridge | Netdev

fun nft_family_code :: "NftFamily \<Rightarrow> u8" where
  "nft_family_code Inet = 1"
| "nft_family_code Ip = 2"
| "nft_family_code Ip6 = 10"
| "nft_family_code Arp = 3"
| "nft_family_code Bridge = 7"
| "nft_family_code Netdev = 5"

text \<open>\<open>AF_INET\<close> and \<open>AF_INET6\<close> of Linux.\<close>

fun ip_family :: "IpAddr \<Rightarrow> u8" where
  "ip_family (V4 _) = 2"
| "ip_family (V6 _) = 10"

definition ipset_msg_type :: "u16 \<Rightarrow> u16" where
  "ipset_msg_type cmd = push_bit 8 NFNL_SUBSYS_IPSET OR cmd"

definition nft_msg_type :: "u16 \<Rightarrow> u16" where
  "nft_msg_type cmd = push_bit 8 NFNL_SUBSYS_NFTABLES OR cmd"

section \<open>Addresses\<close>

fun apply_mask :: "IpAddr \<Rightarrow> u8 \<Rightarrow> IpAddr" where
  "apply_mask (V4 bits) prefix =
     V4 (bits AND (if prefix = 0 then 0 else if 32 \<le> prefix then - 1 else push_bit (32 - unat prefix) (- 1)))"
| "apply_mask (V6 bits) prefix =
     V6 (bits AND (if prefix = 0 then 0 else if 128 \<le> prefix then - 1 else push_bit (128 - unat prefix) (- 1)))"

text \<open>
  A shift by the width of the type panics in a build with overflow checks and shifts by zero
  in a release build. The argument \<open>checked\<close> tells the two apart.
\<close>

definition shl :: "bool \<Rightarrow> 'w::len word \<Rightarrow> nat \<Rightarrow> 'w word run" where
  "shl checked w n =
     (if n < LENGTH('w) then Some (push_bit n w)
      else if checked then None else Some (push_bit (n mod LENGTH('w)) w))"

fun prefix_end :: "bool \<Rightarrow> IpAddr \<Rightarrow> u8 \<Rightarrow> IpAddr run" where
  "prefix_end checked (V4 bits) prefix = do {
     size \<leftarrow> (if 32 \<le> prefix then Some 1 else shl checked 1 (32 - unat prefix));
     Some (V4 (bits + size)) }"
| "prefix_end checked (V6 bits) prefix = do {
     size \<leftarrow> (if 128 \<le> prefix then Some 1 else shl checked 1 (128 - unat prefix));
     Some (V6 (bits + size)) }"

fun ip_next :: "IpAddr \<Rightarrow> IpAddr" where
  "ip_next (V4 ip) = V4 (ip + 1)"
| "ip_next (V6 ip) = V6 (ip + 1)"

fun octets :: "IpAddr \<Rightarrow> bytes" where
  "octets (V4 ip) = to_be 4 ip"
| "octets (V6 ip) = to_be 16 ip"

section \<open>The builder\<close>

definition put :: "bytes \<Rightarrow> nat \<Rightarrow> bytes \<Rightarrow> bytes" where
  "put buf i src = take i buf @ src @ drop (i + length src) buf"

definition finish_len :: "endian \<Rightarrow> bytes \<Rightarrow> bytes" where
  "finish_len e buf = put buf 0 (ne_bytes e 4 (of_nat (length buf) :: u32))"

definition pad_to_4 :: "bytes \<Rightarrow> bytes" where
  "pad_to_4 buf = buf @ replicate ((4 - length buf mod 4) mod 4) 0"

definition nl_new :: "endian \<Rightarrow> u16 \<Rightarrow> u16 \<Rightarrow> u8 \<Rightarrow> u16 \<Rightarrow> bytes" where
  "nl_new e msg_type flags family res_id =
     (let buf = replicate 20 0;
          buf = put buf 4 (ne_bytes e 2 msg_type);
          buf = put buf 6 (ne_bytes e 2 flags);
          buf = put buf 16 [family];
          buf = put buf 17 [NFNETLINK_V0];
          buf = put buf 18 (to_be 2 res_id)
      in finish_len e buf)"

definition nl_batch :: "endian \<Rightarrow> u16 \<Rightarrow> bytes" where
  "nl_batch e msg_type = nl_new e msg_type NLM_F_REQUEST 0 NFNL_SUBSYS_NFTABLES"

definition set_seq :: "endian \<Rightarrow> u32 \<Rightarrow> bytes \<Rightarrow> bytes" where
  "set_seq e seq buf = put buf 8 (ne_bytes e 4 seq)"

definition nl_attr :: "endian \<Rightarrow> u16 \<Rightarrow> bytes \<Rightarrow> bytes \<Rightarrow> bytes" where
  "nl_attr e kind data buf =
     finish_len e (pad_to_4 (buf @ ne_bytes e 2 (of_nat (4 + length data) :: u16) @ ne_bytes e 2 kind @ data))"

definition attr_ip :: "endian \<Rightarrow> u16 \<Rightarrow> IpAddr \<Rightarrow> bytes \<Rightarrow> bytes" where
  "attr_ip e kind ip buf = nl_attr e kind (octets ip) buf"

definition attr_nul :: "endian \<Rightarrow> u16 \<Rightarrow> bytes \<Rightarrow> bytes \<Rightarrow> bytes" where
  "attr_nul e kind v buf =
     finish_len e (pad_to_4 (buf @ ne_bytes e 2 (of_nat (4 + length v + 1) :: u16) @ ne_bytes e 2 kind @ v @ [0]))"

text \<open>The length of a nested attribute is stored modulo \<open>2 ^ 16\<close>; a debug build asserts that it fits.\<close>

definition nest :: "endian \<Rightarrow> u16 \<Rightarrow> (bytes \<Rightarrow> bytes) \<Rightarrow> bytes \<Rightarrow> bytes" where
  "nest e kind f buf =
     (let start = length buf;
          buf = f (buf @ ne_bytes e 2 (0 :: u16) @ ne_bytes e 2 (kind OR NLA_F_NESTED));
          raw_len = length buf - start;
          buf = put buf start (ne_bytes e 2 (of_nat raw_len :: u16))
      in finish_len e (pad_to_4 buf))"

section \<open>Requests\<close>

definition ipset_elem :: "endian \<Rightarrow> IpAddr \<Rightarrow> u8 option \<Rightarrow> bytes \<Rightarrow> bytes" where
  "ipset_elem e ip pmask =
     nest e IPSET_ATTR_DATA (\<lambda>msg.
       let msg = nest e IPSET_ATTR_IP
             (attr_ip e ((case ip of V4 _ \<Rightarrow> IPSET_ATTR_IPADDR_IPV4 | V6 _ \<Rightarrow> IPSET_ATTR_IPADDR_IPV6) OR NLA_F_NET_BYTEORDER) ip) msg
       in case pmask of Some cidr \<Rightarrow> nl_attr e IPSET_ATTR_CIDR [cidr] msg | None \<Rightarrow> msg)"

definition nft_interval_elem :: "endian \<Rightarrow> IpAddr \<Rightarrow> bool \<Rightarrow> bytes \<Rightarrow> bytes" where
  "nft_interval_elem e ip is_end =
     nest e NFTA_LIST_ELEM (\<lambda>msg.
       let msg = (if is_end then nl_attr e NFTA_SET_ELEM_FLAGS (to_be 4 NFT_SET_ELEM_INTERVAL_END) msg else msg)
       in nest e NFTA_SET_ELEM_KEY (attr_ip e (NFTA_DATA_VALUE OR NLA_F_NET_BYTEORDER) ip) msg)"

definition encode_ipset_add_batch :: "endian \<Rightarrow> bytes \<Rightarrow> IpAddr list \<Rightarrow> u8 option \<Rightarrow> u32 \<Rightarrow> bytes" where
  "encode_ipset_add_batch e name ips pmask seq =
     (case ips of
        [] \<Rightarrow> []
      | first # _ \<Rightarrow>
          (let msg = nl_new e (ipset_msg_type IPSET_CMD_ADD) NLM_F_REQUEST (ip_family first) 0;
               msg = set_seq e seq msg;
               msg = nl_attr e IPSET_ATTR_PROTOCOL [IPSET_PROTOCOL] msg;
               msg = attr_nul e IPSET_ATTR_SETNAME name msg;
               msg = nl_attr e IPSET_ATTR_LINENO (ne_bytes e 4 (0 :: u32)) msg
           in nest e IPSET_ATTR_ADT
                (fold (\<lambda>ip. ipset_elem e (case pmask of Some m \<Rightarrow> apply_mask ip m | None \<Rightarrow> ip) pmask) ips) msg))"

text \<open>The endpoints that are written for one address, each with its end flag.\<close>

definition nft_endpoints :: "bool \<Rightarrow> u8 option \<Rightarrow> bool \<Rightarrow> IpAddr \<Rightarrow> (IpAddr \<times> bool) list run" where
  "nft_endpoints checked pmask interval ip =
     (case pmask of
        Some prefix \<Rightarrow>
          (let net = apply_mask ip prefix
           in if interval then do { e \<leftarrow> prefix_end checked net prefix; Some [(net, False), (e, True)] }
              else Some [(net, False)])
      | None \<Rightarrow> Some (if interval then [(ip, False), (ip_next ip, True)] else [(ip, False)]))"

fun all_endpoints :: "bool \<Rightarrow> u8 option \<Rightarrow> bool \<Rightarrow> IpAddr list \<Rightarrow> (IpAddr \<times> bool) list run" where
  "all_endpoints checked pmask interval [] = Some []"
| "all_endpoints checked pmask interval (ip # ips) = do {
     es \<leftarrow> nft_endpoints checked pmask interval ip;
     rest \<leftarrow> all_endpoints checked pmask interval ips;
     Some (es @ rest) }"

definition encode_nftset_add :: "endian \<Rightarrow> bool \<Rightarrow> NftFamily \<Rightarrow> bytes \<Rightarrow> bytes \<Rightarrow> IpAddr list \<Rightarrow> u8 option \<Rightarrow> bool \<Rightarrow> u32 \<Rightarrow> bytes run" where
  "encode_nftset_add e checked family table nft ips pmask interval seq = do {
     endpoints \<leftarrow> all_endpoints checked pmask interval ips;
     let start = set_seq e seq (nl_batch e NFNL_MSG_BATCH_BEGIN);
     let msg = nl_new e (nft_msg_type NFT_MSG_NEWSETELEM) (NLM_F_REQUEST OR NLM_F_CREATE OR NLM_F_EXCL) (nft_family_code family) 0;
     let msg = set_seq e seq msg;
     let msg = attr_nul e NFTA_SET_ELEM_LIST_TABLE table msg;
     let msg = attr_nul e NFTA_SET_ELEM_LIST_SET nft msg;
     let msg = nest e NFTA_SET_ELEM_LIST_ELEMENTS (fold (\<lambda>(ip, is_end). nft_interval_elem e ip is_end) endpoints) msg;
     let stop = set_seq e seq (nl_batch e NFNL_MSG_BATCH_END);
     Some (start @ msg @ stop) }"

definition encode_nftset_getmeta :: "endian \<Rightarrow> NftFamily \<Rightarrow> bytes \<Rightarrow> bytes \<Rightarrow> u32 \<Rightarrow> bytes" where
  "encode_nftset_getmeta e family table nft seq =
     (let msg = nl_new e (nft_msg_type NFT_MSG_GETSET) NLM_F_REQUEST (nft_family_code family) 0;
          msg = set_seq e seq msg;
          msg = attr_nul e NFTA_SET_TABLE table msg
      in attr_nul e NFTA_SET_NAME nft msg)"

datatype NetfilterRequest =
    IpsetAddBatch bytes "IpAddr list" "u8 option"
  | NftSetAdd NftFamily bytes bytes "IpAddr list" "u8 option" bool
  | NftSetGetMeta NftFamily bytes bytes

fun encode :: "endian \<Rightarrow> bool \<Rightarrow> NetfilterRequest \<Rightarrow> u32 \<Rightarrow> bytes run" where
  "encode e checked (IpsetAddBatch name ips pmask) seq = Some (encode_ipset_add_batch e name ips pmask seq)"
| "encode e checked (NftSetAdd family table nft ips pmask interval) seq =
     encode_nftset_add e checked family table nft ips pmask interval seq"
| "encode e checked (NftSetGetMeta family table nft) seq = Some (encode_nftset_getmeta e family table nft seq)"

section \<open>Replies\<close>

function nla_iter :: "endian \<Rightarrow> bytes \<Rightarrow> nat \<Rightarrow> (u16 \<times> bytes) list" where
  "nla_iter e data pos =
     (if length data < pos + 4 then []
      else let nla_len = unat (of_ne e (take 2 (drop pos data)) :: u16)
           in if nla_len < 4 \<or> length data < pos + nla_len then []
              else (of_ne e (take 2 (drop (pos + 2) data)) AND NLA_TYPE_MASK, take (nla_len - 4) (drop (pos + 4) data)) #
                   nla_iter e data ((pos + nla_len + 3) div 4 * 4))"
  by pat_completeness auto
termination
  by (relation "measure (\<lambda>(e, data, pos). length data - pos)") auto

declare nla_iter.simps [simp del]

definition nlmsg_errno :: "endian \<Rightarrow> u16 \<Rightarrow> bytes \<Rightarrow> u32 option" where
  "nlmsg_errno e msg_type data =
     (if msg_type \<noteq> NLMSG_ERROR \<or> length data < 20 then None else Some (of_ne e (take 4 (drop 16 data))))"

fun find_flags :: "(u16 \<times> bytes) list \<Rightarrow> u32" where
  "find_flags [] = 0"
| "find_flags ((attr_type, v) # attrs) =
     (if attr_type = NFTA_SET_FLAGS \<and> 4 \<le> length v then be32 (v ! 0) (v ! 1) (v ! 2) (v ! 3) else find_flags attrs)"

definition decode_nft_set_flags :: "endian \<Rightarrow> u16 \<Rightarrow> bytes \<Rightarrow> u32 res" where
  "decode_nft_set_flags e msg_type data =
     (if msg_type \<noteq> nft_msg_type NFT_MSG_NEWSET then
        (case nlmsg_errno e msg_type data of
           Some _ \<Rightarrow> Inl ''netlink GETSET error''
         | None \<Rightarrow> Inl ''unexpected msg type in GETSET response'')
      else if length data < 20 then Inl ''truncated NEWSET response''
      else Inr (find_flags (nla_iter e (drop 20 data) 0)))"

record RecvMsg =
  rm_msg_type :: u16
  rm_data :: bytes

text \<open>One datagram of the receive loop: the message with the sequence number, if it holds one.\<close>

function scan_datagram :: "endian \<Rightarrow> u32 \<Rightarrow> bytes \<Rightarrow> nat \<Rightarrow> RecvMsg option res" where
  "scan_datagram e seq buf pos =
     (if length buf < pos + 16 then Inr None
      else let msg_len = unat (of_ne e (take 4 (drop pos buf)) :: u32)
           in if msg_len < 16 then Inr None
              else if length buf < pos + msg_len then Inl ''truncated netlink message''
              else if of_ne e (take 4 (drop (pos + 8) buf)) = seq
              then Inr (Some \<lparr>rm_msg_type = of_ne e (take 2 (drop (pos + 4) buf)), rm_data = take msg_len (drop pos buf)\<rparr>)
              else scan_datagram e seq buf (pos + (msg_len + 3) div 4 * 4))"
  by pat_completeness auto
termination
  by (relation "measure (\<lambda>(e, seq, buf, pos). length buf - pos)") auto

declare scan_datagram.simps [simp del]

text \<open>The results of \<open>recv\<close> until the matching message, an error or the timeout of the socket.\<close>

fun recv_for_seq :: "endian \<Rightarrow> u32 \<Rightarrow> bytes res list \<Rightarrow> RecvMsg res option" where
  "recv_for_seq e seq [] = None"
| "recv_for_seq e seq (Inl err # _) = Some (Inl err)"
| "recv_for_seq e seq (Inr buf # rest) =
     (case scan_datagram e seq buf 0 of
        Inl err \<Rightarrow> Some (Inl err)
      | Inr (Some msg) \<Rightarrow> Some (Inr msg)
      | Inr None \<Rightarrow> recv_for_seq e seq rest)"

section \<open>What the builder appends\<close>

lemma length_ne_bytes [simp]: "length (ne_bytes e n w) = n"
  by (cases e) (simp_all add: ne_bytes_def)

lemma of_ne_bytes: "LENGTH('w) \<le> 8 * n \<Longrightarrow> of_ne e (ne_bytes e n w) = (w :: 'w::len word)"
  by (cases e) (simp_all add: of_ne_def ne_bytes_def wire_simps)

lemma put_store: "i + length src \<le> length buf \<Longrightarrow> store_slice buf i (i + length src) src = Some (put buf i src)"
  by (simp add: put_def store_slice_def)

lemma length_put [simp]: "i + length src \<le> length buf \<Longrightarrow> length (put buf i src) = length buf"
  by (simp add: put_def)

lemma finish_len_cong: "length a = length b \<Longrightarrow> drop 4 a = drop 4 b \<Longrightarrow> finish_len e a = finish_len e b"
  by (simp add: finish_len_def put_def)

lemma length_finish_len: "4 \<le> length buf \<Longrightarrow> length (finish_len e buf) = length buf"
  by (simp add: finish_len_def)

lemma drop_finish_len: "4 \<le> length buf \<Longrightarrow> drop 4 (finish_len e buf) = drop 4 buf"
  by (simp add: finish_len_def put_def)

lemma finish_len_append: "4 \<le> length buf \<Longrightarrow> finish_len e (finish_len e buf @ xs) = finish_len e (buf @ xs)"
  by (rule finish_len_cong) (simp_all add: length_finish_len drop_finish_len)

lemma finish_len_idem [simp]: "4 \<le> length buf \<Longrightarrow> finish_len e (finish_len e buf) = finish_len e buf"
  using finish_len_append [of buf e "[]"] by simp

lemma pad_aligned: "4 dvd length buf \<Longrightarrow> pad_to_4 buf = buf"
  by (auto simp: pad_to_4_def)

text \<open>One attribute on the wire.\<close>

definition attribute :: "endian \<Rightarrow> u16 \<Rightarrow> bytes \<Rightarrow> bytes" where
  "attribute e kind data = ne_bytes e 2 (of_nat (4 + length data) :: u16) @ ne_bytes e 2 kind @ pad_to_4 data"

lemma pad_append: "4 dvd length a \<Longrightarrow> pad_to_4 (a @ b) = a @ pad_to_4 b"
  by (auto simp: pad_to_4_def dvd_def)

lemma pad_cases:
  obtains q r where "length a = 4 * q + r" "r = 0 \<or> r = 1 \<or> r = 2 \<or> r = 3"
proof (rule that)
  show "length a = 4 * (length a div 4) + length a mod 4" by simp
  have "length a mod 4 < 4" by simp
  then show "length a mod 4 = 0 \<or> length a mod 4 = 1 \<or> length a mod 4 = 2 \<or> length a mod 4 = 3" by linarith
qed

lemma length_pad_to_4: "length (pad_to_4 a) = (length a + 3) div 4 * 4"
proof -
  obtain q r where "length a = 4 * q + r" "r = 0 \<or> r = 1 \<or> r = 2 \<or> r = 3" by (rule pad_cases)
  then show ?thesis by (elim disjE) (simp_all add: pad_to_4_def del: add_2_eq_Suc add_2_eq_Suc')
qed

lemma aligned_pad: "4 dvd length (pad_to_4 a)"
  by (simp add: length_pad_to_4)

lemma aligned_attribute [simp]: "4 dvd length (attribute e kind data)"
proof -
  have "length (attribute e kind data) = 4 + length (pad_to_4 data)" by (simp add: attribute_def)
  then show ?thesis using aligned_pad [of data] by simp
qed

lemma pad_header: "length a = 2 \<Longrightarrow> length b = 2 \<Longrightarrow> pad_to_4 (a @ b @ c) = a @ b @ pad_to_4 c"
  using pad_append [of "a @ b" c] by simp

definition appends :: "endian \<Rightarrow> (bytes \<Rightarrow> bytes) \<Rightarrow> bytes \<Rightarrow> bool" where
  "appends e f xs \<longleftrightarrow>
     4 dvd length xs \<and> (\<forall>buf. 20 \<le> length buf \<and> 4 dvd length buf \<longrightarrow> finish_len e (f buf) = finish_len e (buf @ xs))"

lemma appendsD:
  assumes "appends e f xs" "20 \<le> length buf" "4 dvd length buf"
  shows "finish_len e (f buf) = finish_len e (buf @ xs)" "length (f buf) = length buf + length xs" "drop 4 (f buf) = drop 4 (buf @ xs)"
proof -
  show eq: "finish_len e (f buf) = finish_len e (buf @ xs)" using assms by (simp add: appends_def)
  have "4 \<le> length (f buf)"
  proof (rule ccontr)
    assume "\<not> 4 \<le> length (f buf)"
    then have "length (finish_len e (f buf)) = 4" by (simp add: finish_len_def put_def)
    then show False using eq assms(2) by (simp add: length_finish_len)
  qed
  then have "length (finish_len e (f buf)) = length (f buf)" "drop 4 (finish_len e (f buf)) = drop 4 (f buf)"
    by (simp_all add: length_finish_len drop_finish_len)
  moreover have "length (finish_len e (buf @ xs)) = length (buf @ xs)" "drop 4 (finish_len e (buf @ xs)) = drop 4 (buf @ xs)"
    using assms(2) by (simp_all add: length_finish_len drop_finish_len)
  ultimately show "length (f buf) = length buf + length xs" "drop 4 (f buf) = drop 4 (buf @ xs)"
    using eq by simp_all
qed

lemma appends_id: "appends e (\<lambda>buf. buf) []"
  by (simp add: appends_def)

lemma appends_comp:
  assumes "appends e f xs" "appends e g ys"
  shows "appends e (\<lambda>buf. g (f buf)) (xs @ ys)"
  unfolding appends_def
proof (intro conjI allI impI)
  show "4 dvd length (xs @ ys)" using assms by (simp add: appends_def)
  fix buf :: bytes
  assume b: "20 \<le> length buf \<and> 4 dvd length buf"
  then have f: "length (f buf) = length buf + length xs" "drop 4 (f buf) = drop 4 (buf @ xs)"
    using appendsD [OF assms(1), of buf] by simp_all
  have "finish_len e (g (f buf)) = finish_len e (f buf @ ys)"
    by (rule appendsD [OF assms(2)]) (use b f assms(1) in \<open>simp_all add: appends_def\<close>)
  also have "\<dots> = finish_len e ((buf @ xs) @ ys)"
    by (rule finish_len_cong) (use b f in simp_all)
  finally show "finish_len e (g (f buf)) = finish_len e (buf @ xs @ ys)" by simp
qed

lemma appends_fold:
  "(\<And>x. x \<in> set l \<Longrightarrow> appends e (f x) (h x)) \<Longrightarrow> appends e (fold f l) (concat (map h l))"
proof (induction l)
  case (Cons a l)
  have "appends e (\<lambda>buf. fold f l (f a buf)) (h a @ concat (map h l))"
    by (rule appends_comp) (use Cons in auto)
  then show ?case by (simp add: comp_def)
qed (simp add: id_def appends_id)

lemma appends_attr: "appends e (nl_attr e kind data) (attribute e kind data)"
  using aligned_attribute [of e kind data]
  by (auto simp: appends_def nl_attr_def attribute_def pad_append pad_header simp del: of_nat_add)

lemma appends_nul: "appends e (attr_nul e kind v) (attribute e kind (v @ [0]))"
  using aligned_attribute [of e kind "v @ [0]"]
  by (auto simp: appends_def attr_nul_def attribute_def pad_append pad_header simp del: of_nat_add)

lemma appends_ip: "appends e (attr_ip e kind ip) (attribute e kind (octets ip))"
  unfolding attr_ip_def by (rule appends_attr)

lemma appends_nest:
  assumes "appends e f xs"
  shows "appends e (nest e kind f) (attribute e (kind OR NLA_F_NESTED) xs)"
  unfolding appends_def
proof (intro conjI allI impI)
  fix buf :: bytes
  assume b: "20 \<le> length buf \<and> 4 dvd length buf"
  define inner where "inner = buf @ ne_bytes e 2 (0 :: u16) @ ne_bytes e 2 (kind OR NLA_F_NESTED)"
  have len: "length (f inner) = length buf + 4 + length xs" and dr: "drop 4 (f inner) = drop 4 (inner @ xs)"
    using appendsD(2,3) [OF assms, of inner] b by (simp_all add: inner_def)
  define n :: bytes where "n = ne_bytes e 2 (of_nat (4 + length xs) :: u16)"
  have x: "4 dvd length xs" using assms by (simp add: appends_def)
  have al: "4 dvd length (put (f inner) (length buf) n)" using len b x by (simp add: n_def)
  have "nest e kind f buf = finish_len e (put (f inner) (length buf) n)"
    using al by (simp add: nest_def Let_def inner_def [symmetric] len n_def pad_aligned)
  also have "\<dots> = finish_len e (buf @ n @ ne_bytes e 2 (kind OR NLA_F_NESTED) @ xs)"
  proof (rule finish_len_cong)
    show "length (put (f inner) (length buf) n) = length (buf @ n @ ne_bytes e 2 (kind OR NLA_F_NESTED) @ xs)"
      using len by (simp add: n_def)
    have "take (length buf - 4) (drop 4 (f inner)) = drop 4 buf" using dr b by (simp add: inner_def)
    moreover have "drop (length buf - 4 + 2) (drop 4 (f inner)) = ne_bytes e 2 (kind OR NLA_F_NESTED) @ xs"
      using b unfolding dr by (simp add: inner_def)
    ultimately show "drop 4 (put (f inner) (length buf) n) = drop 4 (buf @ n @ ne_bytes e 2 (kind OR NLA_F_NESTED) @ xs)"
      using b len by (simp add: put_def drop_take n_def add.commute)
  qed
  finally show "finish_len e (nest e kind f buf) = finish_len e (buf @ attribute e (kind OR NLA_F_NESTED) xs)"
    using b x by (simp add: attribute_def n_def pad_aligned)
qed simp

lemma appends_message:
  assumes "appends e f xs" "length buf = 20"
  shows "finish_len e (f buf) = finish_len e (buf @ xs)"
  using assms by (simp add: appends_def)

lemma nest_finished:
  assumes "4 < length (nest e kind f buf)"
  shows "finish_len e (nest e kind f buf) = nest e kind f buf"
proof -
  obtain z where z: "nest e kind f buf = finish_len e z" by (simp add: nest_def Let_def)
  have "4 \<le> length z"
  proof (rule ccontr)
    assume "\<not> 4 \<le> length z"
    then have "length (finish_len e z) = 4" by (simp add: finish_len_def put_def)
    then show False using assms z by simp
  qed
  then show ?thesis by (simp add: z)
qed

section \<open>Reading attributes back\<close>

lemma nla_iter_attributes:
  assumes "\<forall>(kind, data)\<in>set attrs. length data < 65532" "4 dvd length pre"
  shows "nla_iter e (pre @ concat (map (\<lambda>(kind, data). attribute e kind data) attrs)) (length pre) =
    map (\<lambda>(kind, data). (kind AND NLA_TYPE_MASK, data)) attrs"
  using assms
proof (induction attrs arbitrary: pre)
  case Nil
  then show ?case by (simp add: nla_iter.simps)
next
  case (Cons a attrs)
  obtain kind data where a: "a = (kind, data)" by (cases a)
  let ?rest = "concat (map (\<lambda>(kind, data). attribute e kind data) attrs)"
  have len: "unat (of_nat (4 + length data) :: u16) = 4 + length data"
    unfolding unat_of_nat using Cons.prems(1) by (simp add: a)
  obtain k where k: "length pre = 4 * k" using Cons.prems(2) by (auto simp: dvd_def)
  have "length pre + (4 + length data) + 3 = (length data + 3) + 4 * (k + 1)" by (simp add: k)
  then have "(length pre + (4 + length data) + 3) div 4 = (length data + 3) div 4 + (k + 1)"
    by (simp only: div_mult_self2 [of 4, simplified])
  then have pos: "(length pre + (4 + length data) + 3) div 4 * 4 = length (pre @ attribute e kind data)"
    by (simp add: k attribute_def length_pad_to_4 add_mult_distrib)
  let ?all = "pre @ attribute e kind data @ ?rest"
  have IH: "nla_iter e ?all (length (pre @ attribute e kind data)) = map (\<lambda>(kind, data). (kind AND NLA_TYPE_MASK, data)) attrs"
    using Cons.IH [of "pre @ attribute e kind data"] Cons.prems by simp
  have at: "drop (length pre) ?all = ne_bytes e 2 (of_nat (4 + length data) :: u16) @ ne_bytes e 2 kind @ pad_to_4 data @ ?rest"
    by (simp add: attribute_def del: of_nat_add)
  have d2: "drop (length pre + 2) ?all = ne_bytes e 2 kind @ pad_to_4 data @ ?rest"
    and d4: "drop (length pre + 4) ?all = pad_to_4 data @ ?rest"
    using arg_cong [OF at, of "drop 2"] arg_cong [OF at, of "drop 4"] by (simp_all add: add.commute del: of_nat_add)
  have n: "of_ne e (take 2 (drop (length pre) ?all)) = (of_nat (4 + length data) :: u16)"
    unfolding at by (simp add: of_ne_bytes del: of_nat_add)
  have ty: "of_ne e (take 2 (drop (length pre + 2) ?all)) = kind"
    unfolding d2 by (simp add: of_ne_bytes)
  have v: "take (length data) (drop (length pre + 4) ?all) = data"
    unfolding d4 by (simp add: pad_to_4_def)
  have fits: "length pre + (4 + length data) \<le> length ?all" by (simp add: attribute_def pad_to_4_def)
  have "nla_iter e ?all (length pre) =
      (kind AND NLA_TYPE_MASK, data) # map (\<lambda>(kind, data). (kind AND NLA_TYPE_MASK, data)) attrs"
    unfolding nla_iter.simps [of e ?all "length pre"] n len ty Let_def pos IH using fits v by simp
  then show ?case by (simp add: a)
qed

lemmas nla_iter_all = nla_iter_attributes [where pre = "[]", simplified]

section \<open>Elements read back\<close>

text \<open>The endpoints that a reader of the kernel's attribute format finds in a list of elements.\<close>

definition read_ip :: "bytes \<Rightarrow> IpAddr option" where
  "read_ip v = (if length v = 4 then Some (V4 (of_be v)) else if length v = 16 then Some (V6 (of_be v)) else None)"

definition read_endpoint :: "endian \<Rightarrow> bytes \<Rightarrow> (IpAddr \<times> bool) option" where
  "read_endpoint e v = do {
     let attrs = nla_iter e v 0;
     key \<leftarrow> map_of attrs NFTA_SET_ELEM_KEY;
     ip \<leftarrow> Option.bind (map_of (nla_iter e key 0) NFTA_DATA_VALUE) read_ip;
     Some (ip, map_of attrs NFTA_SET_ELEM_FLAGS = Some (to_be 4 NFT_SET_ELEM_INTERVAL_END)) }"

definition read_ipset_entry :: "endian \<Rightarrow> bytes \<Rightarrow> (IpAddr \<times> u8 option) option" where
  "read_ipset_entry e v = do {
     let attrs = nla_iter e v 0;
     inner \<leftarrow> map_of attrs IPSET_ATTR_IP;
     ip \<leftarrow> (case nla_iter e inner 0 of
              [(kind, a)] \<Rightarrow> if kind = IPSET_ATTR_IPADDR_IPV4 \<or> kind = IPSET_ATTR_IPADDR_IPV6 then read_ip a else None
            | _ \<Rightarrow> None);
     Some (ip, map_option hd (map_of attrs IPSET_ATTR_CIDR)) }"

lemma read_octets: "read_ip (octets ip) = Some ip"
  by (cases ip) (simp_all add: read_ip_def wire_simps)

lemma length_octets: "length (octets ip) \<le> 16"
  by (cases ip) simp_all

text \<open>The wire form of one element of a set.\<close>

definition endpoint_bytes :: "endian \<Rightarrow> IpAddr \<times> bool \<Rightarrow> bytes" where
  "endpoint_bytes e p =
     (if snd p then attribute e NFTA_SET_ELEM_FLAGS (to_be 4 NFT_SET_ELEM_INTERVAL_END) else []) @
     attribute e (NFTA_SET_ELEM_KEY OR NLA_F_NESTED) (attribute e (NFTA_DATA_VALUE OR NLA_F_NET_BYTEORDER) (octets (fst p)))"

definition entry_bytes :: "endian \<Rightarrow> u8 option \<Rightarrow> IpAddr \<Rightarrow> bytes" where
  "entry_bytes e cidr ip =
     attribute e (IPSET_ATTR_IP OR NLA_F_NESTED)
       (attribute e ((case ip of V4 _ \<Rightarrow> IPSET_ATTR_IPADDR_IPV4 | V6 _ \<Rightarrow> IPSET_ATTR_IPADDR_IPV6) OR NLA_F_NET_BYTEORDER) (octets ip)) @
     (case cidr of Some m \<Rightarrow> attribute e IPSET_ATTR_CIDR [m] | None \<Rightarrow> [])"

lemma appends_endpoint:
  "appends e (nft_interval_elem e ip is_end) (attribute e (NFTA_LIST_ELEM OR NLA_F_NESTED) (endpoint_bytes e (ip, is_end)))"
proof (cases is_end)
  case True
  have "appends e (\<lambda>msg. nest e NFTA_SET_ELEM_KEY (attr_ip e (NFTA_DATA_VALUE OR NLA_F_NET_BYTEORDER) ip)
      (nl_attr e NFTA_SET_ELEM_FLAGS (to_be 4 NFT_SET_ELEM_INTERVAL_END) msg)) (endpoint_bytes e (ip, True))"
    unfolding endpoint_bytes_def fst_conv snd_conv if_True by (intro appends_comp appends_attr appends_nest appends_ip)
  then show ?thesis using True by (simp add: nft_interval_elem_def appends_nest)
next
  case False
  have "appends e (nest e NFTA_SET_ELEM_KEY (attr_ip e (NFTA_DATA_VALUE OR NLA_F_NET_BYTEORDER) ip)) (endpoint_bytes e (ip, False))"
    unfolding endpoint_bytes_def by (simp add: appends_nest appends_ip)
  then show ?thesis using False by (simp add: nft_interval_elem_def appends_nest)
qed

lemma appends_entry: "appends e (ipset_elem e ip cidr) (attribute e (IPSET_ATTR_DATA OR NLA_F_NESTED) (entry_bytes e cidr ip))"
proof (cases cidr)
  case None
  then show ?thesis by (simp add: ipset_elem_def entry_bytes_def appends_nest appends_ip)
next
  case (Some m)
  have "appends e (\<lambda>msg. nl_attr e IPSET_ATTR_CIDR [m] (nest e IPSET_ATTR_IP
      (attr_ip e ((case ip of V4 _ \<Rightarrow> IPSET_ATTR_IPADDR_IPV4 | V6 _ \<Rightarrow> IPSET_ATTR_IPADDR_IPV6) OR NLA_F_NET_BYTEORDER) ip) msg))
      (entry_bytes e cidr ip)"
    unfolding entry_bytes_def Some option.case by (intro appends_comp appends_attr appends_nest appends_ip)
  then show ?thesis using Some by (simp add: ipset_elem_def appends_nest)
qed

lemma kind_bits:
  "(NFTA_SET_ELEM_KEY OR NLA_F_NESTED) AND NLA_TYPE_MASK = NFTA_SET_ELEM_KEY"
  "(NFTA_DATA_VALUE OR NLA_F_NET_BYTEORDER) AND NLA_TYPE_MASK = NFTA_DATA_VALUE"
  "NFTA_SET_ELEM_FLAGS AND NLA_TYPE_MASK = NFTA_SET_ELEM_FLAGS"
  "(NFTA_LIST_ELEM OR NLA_F_NESTED) AND NLA_TYPE_MASK = NFTA_LIST_ELEM"
  "NFTA_SET_ELEM_LIST_TABLE AND NLA_TYPE_MASK = NFTA_SET_ELEM_LIST_TABLE"
  "NFTA_SET_ELEM_LIST_SET AND NLA_TYPE_MASK = NFTA_SET_ELEM_LIST_SET"
  "(NFTA_SET_ELEM_LIST_ELEMENTS OR NLA_F_NESTED) AND NLA_TYPE_MASK = NFTA_SET_ELEM_LIST_ELEMENTS"
  "(IPSET_ATTR_IP OR NLA_F_NESTED) AND NLA_TYPE_MASK = IPSET_ATTR_IP"
  "(IPSET_ATTR_IPADDR_IPV4 OR NLA_F_NET_BYTEORDER) AND NLA_TYPE_MASK = IPSET_ATTR_IPADDR_IPV4"
  "(IPSET_ATTR_IPADDR_IPV6 OR NLA_F_NET_BYTEORDER) AND NLA_TYPE_MASK = IPSET_ATTR_IPADDR_IPV6"
  "IPSET_ATTR_CIDR AND NLA_TYPE_MASK = IPSET_ATTR_CIDR"
  by code_simp+

lemma kinds_differ:
  "NFTA_SET_ELEM_KEY \<noteq> NFTA_SET_ELEM_FLAGS" "IPSET_ATTR_IP \<noteq> IPSET_ATTR_CIDR"
  "NFTA_SET_ELEM_LIST_TABLE \<noteq> NFTA_SET_ELEM_LIST_SET" "NFTA_SET_ELEM_LIST_TABLE \<noteq> NFTA_SET_ELEM_LIST_ELEMENTS"
  "NFTA_SET_ELEM_LIST_SET \<noteq> NFTA_SET_ELEM_LIST_ELEMENTS"
  by code_simp+

lemma nla_iter_one: "length a < 65532 \<Longrightarrow> nla_iter e (attribute e k a) 0 = [(k AND NLA_TYPE_MASK, a)]"
  using nla_iter_all [of "[(k, a)]" e] by simp

lemma nla_iter_two:
  "length a < 65532 \<Longrightarrow> length b < 65532 \<Longrightarrow>
   nla_iter e (attribute e k a @ attribute e l b) 0 = [(k AND NLA_TYPE_MASK, a), (l AND NLA_TYPE_MASK, b)]"
  using nla_iter_all [of "[(k, a), (l, b)]" e] by simp

lemma length_attribute: "length (attribute e k a) \<le> length a + 7"
proof -
  have "(length a + 3) div 4 * 4 \<le> length a + 3" by simp
  then show ?thesis by (simp add: attribute_def length_pad_to_4)
qed

lemma length_attribute_mono: "length a \<le> n \<Longrightarrow> length (attribute e k a) \<le> n + 7"
  using length_attribute [of e k a] by linarith

lemma length_ip_attribute: "length (attribute e k (octets ip)) \<le> 23"
  using length_attribute_mono [OF length_octets] by simp

lemma read_endpoint_bytes: "read_endpoint e (endpoint_bytes e p) = Some p"
proof -
  obtain ip is_end where p: "p = (ip, is_end)" by (cases p)
  have "length (octets ip) < 65532" using length_octets [of ip] by simp
  moreover have "length (attribute e k (octets ip)) < 65532" for k using length_ip_attribute [of e k ip] by simp
  ultimately show ?thesis
    by (cases is_end) (simp_all add: p read_endpoint_def endpoint_bytes_def nla_iter_one nla_iter_two kind_bits kinds_differ
        kinds_differ [symmetric] read_octets)
qed

lemma read_entry_bytes: "read_ipset_entry e (entry_bytes e cidr ip) = Some (ip, cidr)"
proof -
  have "length (octets ip) < 65532" using length_octets [of ip] by simp
  moreover have "length (attribute e k (octets ip)) < 65532" for k using length_ip_attribute [of e k ip] by simp
  ultimately show ?thesis
    by (cases cidr; cases ip) (simp_all add: read_ipset_entry_def entry_bytes_def nla_iter_one nla_iter_two kind_bits kinds_differ
        kinds_differ [symmetric] read_octets [of "V4 _", simplified] read_octets [of "V6 _", simplified])
qed

lemma length_endpoint_bytes: "length (endpoint_bytes e p) \<le> 42"
proof -
  have "length (attribute e (NFTA_SET_ELEM_KEY OR NLA_F_NESTED)
      (attribute e (NFTA_DATA_VALUE OR NLA_F_NET_BYTEORDER) (octets (fst p)))) \<le> 30"
    using length_attribute_mono [OF length_ip_attribute] by simp
  moreover have "length (attribute e NFTA_SET_ELEM_FLAGS (to_be 4 NFT_SET_ELEM_INTERVAL_END)) \<le> 11"
    using length_attribute_mono [of "to_be 4 NFT_SET_ELEM_INTERVAL_END" 4] by simp
  ultimately show ?thesis by (simp add: endpoint_bytes_def)
qed

definition read_nft_message :: "endian \<Rightarrow> bytes \<Rightarrow> (bytes \<times> bytes \<times> (IpAddr \<times> bool) option list) option" where
  "read_nft_message e msg = do {
     let attrs = nla_iter e (drop 20 msg) 0;
     table \<leftarrow> map_of attrs NFTA_SET_ELEM_LIST_TABLE;
     nft \<leftarrow> map_of attrs NFTA_SET_ELEM_LIST_SET;
     elems \<leftarrow> map_of attrs NFTA_SET_ELEM_LIST_ELEMENTS;
     Some (table, nft, map (read_endpoint e \<circ> snd) (nla_iter e elems 0)) }"

definition elements :: "endian \<Rightarrow> (IpAddr \<times> bool) list \<Rightarrow> bytes" where
  "elements e eps = concat (map (\<lambda>p. attribute e (NFTA_LIST_ELEM OR NLA_F_NESTED) (endpoint_bytes e p)) eps)"

lemma length_elements: "length (elements e eps) \<le> 49 * length eps"
proof (induction eps)
  case (Cons p eps)
  have "length (attribute e (NFTA_LIST_ELEM OR NLA_F_NESTED) (endpoint_bytes e p)) \<le> 49"
    using length_attribute_mono [OF length_endpoint_bytes] by simp
  with Cons show ?case by (simp add: elements_def)
qed (simp add: elements_def)

lemma read_elements: "map (read_endpoint e \<circ> snd) (nla_iter e (elements e eps) 0) = map Some eps"
proof -
  have "nla_iter e (elements e eps) 0 =
      map (\<lambda>(kind, a). (kind AND NLA_TYPE_MASK, a)) (map (\<lambda>p. (NFTA_LIST_ELEM OR NLA_F_NESTED, endpoint_bytes e p)) eps)"
    using nla_iter_all [of "map (\<lambda>p. (NFTA_LIST_ELEM OR NLA_F_NESTED, endpoint_bytes e p)) eps" e]
      le_less_trans [OF length_endpoint_bytes, of 65532 e]
    by (auto simp: elements_def comp_def)
  then show ?thesis by (simp add: read_endpoint_bytes comp_def)
qed

lemma length_endpoints: "all_endpoints checked pmask interval ips = Some eps \<Longrightarrow> length eps \<le> 2 * length ips"
proof (induction ips arbitrary: eps)
  case (Cons ip ips)
  then obtain es rest where "nft_endpoints checked pmask interval ip = Some es"
    "all_endpoints checked pmask interval ips = Some rest" "eps = es @ rest"
    by (auto simp: bind_eq_Some_conv)
  moreover from this(1) have "length es \<le> 2"
    by (auto simp: nft_endpoints_def Let_def bind_eq_Some_conv split: option.splits if_splits)
  ultimately show ?case using Cons.IH by fastforce
qed simp

lemma length_header: "length (set_seq e seq (nl_new e t f fam res)) = 20"
  by (simp add: set_seq_def nl_new_def Let_def length_finish_len)

lemma message_length: "4 \<le> length buf \<Longrightarrow> of_ne e (take 4 (finish_len e buf)) = (of_nat (length (finish_len e buf)) :: u32)"
  by (simp add: length_finish_len) (simp add: finish_len_def put_def of_ne_bytes)

lemma encode_nftset_add_exact:
  assumes eps: "all_endpoints checked pmask interval ips = Some eps"
    and "length ips \<le> 500" "length table < 65531" "length nft < 65531"
  shows "\<exists>start msg stop. encode e checked (NftSetAdd family table nft ips pmask interval) seq = Some (start @ msg @ stop) \<and>
     length start = 20 \<and> length stop = 20 \<and> of_ne e (take 4 msg) = (of_nat (length msg) :: u32) \<and>
     read_nft_message e msg = Some (table @ [0], nft @ [0], map Some eps)"
proof -
  let ?h = "set_seq e seq (nl_new e (nft_msg_type NFT_MSG_NEWSETELEM) (NLM_F_REQUEST OR NLM_F_CREATE OR NLM_F_EXCL)
      (nft_family_code family) 0)"
  let ?f = "\<lambda>msg. nest e NFTA_SET_ELEM_LIST_ELEMENTS (fold (\<lambda>(ip, is_end). nft_interval_elem e ip is_end) eps)
      (attr_nul e NFTA_SET_ELEM_LIST_SET nft (attr_nul e NFTA_SET_ELEM_LIST_TABLE table msg))"
  let ?attrs = "[(NFTA_SET_ELEM_LIST_TABLE, table @ [0]), (NFTA_SET_ELEM_LIST_SET, nft @ [0]),
      (NFTA_SET_ELEM_LIST_ELEMENTS OR NLA_F_NESTED, elements e eps)]"
  let ?body = "concat (map (\<lambda>(kind, a). attribute e kind a) ?attrs)"
  have fold: "appends e (fold (\<lambda>(ip, is_end). nft_interval_elem e ip is_end) eps) (elements e eps)"
    unfolding elements_def by (rule appends_fold) (auto simp: appends_endpoint)
  have app: "appends e ?f ((attribute e NFTA_SET_ELEM_LIST_TABLE (table @ [0]) @ attribute e NFTA_SET_ELEM_LIST_SET (nft @ [0])) @
      attribute e (NFTA_SET_ELEM_LIST_ELEMENTS OR NLA_F_NESTED) (elements e eps))"
    by (intro appends_comp appends_nul appends_nest fold)
  then have "finish_len e (?f ?h) = finish_len e (?h @ ?body)"
    using appends_message [OF _ length_header] by simp
  moreover have "finish_len e (?f ?h) = ?f ?h"
    by (rule nest_finished) (use appendsD(2) [OF app, of ?h] in \<open>simp add: length_header\<close>)
  ultimately have msg: "?f ?h = finish_len e (?h @ ?body)" by simp
  have len: "length (finish_len e (?h @ ?body)) = 20 + length ?body" by (simp add: length_finish_len length_header)
  have "drop 20 (?f ?h) = drop 16 (drop 4 (finish_len e (?h @ ?body)))" by (simp add: msg)
  then have dr: "drop 20 (?f ?h) = ?body" by (simp add: drop_finish_len length_header)
  have "length (elements e eps) < 65532"
    using length_elements [of e eps] length_endpoints [OF eps] assms(2) by linarith
  then have "nla_iter e ?body 0 = map (\<lambda>(kind, a). (kind AND NLA_TYPE_MASK, a)) ?attrs"
    by (intro nla_iter_all) (use assms(3,4) in simp)
  then have "read_nft_message e (?f ?h) = Some (table @ [0], nft @ [0], map Some eps)"
    unfolding read_nft_message_def dr by (simp add: kind_bits kinds_differ kinds_differ [symmetric] read_elements)
  moreover have "of_ne e (take 4 (?f ?h)) = (of_nat (length (?f ?h)) :: u32)"
    unfolding msg by (rule message_length) (simp add: length_header)
  ultimately show ?thesis
    by (simp add: encode_nftset_add_def eps Let_def nl_batch_def)
      (metis append_assoc length_header)
qed

section \<open>Intervals\<close>

text \<open>
  The addresses of a half-open interval as the kernel reads its endpoints: an end of zero stands
  for the top of the address space. The addresses that share a prefix with an address.
\<close>

fun in_half_open :: "IpAddr \<times> IpAddr \<Rightarrow> IpAddr \<Rightarrow> bool" where
  "in_half_open (V4 lo, V4 hi) (V4 x) \<longleftrightarrow> unat lo \<le> unat x \<and> (unat x < unat hi \<or> hi = 0)"
| "in_half_open (V6 lo, V6 hi) (V6 x) \<longleftrightarrow> unat lo \<le> unat x \<and> (unat x < unat hi \<or> hi = 0)"
| "in_half_open _ _ \<longleftrightarrow> False"

fun same_prefix :: "u8 option \<Rightarrow> IpAddr \<Rightarrow> IpAddr \<Rightarrow> bool" where
  "same_prefix p (V4 a) (V4 x) \<longleftrightarrow>
     (let h = (case p of Some n \<Rightarrow> 32 - unat n | None \<Rightarrow> 0) in unat x div 2 ^ h = unat a div 2 ^ h)"
| "same_prefix p (V6 a) (V6 x) \<longleftrightarrow>
     (let h = (case p of Some n \<Rightarrow> 128 - unat n | None \<Rightarrow> 0) in unat x div 2 ^ h = unat a div 2 ^ h)"
| "same_prefix p _ _ \<longleftrightarrow> False"

lemma half_open_prefix:
  fixes a x :: "'w::len word"
  assumes "k < LENGTH('w)"
  shows "unat (a AND push_bit k (- 1)) \<le> unat x \<and>
      (unat x < unat ((a AND push_bit k (- 1)) + push_bit k 1) \<or> (a AND push_bit k (- 1)) + push_bit k 1 = 0)
    \<longleftrightarrow> unat x div 2 ^ k = unat a div 2 ^ k"
proof -
  let ?A = "unat a div 2 ^ k"
  define l where "l = a AND push_bit k (- 1)"
  have lo: "unat l = ?A * 2 ^ k" unfolding l_def and_high_mask by (rule unat_push_drop)
  define s where "s = push_bit k (1 :: 'w word)"
  have one: "unat s = 2 ^ k"
  proof -
    have "s = of_nat (2 ^ k)" by (simp add: s_def push_bit_eq_mult)
    moreover have "(2 :: nat) ^ k < 2 ^ LENGTH('w)" using assms by simp
    ultimately show ?thesis by (simp only: unat_of_nat mod_less)
  qed
  have between: "unat x div 2 ^ k = ?A \<longleftrightarrow> ?A * 2 ^ k \<le> unat x \<and> unat x \<le> ?A * 2 ^ k + (2 ^ k - 1)"
    by (rule div_between) simp
  have pw: "2 ^ LENGTH('w) = 2 ^ (LENGTH('w) - k) * (2 :: nat) ^ k" using assms by (simp flip: power_add)
  have "?A < 2 ^ (LENGTH('w) - k)" using unat_bound [of a] unfolding pw by (rule less_mult_imp_div_less)
  then have "(?A + 1) * 2 ^ k \<le> 2 ^ LENGTH('w)" unfolding pw by (intro mult_right_mono) simp_all
  then consider "?A * 2 ^ k + 2 ^ k < 2 ^ LENGTH('w)" | "?A * 2 ^ k + 2 ^ k = 2 ^ LENGTH('w)"
    by (auto simp: algebra_simps le_less)
  then have "unat l \<le> unat x \<and> (unat x < unat (l + s) \<or> l + s = 0) \<longleftrightarrow> unat x div 2 ^ k = ?A"
  proof cases
    case 1
    then have "unat (l + s) = ?A * 2 ^ k + 2 ^ k" by (simp add: unat_word_ariths lo one)
    moreover from this have "l + s \<noteq> 0" by (metis add_eq_0_iff_both_eq_0 power_not_zero unat_0 zero_neq_numeral)
    moreover have "unat x < ?A * 2 ^ k + 2 ^ k \<longleftrightarrow> unat x \<le> ?A * 2 ^ k + (2 ^ k - 1)"
      using one_le_power [of "2 :: nat" k] by linarith
    ultimately show ?thesis by (simp add: lo between)
  next
    case 2
    then have "unat (l + s) = 0" by (simp add: unat_word_ariths lo one)
    then have "l + s = 0" by (simp add: unat_eq_0)
    moreover have "unat x \<le> ?A * 2 ^ k + (2 ^ k - 1)" using unat_bound [of x] 2 by linarith
    ultimately show ?thesis by (simp add: lo between)
  qed
  then show ?thesis by (simp only: l_def s_def)
qed

text \<open>The two endpoints of an address, for a mask that is not zero.\<close>

lemma half_open_host:
  fixes a x :: "'w::len word"
  shows "unat a \<le> unat x \<and> (unat x < unat (a + 1) \<or> a + 1 = 0) \<longleftrightarrow> unat x = unat a"
  using half_open_prefix [of 0 a x] by simp

lemma masked_end:
  assumes "n \<noteq> 0"
  shows "apply_mask (V4 a) n = V4 (a AND push_bit (32 - unat n) (- 1))"
    "prefix_end checked (V4 b) n = Some (V4 (b + push_bit (32 - unat n) 1))"
    "apply_mask (V6 c) n = V6 (c AND push_bit (128 - unat n) (- 1))"
    "prefix_end checked (V6 d) n = Some (V6 (d + push_bit (128 - unat n) 1))"
proof -
  have "0 < unat n" using assms by (simp add: unat_gt_0)
  have v4: "32 \<le> n \<longleftrightarrow> 32 \<le> unat n" and v6: "128 \<le> n \<longleftrightarrow> 128 \<le> unat n" by (simp_all add: word_le_nat_alt)
  show "apply_mask (V4 a) n = V4 (a AND push_bit (32 - unat n) (- 1))"
    by (cases "32 \<le> unat n") (simp_all add: v4 assms)
  show "apply_mask (V6 c) n = V6 (c AND push_bit (128 - unat n) (- 1))"
    by (cases "128 \<le> unat n") (simp_all add: v6 assms)
  show "prefix_end checked (V4 b) n = Some (V4 (b + push_bit (32 - unat n) 1))"
    using \<open>0 < unat n\<close> by (cases "32 \<le> unat n") (simp_all add: v4 shl_def)
  show "prefix_end checked (V6 d) n = Some (V6 (d + push_bit (128 - unat n) 1))"
    using \<open>0 < unat n\<close> by (cases "128 \<le> unat n") (simp_all add: v6 shl_def)
qed

lemma interval_endpoints:
  assumes "pmask \<noteq> Some 0"
  obtains lo hi where "nft_endpoints checked pmask True ip = Some [(lo, False), (hi, True)]"
    "\<And>x. in_half_open (lo, hi) x \<longleftrightarrow> same_prefix pmask ip x"
proof (cases pmask)
  case None
  have "in_half_open (ip, ip_next ip) x \<longleftrightarrow> same_prefix pmask ip x" for x
    by (cases ip; cases x) (simp_all add: None half_open_host del: ip_next.simps, simp_all add: half_open_host)
  then show ?thesis using that None by (simp add: nft_endpoints_def)
next
  case (Some n)
  then have "0 < unat n" using assms by (simp add: unat_gt_0)
  show ?thesis
  proof (cases ip)
    case (V4 a)
    let ?k = "32 - unat n"
    have "same_prefix pmask ip x \<longleftrightarrow> in_half_open (V4 (a AND push_bit ?k (- 1)), V4 ((a AND push_bit ?k (- 1)) + push_bit ?k 1)) x" for x
      using half_open_prefix [of ?k a] \<open>0 < unat n\<close> by (cases x) (simp_all add: V4 Some Let_def del: push_bit_minus_one)
    moreover have "nft_endpoints checked pmask True ip =
        Some [(V4 (a AND push_bit ?k (- 1)), False), (V4 ((a AND push_bit ?k (- 1)) + push_bit ?k 1), True)]"
      using assms by (simp add: nft_endpoints_def V4 Some masked_end Let_def del: apply_mask.simps prefix_end.simps)
    ultimately show ?thesis using that by blast
  next
    case (V6 a)
    let ?k = "128 - unat n"
    have "same_prefix pmask ip x \<longleftrightarrow> in_half_open (V6 (a AND push_bit ?k (- 1)), V6 ((a AND push_bit ?k (- 1)) + push_bit ?k 1)) x" for x
      using half_open_prefix [of ?k a] \<open>0 < unat n\<close> by (cases x) (simp_all add: V6 Some Let_def del: push_bit_minus_one)
    moreover have "nft_endpoints checked pmask True ip =
        Some [(V6 (a AND push_bit ?k (- 1)), False), (V6 ((a AND push_bit ?k (- 1)) + push_bit ?k 1), True)]"
      using assms by (simp add: nft_endpoints_def V6 Some masked_end Let_def del: apply_mask.simps prefix_end.simps)
    ultimately show ?thesis using that by blast
  qed
qed

definition endpoints_of :: "IpAddr \<times> IpAddr \<Rightarrow> (IpAddr \<times> bool) list" where
  "endpoints_of r = [(fst r, False), (snd r, True)]"

lemma all_interval_endpoints:
  assumes "pmask \<noteq> Some 0"
  shows "\<exists>ranges. all_endpoints checked pmask True ips = Some (concat (map endpoints_of ranges)) \<and>
    list_all2 (\<lambda>ip r. \<forall>x. in_half_open r x = same_prefix pmask ip x) ips ranges"
proof (induction ips)
  case (Cons ip ips)
  then obtain ranges where r: "all_endpoints checked pmask True ips = Some (concat (map endpoints_of ranges))"
    "list_all2 (\<lambda>ip r. \<forall>x. in_half_open r x = same_prefix pmask ip x) ips ranges" by blast
  obtain lo hi where "nft_endpoints checked pmask True ip = Some [(lo, False), (hi, True)]"
    "\<And>x. in_half_open (lo, hi) x \<longleftrightarrow> same_prefix pmask ip x"
    using interval_endpoints [OF assms] by metis
  with r show ?case by (intro exI [of _ "(lo, hi) # ranges"]) (simp add: endpoints_of_def [of "(lo, hi)"])
qed (simp add: exI [of _ "[]"])

text \<open>
  (C40) The message that adds up to 500 addresses to an interval set never panics and is well
  formed in either byte order: its length field is its length, a reader of its attributes
  finds the table, the set and two endpoints per address, and the interval between the
  endpoints of an address holds exactly the addresses with the same prefix, or the address
  alone without a mask. A mask of zero is excluded.
\<close>

theorem interval_adds_exact:
  assumes "length ips \<le> 500" "length table < 65531" "length nft < 65531" "pmask \<noteq> Some 0"
  shows "\<exists>start msg stop ranges.
     encode e checked (NftSetAdd family table nft ips pmask True) seq = Some (start @ msg @ stop) \<and>
     length start = 20 \<and> length stop = 20 \<and> of_ne e (take 4 msg) = (of_nat (length msg) :: u32) \<and>
     read_nft_message e msg = Some (table @ [0], nft @ [0], map Some (concat (map endpoints_of ranges))) \<and>
     list_all2 (\<lambda>ip r. \<forall>x. in_half_open r x = same_prefix pmask ip x) ips ranges"
proof -
  obtain ranges where r: "all_endpoints checked pmask True ips = Some (concat (map endpoints_of ranges))"
    "list_all2 (\<lambda>ip r. \<forall>x. in_half_open r x = same_prefix pmask ip x) ips ranges"
    using all_interval_endpoints [OF assms(4)] by blast
  then show ?thesis using encode_nftset_add_exact [OF r(1) assms(1-3), of e family seq] by blast
qed

theorem interval_adds_exact_witness:
  "\<exists>start msg stop ranges.
     encode Little False (NftSetAdd Inet [102] [115] [V4 0xC0A80101] (Some 24) True) 7 = Some (start @ msg @ stop) \<and>
     length start = 20 \<and> length stop = 20 \<and> of_ne Little (take 4 msg) = (of_nat (length msg) :: u32) \<and>
     read_nft_message Little msg = Some ([102, 0], [115, 0], map Some (concat (map endpoints_of ranges))) \<and>
     list_all2 (\<lambda>ip r. \<forall>x. in_half_open r x = same_prefix (Some 24) ip x) [V4 0xC0A80101] ranges"
  using interval_adds_exact [of "[V4 0xC0A80101]" "[102]" "[115]" "Some 24" Little False Inet 7] by simp

text \<open>The same address and mask, but zero: a release build writes an interval of one address.\<close>

lemma zero_mask_interval:
  "nft_endpoints True (Some 0) True (V4 a) = None"
  "nft_endpoints False (Some 0) True (V4 a) = Some [(V4 0, False), (V4 1, True)]"
  by (simp_all add: nft_endpoints_def shl_def)

end
