(* ===== verification/Ipset.thy ===== *)
theory Ipset
  imports Netlink Config "HOL-Library.Product_Lexorder" "HOL-Library.List_Lexorder" "HOL-Library.Option_ord"
begin

text \<open>
  \<open>src/ipset/\<close>: names of sets, the manager that queues the addresses of accepted answers, the
  client that writes them in chunks, and the worker that sorts, deduplicates and retries.
  The bounded channel between manager and worker is a list; what the kernel says to each
  message is an argument.
\<close>

section \<open>Names of sets\<close>

datatype SetName =
    IpSet bytes (sn_mask: "u8 option")
  | NftSet NftFamily bytes bytes (sn_mask: "u8 option")

definition parse_mask :: "bytes \<Rightarrow> u8 option res" where
  "parse_mask s =
     (if s = [] then Inr None
      else case parse_uint 8 s of
             None \<Rightarrow> Inl ''invalid prefix length''
           | Some n \<Rightarrow> if 128 < n then Inl ''invalid prefix length'' else Inr (Some (of_nat n)))"

definition parse_nft_family :: "bytes \<Rightarrow> NftFamily res" where
  "parse_nft_family v =
     (if v = str ''inet'' then Inr Inet
      else if v = str ''ip'' then Inr Ip
      else if v = str ''ip6'' then Inr Ip6
      else if v = str ''arp'' then Inr Arp
      else if v = str ''bridge'' then Inr Bridge
      else if v = str ''netdev'' then Inr Netdev
      else Inl ''invalid nft family'')"

definition part :: "nat \<Rightarrow> bytes list \<Rightarrow> bytes" where
  "part i parts = (if i < length parts then parts ! i else [])"

text \<open>\<open>rfind\<close> splits at the last separator.\<close>

definition rsplit_once :: "u8 \<Rightarrow> bytes \<Rightarrow> (bytes \<times> bytes) option" where
  "rsplit_once c s = map_option (\<lambda>(a, b). (rev b, rev a)) (split_once c (rev s))"

definition parse_set_name :: "bytes \<Rightarrow> u8 \<Rightarrow> SetName res" where
  "parse_set_name raw max_prefix =
     (let parsed =
        (if 64 \<in> set raw then
           (let parts = split_on 64 raw
            in case parse_nft_family (part 0 parts) of
                 Inl e \<Rightarrow> Inl e
               | Inr family \<Rightarrow>
                   if part 1 parts = [] \<or> part 2 parts = [] \<or> 5 \<le> length parts then Inl ''invalid nftset name''
                   else case parse_mask (part 3 parts) of
                          Inl e \<Rightarrow> Inl e
                        | Inr m \<Rightarrow> Inr (NftSet family (part 1 parts) (part 2 parts) m))
         else
           (case (case rsplit_once 47 raw of
                    Some (name, m) \<Rightarrow>
                      (case parse_mask m of
                         Inl e \<Rightarrow> Inl e
                       | Inr None \<Rightarrow> Inl ''invalid ipset pmask''
                       | Inr (Some m) \<Rightarrow> Inr (name, Some m))
                  | None \<Rightarrow> Inr (raw, None)) of
              Inl e \<Rightarrow> Inl e
            | Inr (name, m) \<Rightarrow> if name = [] then Inl ''empty ipset name'' else Inr (IpSet name m)))
      in case parsed of
           Inl e \<Rightarrow> Inl e
         | Inr s \<Rightarrow>
             (case sn_mask s of
                Some m \<Rightarrow> if max_prefix < m then Inl ''prefix length exceeds maximum'' else Inr s
              | None \<Rightarrow> Inr s))"

section \<open>Special-use addresses\<close>

text \<open>The predicates of the standard library, on the number of an address.\<close>

definition octet :: "u32 \<Rightarrow> nat \<Rightarrow> nat" where
  "octet a i = unat a div 256 ^ (3 - i) mod 256"

definition special_v4 :: "u32 \<Rightarrow> bool" where
  "special_v4 a \<longleftrightarrow>
     octet a 0 = 127 \<or>
     (octet a 0 = 10 \<or> (octet a 0 = 172 \<and> 16 \<le> octet a 1 \<and> octet a 1 \<le> 31) \<or> (octet a 0 = 192 \<and> octet a 1 = 168)) \<or>
     (octet a 0 = 169 \<and> octet a 1 = 254) \<or>
     a = - 1 \<or>
     (224 \<le> octet a 0 \<and> octet a 0 \<le> 239) \<or>
     ((octet a 0 = 192 \<and> octet a 1 = 0 \<and> octet a 2 = 2) \<or> (octet a 0 = 198 \<and> octet a 1 = 51 \<and> octet a 2 = 100) \<or>
      (octet a 0 = 203 \<and> octet a 1 = 0 \<and> octet a 2 = 113)) \<or>
     octet a 0 = 0 \<or> (octet a 0 = 100 \<and> octet a 1 div 64 = 1)"

definition segment :: "u128 \<Rightarrow> nat \<Rightarrow> nat" where
  "segment a i = unat a div 65536 ^ (7 - i) mod 65536"

definition special_v6 :: "u128 \<Rightarrow> bool" where
  "special_v6 a \<longleftrightarrow>
     a = 1 \<or> a = 0 \<or> segment a 0 div 256 = 255 \<or> segment a 0 div 512 = 126 \<or> segment a 0 div 64 = 1018 \<or>
     (segment a 0 = 0x2001 \<and> segment a 1 = 0x0db8)"

fun is_special_use :: "IpAddr \<Rightarrow> bool" where
  "is_special_use (V4 a) = special_v4 a"
| "is_special_use (V6 a) = special_v6 a"

section \<open>The manager\<close>

definition ADD_QUEUE_SIZE :: nat where
  "ADD_QUEUE_SIZE = 16384"

record AddJob =
  aj_set :: SetName
  aj_ip :: IpAddr
  aj_interval :: bool

text \<open>
  The channel to the worker: absent without a set to add to, disconnected once the worker has
  gone, else the jobs it holds.
\<close>

datatype add_tx = NoChannel | Disconnected | Queue (queued: "AddJob list")

record IpSetManager =
  im_add_rules :: "(nat \<times> nat \<times> SetName) list"
  im_interval_nft_sets :: "SetName set"
  im_warned :: "bool \<times> bool"
  im_dropped_count :: u64
  im_add_tx :: add_tx

fun parse_add_rules :: "(nat \<times> nat \<times> bytes \<times> bool) list \<Rightarrow> (nat \<times> nat \<times> SetName) list res" where
  "parse_add_rules [] = Inr []"
| "parse_add_rules ((r, f, raw, is_v6) # rules) =
     (case parse_set_name raw (if is_v6 then 128 else 32) of
        Inl e \<Rightarrow> Inl e
      | Inr s \<Rightarrow> (case parse_add_rules rules of Inl e \<Rightarrow> Inl e | Inr rest \<Rightarrow> Inr ((r, f, s) # rest)))"

definition manager_new :: "(SetName \<Rightarrow> bool res) \<Rightarrow> unit res \<Rightarrow> IpSetConfig \<Rightarrow> IpSetManager res" where
  "manager_new interval_flag client cfg =
     (case parse_add_rules (ic_add_rules cfg) of
        Inl e \<Rightarrow> Inl e
      | Inr rules \<Rightarrow>
          (case client of
             Inl e \<Rightarrow> Inl e
           | Inr _ \<Rightarrow> Inr
               \<lparr>im_add_rules = rules,
                im_interval_nft_sets = {s \<in> set (map (snd \<circ> snd) rules).
                  (case s of NftSet _ _ _ _ \<Rightarrow> interval_flag s = Inr True | IpSet _ _ \<Rightarrow> False)},
                im_warned = (False, False), im_dropped_count = 0,
                im_add_tx = (if rules = [] then NoChannel else Queue [])\<rparr>))"

definition filter_set :: "IpSetManager \<Rightarrow> nat \<Rightarrow> nat \<Rightarrow> SetName option" where
  "filter_set m r f = map_option (snd \<circ> snd) (find (\<lambda>(r', f', _). r' = r \<and> f' = f) (im_add_rules m))"

definition add_ip :: "SetName \<Rightarrow> IpAddr \<Rightarrow> IpSetManager \<Rightarrow> IpSetManager" where
  "add_ip s ip m =
     (if is_special_use ip then m
      else case im_add_tx m of
             NoChannel \<Rightarrow> m
           | Disconnected \<Rightarrow> m\<lparr>im_warned := (fst (im_warned m), True)\<rparr>
           | Queue q \<Rightarrow>
               if length q < ADD_QUEUE_SIZE
               then m\<lparr>im_add_tx := Queue (q @ [\<lparr>aj_set = s, aj_ip = ip, aj_interval = s \<in> im_interval_nft_sets m\<rparr>])\<rparr>
               else m\<lparr>im_dropped_count := im_dropped_count m + 1, im_warned := (True, snd (im_warned m))\<rparr>)"

definition add_ips :: "SetName \<Rightarrow> IpAddr list \<Rightarrow> IpSetManager \<Rightarrow> IpSetManager" where
  "add_ips s ips m = fold (add_ip s) ips m"

definition add_filter_ips :: "nat \<Rightarrow> nat \<Rightarrow> IpAddr list \<Rightarrow> IpSetManager \<Rightarrow> IpSetManager" where
  "add_filter_ips r f ips m = (case filter_set m r f of Some s \<Rightarrow> add_ips s ips m | None \<Rightarrow> m)"

section \<open>The client\<close>

definition MAX_IPS_PER_MESSAGE :: nat where
  "MAX_IPS_PER_MESSAGE = 500"

datatype send_error = IoError | ShortSend

text \<open>The socket: the next sequence number, and the messages sent so far, which a new socket keeps.\<close>

record NetfilterClient =
  nc_seq :: u32
  nc_sent :: "NetfilterRequest list"

definition client_new :: NetfilterClient where
  "client_new = \<lparr>nc_seq = 1, nc_sent = []\<rparr>"

definition reopened :: "NetfilterClient \<Rightarrow> NetfilterClient" where
  "reopened c = c\<lparr>nc_seq := nc_seq client_new\<rparr>"

definition alloc_seq :: "NetfilterClient \<Rightarrow> u32 \<times> NetfilterClient" where
  "alloc_seq c = (nc_seq c, c\<lparr>nc_seq := max (nc_seq c + 1) 1\<rparr>)"

function chunks :: "nat \<Rightarrow> 'a list \<Rightarrow> 'a list list" where
  "chunks n xs = (if xs = [] \<or> n = 0 then [] else take n xs # chunks n (drop n xs))"
  by pat_completeness auto
termination
  by (relation "measure (\<lambda>(n, xs). length xs)") auto

declare chunks.simps [simp del]

text \<open>The error that is reported is the first.\<close>

definition first_error :: "send_error option \<Rightarrow> send_error option \<Rightarrow> send_error option" where
  "first_error a b = (case a of Some e \<Rightarrow> Some e | None \<Rightarrow> b)"

type_synonym kernel = "NetfilterRequest \<Rightarrow> u32 \<Rightarrow> send_error option"

fun send_chunked :: "kernel \<Rightarrow> (IpAddr list \<Rightarrow> NetfilterRequest) \<Rightarrow> IpAddr list list \<Rightarrow> NetfilterClient
    \<Rightarrow> NetfilterClient \<times> send_error option" where
  "send_chunked kern request [] c = (c, None)"
| "send_chunked kern request (chunk # rest) c =
     (let (seq, c) = alloc_seq c;
          err = kern (request chunk) seq;
          c = c\<lparr>nc_sent := nc_sent c @ [request chunk]\<rparr>;
          (c, err') = send_chunked kern request rest c
      in (c, first_error err err'))"

fun is_ipv4 :: "IpAddr \<Rightarrow> bool" where
  "is_ipv4 (V4 _) = True"
| "is_ipv4 (V6 _) = False"

definition add_ipset_family :: "kernel \<Rightarrow> bytes \<Rightarrow> u8 option \<Rightarrow> IpAddr list \<Rightarrow> NetfilterClient \<Rightarrow> NetfilterClient \<times> send_error option" where
  "add_ipset_family kern name pmask ips c =
     (if ips = [] then (c, None)
      else send_chunked kern (\<lambda>chunk. IpsetAddBatch name chunk pmask) (chunks MAX_IPS_PER_MESSAGE ips) c)"

definition add_ipset :: "kernel \<Rightarrow> bytes \<Rightarrow> IpAddr list \<Rightarrow> u8 option \<Rightarrow> NetfilterClient \<Rightarrow> NetfilterClient \<times> send_error option" where
  "add_ipset kern name ips pmask c =
     (let (c, e4) = add_ipset_family kern name pmask (filter is_ipv4 ips) c;
          (c, e6) = add_ipset_family kern name pmask (filter (\<lambda>ip. \<not> is_ipv4 ip) ips) c
      in (c, first_error e4 e6))"

definition add_many :: "kernel \<Rightarrow> SetName \<Rightarrow> IpAddr list \<Rightarrow> bool \<Rightarrow> NetfilterClient \<Rightarrow> NetfilterClient \<times> send_error option" where
  "add_many kern s ips interval c =
     (if ips = [] then (c, None)
      else case s of
             IpSet name pmask \<Rightarrow> add_ipset kern name ips pmask c
           | NftSet family table nft pmask \<Rightarrow>
               send_chunked kern (\<lambda>chunk. NftSetAdd family table nft chunk pmask interval) (chunks MAX_IPS_PER_MESSAGE ips) c)"

definition query_nft_interval_flag :: "endian \<Rightarrow> RecvMsg res option \<Rightarrow> bool res" where
  "query_nft_interval_flag e reply =
     (case reply of
        None \<Rightarrow> Inr False
      | Some (Inl err) \<Rightarrow> Inl err
      | Some (Inr msg) \<Rightarrow>
          (case decode_nft_set_flags e (rm_msg_type msg) (rm_data msg) of
             Inl err \<Rightarrow> Inl err
           | Inr flags \<Rightarrow> Inr (flags AND NFT_SET_INTERVAL \<noteq> 0)))"

section \<open>The worker\<close>

text \<open>The derived order of names and of addresses: constructors in their order, then fields.\<close>

fun family_rank :: "NftFamily \<Rightarrow> nat" where
  "family_rank Inet = 0"
| "family_rank Ip = 1"
| "family_rank Ip6 = 2"
| "family_rank Arp = 3"
| "family_rank Bridge = 4"
| "family_rank Netdev = 5"

fun set_key :: "SetName \<Rightarrow> nat \<times> nat \<times> bytes \<times> bytes \<times> u8 option" where
  "set_key (IpSet name m) = (0, 0, name, [], m)"
| "set_key (NftSet family table s m) = (1, family_rank family, table, s, m)"

fun ip_key :: "IpAddr \<Rightarrow> nat \<times> nat" where
  "ip_key (V4 a) = (0, unat a)"
| "ip_key (V6 a) = (1, unat a)"

definition job_key :: "AddJob \<Rightarrow> (nat \<times> nat \<times> bytes \<times> bytes \<times> u8 option) \<times> (nat \<times> nat)" where
  "job_key j = (set_key (aj_set j), ip_key (aj_ip j))"

fun dedup_jobs :: "AddJob list \<Rightarrow> AddJob list" where
  "dedup_jobs (a # b # js) =
     (if aj_set a = aj_set b \<and> aj_ip a = aj_ip b then dedup_jobs (a # js) else a # dedup_jobs (b # js))"
| "dedup_jobs js = js"

record pass_state =
  ps_client :: NetfilterClient
  ps_need_reconnect :: bool
  ps_retained :: "AddJob list"
  ps_error :: bool

function add_runs :: "kernel \<Rightarrow> AddJob list \<Rightarrow> pass_state \<Rightarrow> pass_state" where
  "add_runs kern [] st = st"
| "add_runs kern (j # js) st =
     (let run = j # takeWhile (\<lambda>k. aj_set k = aj_set j) js;
          rest = dropWhile (\<lambda>k. aj_set k = aj_set j) js
      in if ps_need_reconnect st then add_runs kern rest (st\<lparr>ps_retained := ps_retained st @ run\<rparr>)
         else
           (let (c, err) = add_many kern (aj_set j) (map aj_ip run) (aj_interval j) (ps_client st);
                st = st\<lparr>ps_client := c\<rparr>
            in case err of
                 None \<Rightarrow> add_runs kern rest st
               | Some IoError \<Rightarrow>
                   add_runs kern rest (st\<lparr>ps_need_reconnect := True, ps_retained := ps_retained st @ run, ps_error := True\<rparr>)
               | Some ShortSend \<Rightarrow> add_runs kern rest (st\<lparr>ps_error := True\<rparr>)))"
  by pat_completeness auto
termination
  by (relation "measure (\<lambda>(_, js, _). length js)") (auto simp: length_dropWhile_le less_Suc_eq_le)

text \<open>
  One turn of the worker's loop: it blocks until the channel holds a job, takes all of them
  with what it retained, and keeps what has to be sent again.
\<close>

record worker =
  wk_batch :: "AddJob list"
  wk_client :: NetfilterClient
  wk_dropped :: u64

definition add_pass :: "kernel \<Rightarrow> AddJob list \<Rightarrow> worker \<Rightarrow> worker \<times> bool" where
  "add_pass kern jobs w =
     (if jobs = [] then (w, False)
      else
        (let batch = dedup_jobs (sort_key job_key (wk_batch w @ jobs));
             st = add_runs kern batch \<lparr>ps_client = wk_client w, ps_need_reconnect = False, ps_retained = [], ps_error = False\<rparr>;
             overflow = length (ps_retained st) - ADD_QUEUE_SIZE
         in (\<lparr>wk_batch = take ADD_QUEUE_SIZE (ps_retained st),
              wk_client = (if ps_need_reconnect st then reopened (ps_client st) else ps_client st),
              wk_dropped = wk_dropped w + of_nat overflow\<rparr>, ps_need_reconnect st)))"

section \<open>Addresses reach their set\<close>

definition target :: "AddJob \<Rightarrow> SetName \<times> IpAddr" where
  "target j = (aj_set j, aj_ip j)"

fun request_targets :: "NetfilterRequest \<Rightarrow> (SetName \<times> IpAddr) set" where
  "request_targets (IpsetAddBatch name ips m) = {IpSet name m} \<times> set ips"
| "request_targets (NftSetAdd family table nft ips m _) = {NftSet family table nft m} \<times> set ips"
| "request_targets (NftSetGetMeta _ _ _) = {}"

fun request_size :: "NetfilterRequest \<Rightarrow> nat" where
  "request_size (IpsetAddBatch _ ips _) = length ips"
| "request_size (NftSetAdd _ _ _ ips _ _) = length ips"
| "request_size (NftSetGetMeta _ _ _) = 0"

abbreviation fits :: "NetfilterRequest list \<Rightarrow> bool" where
  "fits rqs \<equiv> list_all (\<lambda>rq. request_size rq \<le> MAX_IPS_PER_MESSAGE) rqs"

abbreviation requests :: "NetfilterRequest list \<Rightarrow> (SetName \<times> IpAddr) set" where
  "requests rqs \<equiv> \<Union> (request_targets ` set rqs)"

lemma concat_chunks: "0 < n \<Longrightarrow> concat (chunks n xs) = xs"
  by (induction n xs rule: chunks.induct) (simp add: chunks.simps [of n xs for n xs])

lemma chunks_fit: "0 < n \<Longrightarrow> list_all (\<lambda>c. length c \<le> n) (chunks n xs)"
  by (induction n xs rule: chunks.induct) (simp add: chunks.simps [of n xs for n xs])

lemma send_chunked_sent: "nc_sent (fst (send_chunked kern request cs c)) = nc_sent c @ map request cs"
  by (induction cs arbitrary: c) (simp_all add: alloc_seq_def Let_def split_beta)

lemma chunked_requests:
  assumes "\<And>ips. request_targets (request ips) = {s} \<times> set ips" "\<And>ips. request_size (request ips) = length ips"
  shows "requests (map request (chunks MAX_IPS_PER_MESSAGE ips)) = {s} \<times> set ips"
    "fits (map request (chunks MAX_IPS_PER_MESSAGE ips))"
proof -
  have "0 < MAX_IPS_PER_MESSAGE" by (simp add: MAX_IPS_PER_MESSAGE_def)
  note c = concat_chunks [OF this, of ips] chunks_fit [OF this, of ips]
  have "requests (map request (chunks MAX_IPS_PER_MESSAGE ips)) = {s} \<times> set (concat (chunks MAX_IPS_PER_MESSAGE ips))"
    by (auto simp: assms(1))
  then show "requests (map request (chunks MAX_IPS_PER_MESSAGE ips)) = {s} \<times> set ips" by (simp only: c(1))
  show "fits (map request (chunks MAX_IPS_PER_MESSAGE ips))" using c(2) by (simp add: list_all_iff assms(2))
qed

lemma add_ipset_family_sent:
  "\<exists>new. nc_sent (fst (add_ipset_family kern name m ips c)) = nc_sent c @ new \<and> requests new = {IpSet name m} \<times> set ips \<and> fits new"
  using chunked_requests [of "\<lambda>chunk. IpsetAddBatch name chunk m" "IpSet name m" ips]
  by (cases "ips = []") (auto simp: add_ipset_family_def send_chunked_sent)

lemma add_many_sent:
  "\<exists>new. nc_sent (fst (add_many kern s ips interval c)) = nc_sent c @ new \<and> requests new = {s} \<times> set ips \<and> fits new"
proof (cases s)
  case (IpSet name m)
  obtain c4 e4 where c4: "add_ipset_family kern name m (filter is_ipv4 ips) c = (c4, e4)" by fastforce
  obtain n4 where n4: "nc_sent c4 = nc_sent c @ n4" "requests n4 = {s} \<times> set (filter is_ipv4 ips)" "fits n4"
    using add_ipset_family_sent [of kern name m "filter is_ipv4 ips" c] by (auto simp: c4 IpSet)
  obtain n6 where n6: "nc_sent (fst (add_ipset_family kern name m (filter (\<lambda>ip. \<not> is_ipv4 ip) ips) c4)) = nc_sent c4 @ n6"
    "requests n6 = {s} \<times> set (filter (\<lambda>ip. \<not> is_ipv4 ip) ips)" "fits n6"
    using add_ipset_family_sent [of kern name m "filter (\<lambda>ip. \<not> is_ipv4 ip) ips" c4] by (auto simp: IpSet)
  have "requests (n4 @ n6) = {s} \<times> set ips" using n4(2) n6(2) by auto
  with n4 n6 show ?thesis
    by (cases "ips = []") (auto simp: add_many_def add_ipset_def IpSet c4 Let_def split_beta intro!: exI [of _ "n4 @ n6"])
next
  case (NftSet family table nft m)
  show ?thesis
    using chunked_requests [of "\<lambda>chunk. NftSetAdd family table nft chunk m interval" s ips]
    by (cases "ips = []") (auto simp: add_many_def NftSet send_chunked_sent)
qed

lemma run_targets:
  "target ` set (j # takeWhile (\<lambda>k. aj_set k = aj_set j) js) =
     {aj_set j} \<times> set (map aj_ip (j # takeWhile (\<lambda>k. aj_set k = aj_set j) js))"
proof -
  let ?run = "j # takeWhile (\<lambda>k. aj_set k = aj_set j) js"
  have "\<forall>k\<in>set ?run. target k = (aj_set j, aj_ip k)" by (auto simp: target_def dest: set_takeWhileD)
  then have "target ` set ?run = (\<lambda>k. (aj_set j, aj_ip k)) ` set ?run" by (meson image_cong)
  then show ?thesis by auto
qed

lemma take_drop_While_set: "set (takeWhile P js) \<union> set (dropWhile P js) = set js"
  by (metis set_append takeWhile_dropWhile_id)

text \<open>
  Between two points of a pass, jobs with the given targets were sent in new messages or
  retained, and retained only if the socket is to be reopened.
\<close>

definition carried :: "(SetName \<times> IpAddr) set \<Rightarrow> pass_state \<Rightarrow> pass_state \<Rightarrow> bool" where
  "carried T st st' \<longleftrightarrow>
     (\<exists>new ret. nc_sent (ps_client st') = nc_sent (ps_client st) @ new \<and> ps_retained st' = ps_retained st @ ret \<and>
        target ` set ret \<union> requests new = T \<and> fits new \<and> (ps_need_reconnect st' \<or> \<not> ps_need_reconnect st \<and> ret = []))"

lemma carried_trans:
  assumes "carried T st st1" "carried U st1 st2"
  shows "carried (T \<union> U) st st2"
proof -
  obtain n1 r1 n2 r2 where "nc_sent (ps_client st1) = nc_sent (ps_client st) @ n1" "ps_retained st1 = ps_retained st @ r1"
    "target ` set r1 \<union> requests n1 = T" "fits n1" "ps_need_reconnect st1 \<or> \<not> ps_need_reconnect st \<and> r1 = []"
    "nc_sent (ps_client st2) = nc_sent (ps_client st1) @ n2" "ps_retained st2 = ps_retained st1 @ r2"
    "target ` set r2 \<union> requests n2 = U" "fits n2" "ps_need_reconnect st2 \<or> \<not> ps_need_reconnect st1 \<and> r2 = []"
    using assms by (auto simp: carried_def)
  then show ?thesis unfolding carried_def by (intro exI [of _ "n1 @ n2"] exI [of _ "r1 @ r2"]) auto
qed

lemma carried_retained:
  "ps_need_reconnect st' \<Longrightarrow> ps_client st' = ps_client st \<Longrightarrow> ps_retained st' = ps_retained st @ run \<Longrightarrow> carried (target ` set run) st st'"
  unfolding carried_def by (intro exI [of _ "[]"] exI [of _ run]) simp

lemma carried_sent:
  assumes "nc_sent (ps_client st') = nc_sent (ps_client st) @ new" "requests new = target ` set run" "fits new"
    "ps_need_reconnect st' \<and> ps_retained st' = ps_retained st @ run \<or>
     \<not> ps_need_reconnect st \<and> ps_retained st' = ps_retained st"
  shows "carried (target ` set run) st st'"
  using assms(4)
proof
  assume "ps_need_reconnect st' \<and> ps_retained st' = ps_retained st @ run"
  then show ?thesis unfolding carried_def using assms by (intro exI [of _ new] exI [of _ run]) simp
next
  assume "\<not> ps_need_reconnect st \<and> ps_retained st' = ps_retained st"
  then show ?thesis unfolding carried_def using assms by (intro exI [of _ new] exI [of _ "[]"]) simp
qed

lemma add_runs_carried: "carried (target ` set js) st (add_runs kern js st)"
proof (induction kern js st rule: add_runs.induct)
  case (1 kern st)
  show ?case using carried_sent [of st st "[]" "[]"] by (auto simp: carried_def)
next
  case (2 kern j js st)
  let ?run = "j # takeWhile (\<lambda>k. aj_set k = aj_set j) js"
  let ?rest = "dropWhile (\<lambda>k. aj_set k = aj_set j) js"
  have js: "target ` set (j # js) = target ` set ?run \<union> target ` set ?rest"
    using take_drop_While_set [of "\<lambda>k. aj_set k = aj_set j" js] by auto
  show ?case
  proof (cases "ps_need_reconnect st")
    case True
    have "carried (target ` set ?run) st (st\<lparr>ps_retained := ps_retained st @ ?run\<rparr>)"
      by (rule carried_retained) (simp_all add: True)
    with "2.IH"(1) [OF refl refl True] show ?thesis unfolding js by (simp add: True Let_def carried_trans del: list.set)
  next
    case False
    obtain c err where c: "add_many kern (aj_set j) (map aj_ip ?run) (aj_interval j) (ps_client st) = (c, err)" by fastforce
    obtain new where new: "nc_sent c = nc_sent (ps_client st) @ new" "requests new = target ` set ?run" "fits new"
      using add_many_sent [of kern "aj_set j" "map aj_ip ?run" "aj_interval j" "ps_client st"] unfolding run_targets c by auto
    have sent: "carried (target ` set ?run) st st'"
      if "ps_client st' = c" "ps_need_reconnect st' \<and> ps_retained st' = ps_retained st @ ?run \<or> ps_retained st' = ps_retained st" for st'
      by (rule carried_sent [of _ _ new]) (use that new False in auto)
    show ?thesis
    proof (cases err)
      case None
      have "add_runs kern (j # js) st = add_runs kern ?rest (st\<lparr>ps_client := c\<rparr>)"
        using c by (simp add: False Let_def None)
      then show ?thesis unfolding js
        using carried_trans [OF sent "2.IH"(2) [OF refl refl False c [symmetric] refl refl None]] by simp
    next
      case (Some e)
      show ?thesis
      proof (cases e)
        case IoError
        have "add_runs kern (j # js) st = add_runs kern ?rest (st\<lparr>ps_client := c, ps_need_reconnect := True,
            ps_retained := ps_retained st @ ?run, ps_error := True\<rparr>)"
          using c by (simp add: False Let_def Some IoError)
        then show ?thesis unfolding js
          using carried_trans [OF sent "2.IH"(3) [OF refl refl False c [symmetric] refl refl Some IoError]] by simp
      next
        case ShortSend
        have "add_runs kern (j # js) st = add_runs kern ?rest (st\<lparr>ps_client := c, ps_error := True\<rparr>)"
          using c by (simp add: False Let_def Some ShortSend)
        then show ?thesis unfolding js
          using carried_trans [OF sent "2.IH"(4) [OF refl refl False c [symmetric] refl refl Some ShortSend]] by simp
      qed
    qed
  qed
qed

lemma dedup_targets: "target ` set (dedup_jobs js) = target ` set js"
proof (induction js rule: dedup_jobs.induct)
  case (1 a b js)
  then show ?case by (cases "aj_set a = aj_set b \<and> aj_ip a = aj_ip b") (auto simp: target_def)
qed simp_all

text \<open>What the manager queues: the addresses that are not special, as far as there is room.\<close>

definition fresh_ips :: "AddJob list \<Rightarrow> IpAddr list \<Rightarrow> IpAddr list" where
  "fresh_ips q ips = take (ADD_QUEUE_SIZE - length q) (filter (\<lambda>ip. \<not> is_special_use ip) ips)"

lemma add_ips_exact:
  assumes "im_add_tx m = Queue q"
  shows "im_add_tx (add_ips s ips m) =
       Queue (q @ map (\<lambda>ip. \<lparr>aj_set = s, aj_ip = ip, aj_interval = s \<in> im_interval_nft_sets m\<rparr>) (fresh_ips q ips)) \<and>
     im_dropped_count (add_ips s ips m) =
       im_dropped_count m + of_nat (length (filter (\<lambda>ip. \<not> is_special_use ip) ips) - length (fresh_ips q ips))"
  using assms
proof (induction ips arbitrary: m q)
  case Nil
  then show ?case by (simp add: add_ips_def fresh_ips_def)
next
  case (Cons ip ips)
  consider "is_special_use ip" | "\<not> is_special_use ip" "length q < ADD_QUEUE_SIZE" | "\<not> is_special_use ip" "\<not> length q < ADD_QUEUE_SIZE"
    by blast
  then show ?case
  proof cases
    case 1
    then show ?thesis using Cons by (simp add: add_ips_def add_ip_def fresh_ips_def)
  next
    case 2
    then obtain k where "ADD_QUEUE_SIZE - length q = Suc k" "ADD_QUEUE_SIZE - Suc (length q) = k" by (metis Suc_diff_Suc)
    with 2 Cons.prems show ?thesis
      using Cons.IH [of "add_ip s ip m" "q @ [\<lparr>aj_set = s, aj_ip = ip, aj_interval = s \<in> im_interval_nft_sets m\<rparr>]"]
      by (simp add: add_ips_def add_ip_def fresh_ips_def)
  next
    case 3
    with Cons.prems show ?thesis
      using Cons.IH [of "add_ip s ip m" q] by (simp add: add_ips_def add_ip_def fresh_ips_def Suc_diff_le add.assoc)
  qed
qed


definition sample_manager :: IpSetManager where
  "sample_manager = \<lparr>im_add_rules = [(0, 0, IpSet [97] (Some 24))], im_interval_nft_sets = {}, im_warned = (False, False),
     im_dropped_count = 0, im_add_tx = Queue []\<rparr>"

definition sample_worker :: worker where
  "sample_worker = \<lparr>wk_batch = [], wk_client = client_new, wk_dropped = 0\<rparr>"


end
