(* ===== verification/Querylog.thy ===== *)
theory Querylog
  imports Config "HOL-Library.Sublist"
begin

text \<open>
  \<open>src/querylog/mod.rs\<close>, \<open>src/querylog/ring.rs\<close> and the loops of \<open>src/querylog/worker.rs\<close> that feed
  the rings: counters, the sharded channels of events, the ring of recent events and the
  rings of statistics. A channel is the list of events that were sent and not yet received;
  whether it takes another event is an argument of the send. The id of the calling thread is
  an argument too. Counters wrap at \<open>2 ^ 64\<close>.
\<close>

section \<open>Events and counters\<close>

record QueryLogEvent =
  ev_seq :: u64
  ev_unix_micros :: u64
  ev_client :: IpAddr
  ev_client_port :: u16
  ev_qname :: bytes
  ev_qtype :: u16
  ev_rcode :: u8
  ev_elapsed_us :: u64
  ev_response_bytes :: u32
  ev_source :: string
  ev_upstream :: "bytes option"

type_synonym ShardedCounter = "u64 list"

definition sharded_new :: "nat \<Rightarrow> ShardedCounter" where
  "sharded_new shards = replicate (max shards 1) 0"

text \<open>The index is taken modulo the number of slots, which panics for none.\<close>

definition thread_shard :: "nat \<Rightarrow> 'a list \<Rightarrow> nat run" where
  "thread_shard tid slots = (if slots = [] then None else Some (tid mod length slots))"

definition sharded_fetch_add :: "nat \<Rightarrow> u64 \<Rightarrow> ShardedCounter \<Rightarrow> ShardedCounter run" where
  "sharded_fetch_add tid v slots = do { i \<leftarrow> thread_shard tid slots; Some (slots[i := slots ! i + v]) }"

definition sharded_load :: "ShardedCounter \<Rightarrow> u64" where
  "sharded_load slots = sum_list slots"

record QueryLogCounters =
  qc_queries_udp :: ShardedCounter
  qc_queries_tcp :: ShardedCounter
  qc_cache_hits :: ShardedCounter
  qc_upstream_ok :: u64
  qc_upstream_err :: u64
  qc_inflight_queued :: u64
  qc_inflight_drops :: u64
  qc_upstream_inflight_drops :: u64
  qc_udp_truncated :: u64
  qc_udp_send_drops :: u64
  qc_udp_send_errors :: u64
  qc_udp_rx_overflow :: u64
  qc_udp_rmem_pct_acc :: u32
  qc_udp_rmem_pct :: u32
  qc_udp_recv_lat_us_acc :: u32
  qc_udp_recv_lat_us :: u32
  qc_rtt_sum_us :: u64
  qc_rtt_count :: u64
  qc_singleflight_hits :: u64
  qc_hedged_queries :: u64
  qc_filtered :: u64
  qc_events_enqueued :: u64
  qc_events_processed :: u64
  qc_events_dropped_full :: u64
  qc_events_dropped_closed :: u64
  qc_queue_high_watermark :: u64
  qc_ring_evictions :: u64
  qc_file_write_errors :: u64

definition counters_new :: "nat \<Rightarrow> QueryLogCounters" where
  "counters_new shards =
     \<lparr>qc_queries_udp = sharded_new shards, qc_queries_tcp = sharded_new shards, qc_cache_hits = sharded_new shards,
      qc_upstream_ok = 0, qc_upstream_err = 0, qc_inflight_queued = 0, qc_inflight_drops = 0, qc_upstream_inflight_drops = 0,
      qc_udp_truncated = 0, qc_udp_send_drops = 0, qc_udp_send_errors = 0, qc_udp_rx_overflow = 0, qc_udp_rmem_pct_acc = 0,
      qc_udp_rmem_pct = 0, qc_udp_recv_lat_us_acc = 0, qc_udp_recv_lat_us = 0, qc_rtt_sum_us = 0, qc_rtt_count = 0,
      qc_singleflight_hits = 0, qc_hedged_queries = 0, qc_filtered = 0, qc_events_enqueued = 0, qc_events_processed = 0,
      qc_events_dropped_full = 0, qc_events_dropped_closed = 0, qc_queue_high_watermark = 0, qc_ring_evictions = 0,
      qc_file_write_errors = 0\<rparr>"

definition queries_total :: "QueryLogCounters \<Rightarrow> u64" where
  "queries_total c = sharded_load (qc_queries_udp c) + sharded_load (qc_queries_tcp c)"

section \<open>The handle\<close>

record QueryLogHandle =
  ql_counters :: QueryLogCounters
  ql_seq :: u64
  ql_txs :: "QueryLogEvent list list option"

text \<open>What a channel says to the reservation of a slot, with the depth of its queue after the send.\<close>

datatype reserve = Reserved u64 | QueueFull | QueueClosed

definition next_seq :: "QueryLogHandle \<Rightarrow> u64 \<times> QueryLogHandle" where
  "next_seq ql = (ql_seq ql, ql\<lparr>ql_seq := ql_seq ql + 1\<rparr>)"

abbreviation on_counters :: "(QueryLogCounters \<Rightarrow> QueryLogCounters) \<Rightarrow> QueryLogHandle \<Rightarrow> QueryLogHandle" where
  "on_counters f ql \<equiv> ql\<lparr>ql_counters := f (ql_counters ql)\<rparr>"

definition try_emit_with :: "nat \<Rightarrow> reserve \<Rightarrow> (u64 \<Rightarrow> QueryLogEvent) \<Rightarrow> QueryLogHandle \<Rightarrow> QueryLogHandle run" where
  "try_emit_with tid slot build ql =
     (case ql_txs ql of
        None \<Rightarrow> Some ql
      | Some txs \<Rightarrow> do {
          i \<leftarrow> thread_shard tid txs;
          Some (case slot of
              Reserved depth \<Rightarrow>
                (let (seq, ql) = next_seq ql;
                     ql = ql\<lparr>ql_txs := Some (txs[i := txs ! i @ [build seq]])\<rparr>
                 in on_counters (\<lambda>c. c\<lparr>qc_queue_high_watermark := max (qc_queue_high_watermark c) depth,
                      qc_events_enqueued := qc_events_enqueued c + 1\<rparr>) ql)
            | QueueFull \<Rightarrow> on_counters (\<lambda>c. c\<lparr>qc_events_dropped_full := qc_events_dropped_full c + 1\<rparr>) ql
            | QueueClosed \<Rightarrow> on_counters (\<lambda>c. c\<lparr>qc_events_dropped_closed := qc_events_dropped_closed c + 1\<rparr>) ql) })"

definition collecting :: "QueryLogHandle \<Rightarrow> bool" where
  "collecting ql \<longleftrightarrow> ql_txs ql \<noteq> None"

definition queue_depth :: "QueryLogHandle \<Rightarrow> nat" where
  "queue_depth ql = (case ql_txs ql of None \<Rightarrow> 0 | Some txs \<Rightarrow> sum_list (map length txs))"

section \<open>Construction\<close>

record QueryLogConfig =
  qlc_enabled :: bool
  qlc_memory :: nat
  qlc_channel :: nat
  qlc_shards :: nat
  qlc_file :: "DashboardFileConfig option"

record EventRing =
  er_buf :: "QueryLogEvent list option"
  er_capacity :: nat

definition ring_new :: "nat \<Rightarrow> EventRing" where
  "ring_new capacity = \<lparr>er_buf = Some [], er_capacity = capacity\<rparr>"

text \<open>The number of shards, and the capacity of each of their channels.\<close>

definition channel_shape :: "QueryLogConfig \<Rightarrow> nat \<times> nat" where
  "channel_shape cfg =
     (let shards = max 1 (min (qlc_shards cfg) 32) in (shards, max (max (qlc_channel cfg) 64 div shards) 16))"

definition querylog_build :: "QueryLogConfig \<Rightarrow> QueryLogHandle \<times> EventRing option" where
  "querylog_build cfg =
     (let counters = counters_new (qlc_shards cfg)
      in if qlc_enabled cfg \<and> (0 < qlc_memory cfg \<or> qlc_file cfg \<noteq> None)
         then (\<lparr>ql_counters = counters, ql_seq = 0, ql_txs = Some (replicate (fst (channel_shape cfg)) [])\<rparr>,
               Some (ring_new (qlc_memory cfg)))
         else (\<lparr>ql_counters = counters, ql_seq = 0, ql_txs = None\<rparr>, None))"

section \<open>The ring of events\<close>

fun push_events :: "nat \<Rightarrow> QueryLogEvent list \<Rightarrow> QueryLogEvent list \<Rightarrow> u64 \<Rightarrow> QueryLogEvent list \<times> u64" where
  "push_events cap [] buf evicted = (buf, evicted)"
| "push_events cap (ev # evs) buf evicted =
     (if cap \<le> length buf then push_events cap evs (tl buf @ [ev]) (evicted + 1)
      else push_events cap evs (buf @ [ev]) evicted)"

text \<open>The ring after a batch, the number of evictions, and what is broadcast to subscribers.\<close>

definition push_batch :: "bool \<Rightarrow> QueryLogEvent list \<Rightarrow> EventRing \<Rightarrow> EventRing \<times> u64 \<times> QueryLogEvent list" where
  "push_batch subscribed events ring =
     (if er_capacity ring = 0 \<or> events = [] then (ring, 0, [])
      else case er_buf ring of
             None \<Rightarrow> (ring, 0, [])
           | Some buf \<Rightarrow>
               (let (buf, evicted) = push_events (er_capacity ring) events buf 0
                in (ring\<lparr>er_buf := Some buf\<rparr>, evicted, if subscribed then events else [])))"

definition str_contains :: "bytes \<Rightarrow> bytes \<Rightarrow> bool" where
  "str_contains s pat \<longleftrightarrow> (\<exists>i\<in>set [0..<Suc (length s)]. starts_with (drop i s) pat)"

definition ring_matches :: "u64 option \<Rightarrow> u64 option \<Rightarrow> bytes option \<Rightarrow> QueryLogEvent \<Rightarrow> bool" where
  "ring_matches before_seq after_seq filt ev \<longleftrightarrow>
     (case before_seq of Some seq \<Rightarrow> ev_seq ev < seq | None \<Rightarrow> True) \<and>
     (case after_seq of Some seq \<Rightarrow> seq < ev_seq ev | None \<Rightarrow> True) \<and>
     (case filt of Some f \<Rightarrow> f = [] \<or> str_contains (ev_qname ev) f | None \<Rightarrow> True)"

definition ring_query :: "u64 option \<Rightarrow> u64 option \<Rightarrow> nat \<Rightarrow> bytes option \<Rightarrow> EventRing \<Rightarrow> QueryLogEvent list" where
  "ring_query before_seq after_seq limit filt ring =
     (case er_buf ring of
        None \<Rightarrow> []
      | Some buf \<Rightarrow> take (max 1 (min limit 1000)) (filter (ring_matches before_seq after_seq filt) (rev buf)))"

definition ring_clear :: "EventRing \<Rightarrow> EventRing" where
  "ring_clear ring = (case er_buf ring of None \<Rightarrow> ring | Some _ \<Rightarrow> ring\<lparr>er_buf := Some []\<rparr>)"

definition ring_len :: "EventRing \<Rightarrow> nat" where
  "ring_len ring = (case er_buf ring of None \<Rightarrow> 0 | Some buf \<Rightarrow> length buf)"

definition ring_enabled :: "EventRing \<Rightarrow> bool" where
  "ring_enabled ring \<longleftrightarrow> 0 < er_capacity ring"

section \<open>The rings of statistics\<close>

definition QPS_RING_LEN :: nat where
  "QPS_RING_LEN = 3600"

definition qps_push :: "u64 \<Rightarrow> u64 list \<Rightarrow> u64 list" where
  "qps_push n data = (if length data = QPS_RING_LEN then tl data else data) @ [n]"

definition qps_snapshot :: "nat \<Rightarrow> u64 list \<Rightarrow> u64 list" where
  "qps_snapshot n data = (let k = min (min n QPS_RING_LEN) (length data) in drop (length data - k) data)"

record StatsSample =
  sm_unix_secs :: u64
  sm_queries :: u64
  sm_cache_hits :: u64
  sm_upstream_ok :: u64
  sm_upstream_err :: u64
  sm_filtered :: u64

definition sample_default :: StatsSample where
  "sample_default = \<lparr>sm_unix_secs = 0, sm_queries = 0, sm_cache_hits = 0, sm_upstream_ok = 0, sm_upstream_err = 0, sm_filtered = 0\<rparr>"

definition STATS_SAMPLE_SECS :: nat where
  "STATS_SAMPLE_SECS = 60"

definition STATS_RING_LEN :: nat where
  "STATS_RING_LEN = 24 * 60"

definition stats_push :: "StatsSample \<Rightarrow> StatsSample list \<Rightarrow> StatsSample list" where
  "stats_push s data = (if length data = STATS_RING_LEN then tl data else data) @ [s]"

definition add_sample :: "StatsSample \<Rightarrow> StatsSample \<Rightarrow> StatsSample" where
  "add_sample s acc =
     acc\<lparr>sm_queries := sm_queries acc + sm_queries s, sm_cache_hits := sm_cache_hits acc + sm_cache_hits s,
         sm_upstream_ok := sm_upstream_ok acc + sm_upstream_ok s, sm_upstream_err := sm_upstream_err acc + sm_upstream_err s,
         sm_filtered := sm_filtered acc + sm_filtered s\<rparr>"

definition window :: "nat \<Rightarrow> StatsSample list \<Rightarrow> StatsSample list" where
  "window seconds data = drop (length data - min (min (seconds div STATS_SAMPLE_SECS) STATS_RING_LEN) (length data)) data"

definition aggregate :: "nat \<Rightarrow> StatsSample list \<Rightarrow> StatsSample \<times> u64" where
  "aggregate seconds data =
     (let w = window seconds data in (fold add_sample w sample_default, case w of [] \<Rightarrow> 0 | s # _ \<Rightarrow> sm_unix_secs s))"

text \<open>One bucket of the window, by the bounds of its slice.\<close>

definition bucket :: "StatsSample list \<Rightarrow> nat \<Rightarrow> nat \<Rightarrow> StatsSample run" where
  "bucket snaps a b = do {
     s \<leftarrow> slice snaps a b;
     let agg = fold add_sample s sample_default;
     if a < b then do { first \<leftarrow> idx snaps a; Some (agg\<lparr>sm_unix_secs := sm_unix_secs first\<rparr>) } else Some agg }"

fun buckets_from :: "StatsSample list \<Rightarrow> nat \<Rightarrow> nat \<Rightarrow> nat \<Rightarrow> StatsSample list run" where
  "buckets_from snaps buckets b 0 = Some []"
| "buckets_from snaps buckets b (Suc k) = do {
     let n = length snaps;
     agg \<leftarrow> bucket snaps (b * n div buckets) (if b + 1 = buckets then n else (b + 1) * n div buckets);
     rest \<leftarrow> buckets_from snaps buckets (b + 1) k;
     Some (agg # rest) }"

definition bucket_aggregate :: "nat \<Rightarrow> nat \<Rightarrow> StatsSample list \<Rightarrow> StatsSample list run" where
  "bucket_aggregate seconds buckets data =
     (let buckets = max buckets 1; snaps = window seconds data
      in if snaps = [] then Some (replicate buckets sample_default) else buckets_from snaps buckets 0 buckets)"

section \<open>The sampler\<close>

record sampler =
  sa_prev :: StatsSample
  sa_acc :: StatsSample
  sa_ticks :: nat
  sa_qps :: "u64 list"
  sa_stats :: "StatsSample list"

definition totals :: "u64 \<Rightarrow> QueryLogCounters \<Rightarrow> StatsSample" where
  "totals now_secs c =
     \<lparr>sm_unix_secs = now_secs, sm_queries = queries_total c, sm_cache_hits = sharded_load (qc_cache_hits c),
      sm_upstream_ok = qc_upstream_ok c, sm_upstream_err = qc_upstream_err c, sm_filtered = qc_filtered c\<rparr>"

definition delta :: "StatsSample \<Rightarrow> StatsSample \<Rightarrow> StatsSample" where
  "delta cur prev =
     \<lparr>sm_unix_secs = sm_unix_secs cur, sm_queries = saturating_sub (sm_queries cur) (sm_queries prev),
      sm_cache_hits = saturating_sub (sm_cache_hits cur) (sm_cache_hits prev),
      sm_upstream_ok = saturating_sub (sm_upstream_ok cur) (sm_upstream_ok prev),
      sm_upstream_err = saturating_sub (sm_upstream_err cur) (sm_upstream_err prev),
      sm_filtered = saturating_sub (sm_filtered cur) (sm_filtered prev)\<rparr>"

definition sampler_tick :: "u64 \<Rightarrow> QueryLogCounters \<Rightarrow> sampler \<Rightarrow> sampler \<times> QueryLogCounters" where
  "sampler_tick now_secs c sa =
     (let cur = totals now_secs c;
          snap = delta cur (sa_prev sa);
          acc = add_sample snap (sa_acc sa);
          due = STATS_SAMPLE_SECS \<le> sa_ticks sa + 1
      in (\<lparr>sa_prev = cur,
           sa_acc = (if due then sample_default else acc),
           sa_ticks = (if due then 0 else sa_ticks sa + 1),
           sa_qps = qps_push (sm_queries snap) (sa_qps sa),
           sa_stats = (if due then stats_push (acc\<lparr>sm_unix_secs := now_secs\<rparr>) (sa_stats sa) else sa_stats sa)\<rparr>,
          c\<lparr>qc_udp_rmem_pct := qc_udp_rmem_pct_acc c, qc_udp_rmem_pct_acc := 0,
            qc_udp_recv_lat_us := qc_udp_recv_lat_us_acc c, qc_udp_recv_lat_us_acc := 0\<rparr>))"

section \<open>The worker\<close>

text \<open>
  One round over the shards: the channels left, the events taken, whether it stopped because
  the batch is full, and whether it took any.
\<close>

fun drain_round :: "nat \<Rightarrow> nat list \<Rightarrow> QueryLogEvent list list \<Rightarrow> QueryLogEvent list \<Rightarrow> bool
    \<Rightarrow> QueryLogEvent list list \<times> QueryLogEvent list \<times> bool \<times> bool" where
  "drain_round limit [] rxs batch progressed = (rxs, batch, False, progressed)"
| "drain_round limit (i # order) rxs batch progressed =
     (case rxs ! i of
        [] \<Rightarrow> drain_round limit order rxs batch progressed
      | ev # rest \<Rightarrow>
          (let rxs = rxs[i := rest]; batch = batch @ [ev]
           in if limit \<le> length batch then (rxs, batch, True, True) else drain_round limit order rxs batch True))"

definition rotation :: "nat \<Rightarrow> nat \<Rightarrow> nat list" where
  "rotation start n = map (\<lambda>k. (start + k) mod n) [0..<n]"

text \<open>What leaves the channels in some order that respects each of them.\<close>

definition emits :: "QueryLogEvent list list \<Rightarrow> QueryLogEvent list \<Rightarrow> QueryLogEvent list list \<Rightarrow> bool" where
  "emits rxs new rxs' \<longleftrightarrow>
     length rxs' = length rxs \<and> mset (concat rxs) = mset new + mset (concat rxs') \<and>
     (\<forall>out. (\<forall>i<length rxs. subseq (rxs' ! i) out) \<longrightarrow> (\<forall>i<length rxs. subseq (rxs ! i) (new @ out)))"

lemma emits_refl: "emits rxs [] rxs"
  by (simp add: emits_def)

lemma emits_trans: "emits rxs new rxs' \<Longrightarrow> emits rxs' new' rxs'' \<Longrightarrow> emits rxs (new @ new') rxs''"
  unfolding emits_def by (intro conjI allI impI) (simp_all add: ac_simps)

lemma emits_length: "emits rxs new rxs' \<Longrightarrow> length (concat rxs) = length new + length (concat rxs')"
  unfolding emits_def by (metis size_mset size_union)

lemma mset_concat_update:
  "i < length rxs \<Longrightarrow> rxs ! i = ev # rest \<Longrightarrow> mset (concat rxs) = add_mset ev (mset (concat (rxs[i := rest])))"
  by (induction rxs arbitrary: i) (auto simp: nth_Cons split: nat.splits)

lemma emits_one:
  assumes "i < length rxs" "rxs ! i = ev # rest"
  shows "emits rxs [ev] (rxs[i := rest])"
  unfolding emits_def
proof (intro conjI allI impI)
  fix out j
  assume "\<forall>k<length rxs. subseq (rxs[i := rest] ! k) out" "j < length rxs"
  then have "subseq (rxs[i := rest] ! j) out" by blast
  then show "subseq (rxs ! j) ([ev] @ out)" using assms \<open>j < length rxs\<close> by (cases "j = i") (auto simp: list_emb_Cons)
qed (simp_all add: mset_concat_update [OF assms])

lemma drain_round_emits:
  "drain_round limit order rxs batch p = (rxs', batch', full, p') \<Longrightarrow> \<forall>i\<in>set order. i < length rxs \<Longrightarrow>
   \<exists>new. batch' = batch @ new \<and> emits rxs new rxs'"
proof (induction order arbitrary: rxs batch p)
  case Nil
  then show ?case by (auto simp: emits_refl)
next
  case (Cons i order)
  show ?case
  proof (cases "rxs ! i")
    case Nil
    with Cons.IH [of rxs batch p] Cons.prems show ?thesis by simp
  next
    case (Cons ev rest)
    have one: "emits rxs [ev] (rxs[i := rest])" using Cons Cons.prems(2) by (intro emits_one) simp_all
    show ?thesis
    proof (cases "limit \<le> length (batch @ [ev])")
      case True
      with Cons.prems(1) Cons one show ?thesis by (auto simp: Let_def)
    next
      case False
      with Cons.prems(1) Cons have "drain_round limit order (rxs[i := rest]) (batch @ [ev]) True = (rxs', batch', full, p')"
        by (simp add: Let_def)
      then obtain new where "batch' = (batch @ [ev]) @ new" "emits (rxs[i := rest]) new rxs'"
        using Cons.IH Cons.prems(2) by fastforce
      with emits_trans [OF one] show ?thesis by (intro exI [of _ "ev # new"]) fastforce
    qed
  qed
qed

lemma drain_round_limit:
  "drain_round limit order rxs batch p = (rxs', batch', full, p') \<Longrightarrow> length batch < limit \<Longrightarrow>
   length batch' \<le> limit \<and> (full \<longleftrightarrow> length batch' = limit) \<and> (p' \<longleftrightarrow> p \<or> length batch < length batch') \<and> length batch \<le> length batch'"
proof (induction order arbitrary: rxs batch p)
  case (Cons i order)
  show ?case
  proof (cases "rxs ! i")
    case Nil
    with Cons.IH [of rxs batch p] Cons.prems show ?thesis by simp
  next
    case (Cons ev rest)
    with Cons.IH [of "rxs[i := rest]" "batch @ [ev]" True] Cons.prems show ?thesis
      by (cases "limit \<le> length (batch @ [ev])") (auto simp: Let_def)
  qed
qed auto

lemma drain_round_none:
  assumes "drain_round limit order rxs batch p = (rxs', batch, full, p')" "length batch < limit" "i \<in> set order"
  shows "rxs ! i = []"
  using assms
proof (induction order arbitrary: p)
  case (Cons j order)
  show ?case
  proof (cases "rxs ! j")
    case Nil
    with Cons show ?thesis by auto
  next
    case (Cons ev rest)
    with drain_round_limit [of limit order "rxs[j := rest]" "batch @ [ev]" True rxs' batch full p'] Cons.prems(1,2)
    show ?thesis by (cases "limit \<le> length (batch @ [ev])") (auto simp: Let_def)
  qed
qed simp

lemma set_rotation: "0 < n \<Longrightarrow> set (rotation start n) = {..<n}"
proof (intro set_eqI iffI)
  fix i
  assume "0 < n" "i \<in> {..<n}"
  let ?k = "(i + (n - start mod n)) mod n"
  have "(start + ?k) mod n = (start mod n + (i + (n - start mod n))) mod n" by (simp add: mod_simps)
  also have "start mod n + (i + (n - start mod n)) = i + n" using mod_less_divisor [OF \<open>0 < n\<close>, of start] by simp
  finally have "(start + ?k) mod n = i" using \<open>i \<in> {..<n}\<close> by simp
  moreover have "?k < n" using \<open>0 < n\<close> by simp
  ultimately show "i \<in> set (rotation start n)" unfolding rotation_def set_map by (intro rev_image_eqI) auto
qed (auto simp: rotation_def)

function drain_available :: "nat \<Rightarrow> nat \<Rightarrow> QueryLogEvent list list \<Rightarrow> QueryLogEvent list \<Rightarrow> QueryLogEvent list list \<times> QueryLogEvent list" where
  "drain_available limit start rxs batch =
     (if length batch < limit then
        (let (rxs', batch', full, progressed) = drain_round limit (rotation start (length rxs)) rxs batch False
         in if full \<or> \<not> progressed then (rxs', batch') else drain_available limit start rxs' batch')
      else (rxs, batch))"
  by pat_completeness auto
termination
proof (relation "measure (\<lambda>(limit, start, rxs, batch). limit - length batch)", goal_cases)
  case (2 limit start rxs batch x rxs' y batch' z full progressed)
  then show ?case using drain_round_limit [of limit "rotation start (length rxs)" rxs batch False rxs' batch' full progressed] by auto
qed simp

declare drain_available.simps [simp del]

datatype recv_outcome = Batch "QueryLogEvent list" | Closed | Waiting

definition recv_batch :: "bool \<Rightarrow> nat \<Rightarrow> nat \<Rightarrow> QueryLogEvent list list \<Rightarrow> recv_outcome \<times> nat \<times> QueryLogEvent list list" where
  "recv_batch all_closed start limit rxs =
     (case find (\<lambda>i. rxs ! i \<noteq> []) (rotation start (length rxs)) of
        Some i \<Rightarrow>
          (let start' = (i + 1) mod length rxs;
               (rxs', batch) = drain_available limit start' (rxs[i := tl (rxs ! i)]) [hd (rxs ! i)]
           in (Batch batch, start', rxs'))
      | None \<Rightarrow> (if all_closed then Closed else Waiting, start, rxs))"

text \<open>The worker's ring, counters and open segment; writing the segment is an argument.\<close>

record 'fs log_worker =
  lw_ring :: EventRing
  lw_counters :: QueryLogCounters
  lw_file :: "'fs option"

definition process_batch :: "bool \<Rightarrow> ('fs \<Rightarrow> QueryLogEvent list \<Rightarrow> 'fs res) \<Rightarrow> QueryLogEvent list \<Rightarrow> 'fs log_worker \<Rightarrow> 'fs log_worker" where
  "process_batch subscribed write_segment batch lw =
     (let c = (lw_counters lw)\<lparr>qc_events_processed := qc_events_processed (lw_counters lw) + of_nat (length batch)\<rparr>;
          (ring, evicted) = (if ring_enabled (lw_ring lw)
            then (let (r, e, _) = push_batch subscribed batch (lw_ring lw) in (r, e)) else (lw_ring lw, 0));
          c = c\<lparr>qc_ring_evictions := qc_ring_evictions c + evicted\<rparr>
      in case lw_file lw of
           None \<Rightarrow> lw\<lparr>lw_ring := ring, lw_counters := c\<rparr>
         | Some fs \<Rightarrow>
             (case write_segment fs batch of
                Inr fs \<Rightarrow> lw\<lparr>lw_ring := ring, lw_counters := c, lw_file := Some fs\<rparr>
              | Inl _ \<Rightarrow> lw\<lparr>lw_ring := ring, lw_counters := c\<lparr>qc_file_write_errors := qc_file_write_errors c + 1\<rparr>, lw_file := None\<rparr>))"

lemma drain_available_emits:
  "drain_available limit start rxs batch = (rxs', batch') \<Longrightarrow> rxs \<noteq> [] \<Longrightarrow> \<exists>new. batch' = batch @ new \<and> emits rxs new rxs'"
proof (induction limit start rxs batch rule: drain_available.induct)
  case (1 limit start rxs batch)
  obtain rx b full p where d: "drain_round limit (rotation start (length rxs)) rxs batch False = (rx, b, full, p)"
    by (metis prod_cases4)
  have "\<forall>i\<in>set (rotation start (length rxs)). i < length rxs" using "1.prems"(2) by (simp add: set_rotation)
  then obtain new where n: "b = batch @ new" "emits rxs new rx" using drain_round_emits [OF d] by blast
  then have rx: "rx \<noteq> []" using "1.prems"(2) by (auto simp: emits_def)
  consider "\<not> length batch < limit" | "length batch < limit" "full \<or> \<not> p" | "length batch < limit" "\<not> (full \<or> \<not> p)" by blast
  then show ?case
  proof cases
    case 1
    with "1.prems"(1) show ?thesis by (simp add: drain_available.simps [of limit] emits_refl)
  next
    case 2
    with "1.prems"(1) d n show ?thesis by (auto simp: drain_available.simps [of limit start rxs])
  next
    case 3
    with "1.prems"(1) d have "drain_available limit start rx b = (rxs', batch')" by (simp add: drain_available.simps [of limit start rxs])
    then obtain new' where "batch' = b @ new'" "emits rx new' rxs'"
      using "1.IH" [OF 3(1) d [symmetric] refl refl refl 3(2)] rx by blast
    with n show ?thesis by (intro exI [of _ "new @ new'"]) (simp add: emits_trans)
  qed
qed

lemma drain_available_bound:
  "drain_available limit start rxs batch = (rxs', batch') \<Longrightarrow> length batch \<le> limit \<Longrightarrow> length batch' \<le> limit"
proof (induction limit start rxs batch rule: drain_available.induct)
  case (1 limit start rxs batch)
  obtain rx b full p where d: "drain_round limit (rotation start (length rxs)) rxs batch False = (rx, b, full, p)"
    by (metis prod_cases4)
  show ?case
  proof (cases "length batch < limit \<and> \<not> (full \<or> \<not> p)")
    case True
    then have "drain_available limit start rx b = (rxs', batch')"
      using "1.prems"(1) d by (simp add: drain_available.simps [of limit start rxs])
    moreover have "length b \<le> limit" using drain_round_limit [OF d] True by blast
    ultimately show ?thesis using "1.IH" [OF _ d [symmetric] refl refl refl] True by blast
  next
    case False
    then show ?thesis using "1.prems" drain_round_limit [OF d] d
      by (auto simp: drain_available.simps [of limit start rxs] split: if_splits)
  qed
qed

lemma drain_available_none:
  assumes "drain_available limit start rxs [] = (rxs', [])" "0 < limit" "rxs \<noteq> []"
  shows "concat rxs = []"
proof -
  obtain rx b full p where d: "drain_round limit (rotation start (length rxs)) rxs [] False = (rx, b, full, p)"
    by (metis prod_cases4)
  have "b = []"
  proof (cases "full \<or> \<not> p")
    case True
    then show ?thesis using assms d by (simp add: drain_available.simps [of limit start rxs])
  next
    case False
    then have "drain_available limit start rx b = (rxs', [])" using assms d by (simp add: drain_available.simps [of limit start rxs])
    moreover have "\<forall>i\<in>set (rotation start (length rxs)). i < length rxs" using assms(3) by (simp add: set_rotation)
    then have "rx \<noteq> []" using drain_round_emits [OF d] assms(3) by (auto simp: emits_def)
    ultimately show ?thesis using drain_available_emits by fastforce
  qed
  then have "rxs ! i = []" if "i < length rxs" for i
    using drain_round_none [of limit _ rxs "[]" False rx full p i] d assms(2,3) that by (simp add: set_rotation)
  then show ?thesis by (auto simp: in_set_conv_nth)
qed

lemma drain_available_nil: "drain_available limit start [] batch = ([], batch)"
  by (simp add: drain_available.simps [of limit start "[]" batch] rotation_def)

text \<open>The end of the worker after the shutdown signal.\<close>

function shutdown_drain :: "bool \<Rightarrow> ('fs \<Rightarrow> QueryLogEvent list \<Rightarrow> 'fs res) \<Rightarrow> nat \<Rightarrow> nat \<Rightarrow> QueryLogEvent list list \<Rightarrow> 'fs log_worker
    \<Rightarrow> QueryLogEvent list list \<times> 'fs log_worker" where
  "shutdown_drain subscribed write_segment limit start rxs lw =
     (let (rxs', batch) = drain_available limit start rxs []
      in if batch = [] then (rxs', lw)
         else shutdown_drain subscribed write_segment limit start rxs' (process_batch subscribed write_segment batch lw))"
  by pat_completeness auto
termination
proof (relation "measure (\<lambda>(sub, ws, limit, start, rxs, lw). length (concat rxs))", goal_cases)
  case (2 sub ws limit start rxs lw x rxs' batch)
  then have d: "drain_available limit start rxs [] = (rxs', batch)" "batch \<noteq> []" by simp_all
  then have "rxs \<noteq> []" by (auto simp: drain_available_nil)
  then have "emits rxs batch rxs'" using drain_available_emits [OF d(1)] by auto
  then show ?case using emits_length d(2) by fastforce
qed simp

declare shutdown_drain.simps [simp del]

section \<open>The ring keeps the most recent events\<close>

definition recent :: "nat \<Rightarrow> 'a list \<Rightarrow> 'a list" where
  "recent cap l = drop (length l - cap) l"

lemma recent_append: "recent cap (recent cap a @ b) = recent cap (a @ b)"
  by (cases "length a \<le> cap") (simp_all add: recent_def add.commute)

lemma push_events_recent:
  "length buf \<le> cap \<Longrightarrow> 0 < cap \<Longrightarrow>
   push_events cap evs buf n = (recent cap (buf @ evs), n + of_nat (length (buf @ evs) - cap))"
proof (induction evs arbitrary: buf n)
  case Nil
  then show ?case by (simp add: recent_def)
next
  case (Cons ev evs)
  show ?case
  proof (cases "cap \<le> length buf")
    case True
    then have len: "length buf = cap" and ne: "buf \<noteq> []" using Cons.prems by auto
    then have "push_events cap (ev # evs) buf n = (recent cap ((tl buf @ [ev]) @ evs), n + 1 + of_nat (length ((tl buf @ [ev]) @ evs) - cap))"
      using Cons.IH [of "tl buf @ [ev]" "n + 1"] Cons.prems True by simp
    moreover have "recent cap ((tl buf @ [ev]) @ evs) = recent cap (buf @ ev # evs)"
      using ne by (cases buf) (auto simp: recent_def len [symmetric])
    moreover have "1 + (length ((tl buf @ [ev]) @ evs) - cap) = length (buf @ ev # evs) - cap"
      using ne by (cases buf) (auto simp: len [symmetric])
    then have "1 + of_nat (length ((tl buf @ [ev]) @ evs) - cap) = (of_nat (length (buf @ ev # evs) - cap) :: u64)"
      by (metis of_nat_1 of_nat_add)
    ultimately show ?thesis by (simp only: add.assoc)
  next
    case False
    then show ?thesis using Cons.IH [of "buf @ [ev]" n] Cons.prems by simp
  qed
qed

lemma process_batch_ring:
  assumes "er_buf (lw_ring lw) = Some buf" "length buf \<le> er_capacity (lw_ring lw)" "0 < er_capacity (lw_ring lw)"
  shows "lw_ring (process_batch subscribed write_segment batch lw) = (lw_ring lw)\<lparr>er_buf := Some (recent (er_capacity (lw_ring lw)) (buf @ batch))\<rparr>"
    "qc_events_processed (lw_counters (process_batch subscribed write_segment batch lw)) = qc_events_processed (lw_counters lw) + of_nat (length batch)"
    "qc_ring_evictions (lw_counters (process_batch subscribed write_segment batch lw)) =
       qc_ring_evictions (lw_counters lw) + of_nat (length (buf @ batch) - er_capacity (lw_ring lw))"
proof -
  have "push_batch subscribed batch (lw_ring lw) =
      ((lw_ring lw)\<lparr>er_buf := Some (recent (er_capacity (lw_ring lw)) (buf @ batch))\<rparr>,
       of_nat (length (buf @ batch) - er_capacity (lw_ring lw)), if subscribed then batch else [])"
    using assms(1-3) push_events_recent [OF assms(2,3), of batch 0]
    by (cases "batch = []") (auto simp: push_batch_def recent_def)
  then show "lw_ring (process_batch subscribed write_segment batch lw) = (lw_ring lw)\<lparr>er_buf := Some (recent (er_capacity (lw_ring lw)) (buf @ batch))\<rparr>"
    "qc_events_processed (lw_counters (process_batch subscribed write_segment batch lw)) = qc_events_processed (lw_counters lw) + of_nat (length batch)"
    "qc_ring_evictions (lw_counters (process_batch subscribed write_segment batch lw)) =
       qc_ring_evictions (lw_counters lw) + of_nat (length (buf @ batch) - er_capacity (lw_ring lw))"
    using assms(3) by (simp_all add: process_batch_def ring_enabled_def Let_def split: option.split sum.split)
qed

lemma shutdown_drain_exact:
  assumes "0 < limit" "rxs \<noteq> []" "er_buf (lw_ring lw) = Some buf" "er_capacity (lw_ring lw) = cap" "length buf \<le> cap" "0 < cap"
  shows "\<exists>evs rxs' lw'. shutdown_drain subscribed write_segment limit start rxs lw = (rxs', lw') \<and> concat rxs' = [] \<and>
     mset evs = mset (concat rxs) \<and> (\<forall>i<length rxs. subseq (rxs ! i) evs) \<and>
     er_buf (lw_ring lw') = Some (recent cap (buf @ evs)) \<and>
     qc_events_processed (lw_counters lw') = qc_events_processed (lw_counters lw) + of_nat (length evs) \<and>
     qc_ring_evictions (lw_counters lw') = qc_ring_evictions (lw_counters lw) + of_nat (length (buf @ evs) - cap)"
  using assms
proof (induction subscribed write_segment limit start rxs lw arbitrary: buf rule: shutdown_drain.induct)
  case (1 subscribed write_segment limit start rxs lw)
  obtain rx batch where d: "drain_available limit start rxs [] = (rx, batch)" by fastforce
  then have em: "emits rxs batch rx" using drain_available_emits "1.prems"(2) by fastforce
  show ?case
  proof (cases "batch = []")
    case True
    then have nil: "concat rxs = []" using drain_available_none d "1.prems"(1,2) by simp
    then have "mset (concat rx) = {#}" using em True by (simp add: emits_def del: concat_eq_Nil_conv mset_concat)
    then have "concat rx = []" by (simp only: mset_zero_iff)
    moreover have "\<forall>i<length rxs. subseq (rxs ! i) []" using nil by (auto dest: nth_mem)
    ultimately show ?thesis using True d nil "1.prems"
      by (intro exI [of _ "[]"] exI [of _ rx] exI [of _ lw]) (simp add: shutdown_drain.simps [of subscribed] recent_def)
  next
    case False
    let ?lw = "process_batch subscribed write_segment batch lw"
    note p = process_batch_ring [of lw buf subscribed write_segment batch, unfolded "1.prems"(4), OF "1.prems"(3,5,6)]
    have "rx \<noteq> []" using em "1.prems"(2) by (auto simp: emits_def)
    moreover have "length (recent cap (buf @ batch)) \<le> cap" by (simp add: recent_def)
    ultimately obtain evs rxs' lw' where r: "shutdown_drain subscribed write_segment limit start rx ?lw = (rxs', lw')" "concat rxs' = []"
      "mset evs = mset (concat rx)" "\<forall>i<length rx. subseq (rx ! i) evs"
      "er_buf (lw_ring lw') = Some (recent cap (recent cap (buf @ batch) @ evs))"
      "qc_events_processed (lw_counters lw') = qc_events_processed (lw_counters ?lw) + of_nat (length evs)"
      "qc_ring_evictions (lw_counters lw') = qc_ring_evictions (lw_counters ?lw) + of_nat (length (recent cap (buf @ batch) @ evs) - cap)"
      using "1.IH" [OF d [symmetric] refl False "1.prems"(1), of "recent cap (buf @ batch)"] p "1.prems"(4,6) by auto
    have "length (recent cap (buf @ batch) @ evs) - cap + (length (buf @ batch) - cap) = length (buf @ batch @ evs) - cap"
      by (simp add: recent_def)
    then have "of_nat (length (recent cap (buf @ batch) @ evs) - cap) + (of_nat (length (buf @ batch) - cap) :: u64) =
        of_nat (length (buf @ batch @ evs) - cap)" by (metis of_nat_add)
    then have "qc_ring_evictions (lw_counters lw') = qc_ring_evictions (lw_counters lw) + of_nat (length (buf @ batch @ evs) - cap)"
      unfolding r(7) p(3) by (simp only: add.assoc add.commute [of "of_nat (length (buf @ batch) - cap)"])
    moreover have "\<forall>i<length rxs. subseq (rxs ! i) (batch @ evs)" "mset (batch @ evs) = mset (concat rxs)"
      using em r(3,4) by (simp_all add: emits_def)
    ultimately show ?thesis
      using r(1,2,5,6) p(2) d False recent_append [of cap "buf @ batch" evs]
      by (intro exI [of _ "batch @ evs"] exI [of _ rxs'] exI [of _ lw']) (simp add: shutdown_drain.simps [of subscribed _ _ _ rxs])
  qed
qed

text \<open>
  (C18) Nothing that was logged is lost at shutdown. The worker takes every event that the shards
  still hold, exactly once and each shard in its order, and the ring then holds the most
  recent events up to its capacity; the events that it processed and those that the ring
  evicted are counted. Writing the segment file may fail at any point.
\<close>

theorem shutdown_loses_nothing:
  assumes "0 < limit" "rxs \<noteq> []" "er_buf (lw_ring lw) = Some buf" "er_capacity (lw_ring lw) = cap" "length buf \<le> cap" "0 < cap"
  shows "\<exists>evs rxs' lw'. shutdown_drain subscribed write_segment limit start rxs lw = (rxs', lw') \<and> concat rxs' = [] \<and>
     mset evs = mset (concat rxs) \<and> (\<forall>i<length rxs. subseq (rxs ! i) evs) \<and>
     er_buf (lw_ring lw') = Some (recent cap (buf @ evs)) \<and>
     qc_events_processed (lw_counters lw') = qc_events_processed (lw_counters lw) + of_nat (length evs) \<and>
     qc_ring_evictions (lw_counters lw') = qc_ring_evictions (lw_counters lw) + of_nat (length (buf @ evs) - cap)"
  using assms by (rule shutdown_drain_exact)

definition sample_event :: "u64 \<Rightarrow> QueryLogEvent" where
  "sample_event n = \<lparr>ev_seq = n, ev_unix_micros = n, ev_client = V4 0, ev_client_port = 0, ev_qname = [], ev_qtype = 1, ev_rcode = 0,
     ev_elapsed_us = 0, ev_response_bytes = 0, ev_source = ''cache'', ev_upstream = None\<rparr>"

theorem shutdown_loses_nothing_witness:
  "\<exists>evs rxs' lw'. shutdown_drain False (\<lambda>fs _. Inl ''full'') 2 1 [[sample_event 1, sample_event 3], [sample_event 2]]
       \<lparr>lw_ring = ring_new 2, lw_counters = counters_new 4, lw_file = Some ()\<rparr> = (rxs', lw') \<and>
     mset evs = {#sample_event 1, sample_event 2, sample_event 3#} \<and> er_buf (lw_ring lw') = Some (recent 2 evs)"
  using shutdown_loses_nothing [of 2 "[[sample_event 1, sample_event 3], [sample_event 2]]"
      "\<lparr>lw_ring = ring_new 2, lw_counters = counters_new 4, lw_file = Some ()\<rparr>" "[]" 2 False "\<lambda>fs _. Inl ''full''" 1]
  by (auto simp: ring_new_def add_mset_commute)

section \<open>Counters and statistics\<close>

lemma sharded_add: "slots \<noteq> [] \<Longrightarrow> \<exists>slots'. sharded_fetch_add tid v slots = Some slots' \<and> slots' \<noteq> [] \<and> sharded_load slots' = sharded_load slots + v"
proof -
  assume ne: "slots \<noteq> []"
  have "i < length slots \<Longrightarrow> sum_list (slots[i := slots ! i + v]) = sum_list slots + v" for i
    by (induction slots arbitrary: i) (auto simp: nth_Cons ac_simps split: nat.splits)
  then have "sum_list (slots[tid mod length slots := slots ! (tid mod length slots) + v]) = sum_list slots + v"
    using ne by simp
  then show ?thesis using ne by (simp add: sharded_fetch_add_def thread_shard_def sharded_load_def)
qed

text \<open>The sums of the buckets of a window add up to the aggregate of the window.\<close>

lemma fold_add_sample: "sm_queries (fold add_sample l acc) = sm_queries acc + sum_list (map sm_queries l)"
  by (induction l arbitrary: acc) (simp_all add: add_sample_def ac_simps)

definition bucket_start :: "nat \<Rightarrow> nat \<Rightarrow> nat \<Rightarrow> nat" where
  "bucket_start n buckets b = b * n div buckets"

lemma buckets_from_total:
  assumes "b + k = buckets" "0 < buckets"
  shows "\<exists>bs. buckets_from snaps buckets b k = Some bs \<and> length bs = k \<and>
    sum_list (map sm_queries bs) = sum_list (map sm_queries (drop (bucket_start (length snaps) buckets b) snaps))"
  using assms
proof (induction k arbitrary: b)
  case 0
  then show ?case by (simp add: bucket_start_def)
next
  case (Suc k)
  let ?n = "length snaps" let ?a = "bucket_start ?n buckets b" let ?c = "bucket_start ?n buckets (b + 1)"
  have last: "(if b + 1 = buckets then ?n else (b + 1) * ?n div buckets) = ?c"
  proof (cases "b + 1 = buckets")
    case True
    then have "bucket_start ?n buckets (b + 1) = buckets * ?n div buckets" by (simp add: bucket_start_def)
    then show ?thesis using True Suc.prems(2) by simp
  qed (simp add: bucket_start_def)
  have le: "?a \<le> ?c" by (simp add: bucket_start_def div_le_mono)
  have "(b + 1) * ?n div buckets \<le> buckets * ?n div buckets" using Suc.prems by (intro div_le_mono mult_le_mono1) simp
  then have cn: "?c \<le> ?n" using Suc.prems by (simp add: bucket_start_def)
  obtain bs where bs: "buckets_from snaps buckets (b + 1) k = Some bs" "length bs = k"
    "sum_list (map sm_queries bs) = sum_list (map sm_queries (drop ?c snaps))"
    using Suc.IH [of "b + 1"] Suc.prems by auto
  obtain s where s: "bucket snaps ?a ?c = Some s" "sm_queries s = sum_list (map sm_queries (take (?c - ?a) (drop ?a snaps)))"
    using le cn by (cases "?a < ?c") (auto simp: bucket_def wire_simps fold_add_sample sample_default_def)
  have "drop ?a snaps = take (?c - ?a) (drop ?a snaps) @ drop ?c snaps"
    using le by (metis append_take_drop_id drop_drop le_add_diff_inverse2)
  then have "sum_list (map sm_queries (drop ?a snaps)) =
      sum_list (map sm_queries (take (?c - ?a) (drop ?a snaps))) + sum_list (map sm_queries (drop ?c snaps))"
    by (metis map_append sum_list_append)
  then show ?case using s bs last by (simp add: bucket_start_def Let_def)
qed

lemma buckets_add_up:
  "\<exists>bs. bucket_aggregate seconds buckets data = Some bs \<and> length bs = max buckets 1 \<and>
     sum_list (map sm_queries bs) = sm_queries (fst (aggregate seconds data))"
proof (cases "window seconds data = []")
  case True
  have "sum_list (replicate n (0 :: u64)) = 0" for n by (induction n) simp_all
  with True show ?thesis by (simp add: bucket_aggregate_def aggregate_def sample_default_def)
next
  case False
  then show ?thesis using buckets_from_total [of 0 "max buckets 1" "max buckets 1" "window seconds data"]
    by (auto simp: bucket_aggregate_def aggregate_def fold_add_sample sample_default_def bucket_start_def Let_def)
qed

end
