(* ===== verification/Spec2Isabelle.thy ===== *)
theory Spec2Isabelle
  imports Cache_Persist Reload_Correct Singleflight Tcp_Mux Ipset Querylog
begin

text \<open>
  A model of pathdns, a forwarding DNS server written in Rust, and the theorems that make it
  correct. All file names are relative to \<open>src/\<close> of the crate.

  \<^bold>\<open>The program.\<close> A client's query is parsed (\<open>dns/query.rs\<close>), routed by its name to a rule or to the
  fallback (\<open>route_index.rs\<close>, \<open>router.rs\<close>, with rule-sets from \<open>ruleset.rs\<close>, \<open>mrs.rs\<close>, \<open>domain.rs\<close> and
  \<open>iprange.rs\<close>), answered from the cache (\<open>cache.rs\<close>) or locally (\<open>dns/builder.rs\<close>), or sent to a
  group of upstream nodes (\<open>upstream/\<close>) by the leader of all identical concurrent queries
  (\<open>singleflight.rs\<close>). The answer passes the rule's response filters (\<open>response_filter.rs\<close>), its
  addresses may be added to kernel sets (\<open>ipset/\<close>), it is stored in the cache and the event is
  logged (\<open>querylog/\<close>). Configuration and rule-sets are reloaded while queries run (\<open>server.rs\<close>).

  \<^bold>\<open>Conventions.\<close> A value of type \<open>'a run\<close> is the result of code that can panic, with \<open>None\<close> the
  panic; fallible functions return \<open>err + 'a\<close>. Integers keep their width (\<open>u8\<close> to \<open>u128\<close> are words),
  slices are byte lists and every index or slice out of range is a panic of the model. A \<open>&mut\<close>
  argument is passed in and returned. Shared state that several tasks change is a state of an
  inductive step relation, one step per critical section.

  \<^bold>\<open>Theories and sources.\<close>
  \<^item> \<open>Prelude\<close>: integers, slices, byte order, case folding. \<open>Rust_Text\<close>: the string functions and the
    address parser of the standard library. \<open>Sync\<close>: maps, mutexes, shards and one-shot channels.
  \<^item> \<open>Hasher\<close>: \<open>hasher.rs\<close>.
  \<^item> \<open>Dns_Query\<close>: \<open>dns/query.rs\<close> and the name walk of \<open>dns/mod.rs\<close>. \<open>Dns_Builder\<close>: \<open>dns/builder.rs\<close>.
    \<open>Dns_Ttl\<close>: \<open>dns/ttl.rs\<close>. \<open>Dns_Variant\<close>: the EDNS properties, UDP limits and question comparison of
    \<open>dns/mod.rs\<close>. \<open>Dns_Ecs\<close>: \<open>dns/ecs.rs\<close>.
  \<^item> \<open>Persist\<close>: \<open>persist.rs\<close>. \<open>Quick_Cache\<close>: the interface of the \<open>quick_cache\<close> crate and an instance of it.
    \<open>Cache\<close>, \<open>Cache_Correct\<close>, \<open>Cache_Persist\<close>: \<open>cache.rs\<close>, its correctness and its file.
    \<open>Verdict_Cache\<close>: \<open>verdict_cache.rs\<close>.
  \<^item> \<open>Domain\<close>, \<open>Iprange\<close>, \<open>Mrs\<close> with \<open>Mrs_Correct\<close>, \<open>Ruleset\<close>, \<open>Response_Filter\<close>: the source files of these
    names.
  \<^item> \<open>Config\<close>: \<open>config/mod.rs\<close>. \<open>Route_Index\<close>: \<open>route_index.rs\<close>. \<open>Router\<close>: \<open>router.rs\<close>. \<open>Hot_State\<close>: the
    routing state and both reloads of \<open>server.rs\<close>, with \<open>Reload_Correct\<close> for their histories.
  \<^item> \<open>Singleflight\<close>: \<open>singleflight.rs\<close> and \<open>SingleflightLeader\<close> of \<open>resolver.rs\<close>.
  \<^item> \<open>Upstream_Wire\<close>, \<open>Inflight\<close>, \<open>Upstream_Pool\<close>, \<open>Tcp_Mux\<close>: \<open>upstream/mod.rs\<close>, \<open>upstream/inflight.rs\<close>,
    the exchanges of \<open>upstream/udp.rs\<close>, \<open>doh.rs\<close> and \<open>quic.rs\<close>, \<open>stats.rs\<close>, and \<open>upstream/tcp_mux.rs\<close>.
  \<^item> \<open>Netlink\<close>: \<open>ipset/codec.rs\<close> and the receive loop of \<open>ipset/socket.rs\<close>. \<open>Ipset\<close>: the rest of \<open>ipset/\<close>.
  \<^item> \<open>Querylog\<close>: \<open>querylog/mod.rs\<close>, \<open>querylog/ring.rs\<close> and the drain and sampler of \<open>querylog/worker.rs\<close>.

  \<^bold>\<open>What is shown.\<close>
  \<^item> Wire format: the query parser accepts exactly the well-formed queries, the readers of a packet
    agree, builders and readers round trip, no walk panics on any packet, TTLs count down and nothing
    else of a response changes, replies fit the client's UDP limit, ECS options are removed and
    injected as configured.
  \<^item> Caches: a hit returns a response stored for the same question, variant and route, with the
    client's id, never past its TTL; what is stored and saved is found again.
  \<^item> Routing: the index gives the first matching rule, with or without its cache; rule-set files,
    binary tries and address ranges match exactly what they list; filters are decided by the first
    that holds; a reload either installs a whole new state or keeps the old one, and after the last
    change is processed the rule-sets are those of the files.
  \<^item> Concurrency: under every interleaving no follower of a query waits on a leader that is gone, and
    a reply reaches only the query that asked its question; every node of a group is measured again
    and again; frames of the multiplexer survive any split into writes and reads.
  \<^item> Kernel sets and log: the intervals sent are the masked networks, accepted addresses reach the
    set despite errors, and shutdown writes every event that was queued.

  \<^bold>\<open>Parameters.\<close> Third-party code is an argument with named hypotheses: \<open>quick_cache\<close> (locale
  \<open>qc_laws\<close>, interpreted on an association list), the \<open>regex\<close> crate, \<open>zstd\<close>. The file system, the
  clock, random numbers, what arrives from the network and what the kernel answers are arguments too.

  \<^bold>\<open>Bounds.\<close> Loops whose bound is in the code keep it: the walk of a binary trie stops at the step
  and depth limits of \<open>mrs.rs\<close>, the allocation of a query id tries at most 65535 of them, tables have
  64 shards. Other loops recurse on what they consume (the rest of a packet, a queue, the slots of a
  group) and their functions are total, so no theorem depends on fuel chosen here.

  \<^bold>\<open>Not modelled.\<close>
  \<^item> \<open>resolver.rs\<close> apart from its leader guard: an asynchronous composition of the components above
    (timeouts, races of sub-queries, spawned refreshes).
  \<^item> \<open>listener.rs\<close>, \<open>udp_send.rs\<close>, \<open>udp_uring.rs\<close>, \<open>sys.rs\<close>: sockets, \<open>io_uring\<close> rings, CPU affinity and other
    system calls. \<open>lib.rs\<close>, \<open>main.rs\<close>, \<open>log.rs\<close>: start-up, signals, logging.
  \<^item> \<open>config/json.rs\<close>, \<open>parse.rs\<close>, \<open>upstream_url.rs\<close>, \<open>bootstrap.rs\<close>, \<open>fingerprint.rs\<close>: reading the
    configuration through \<open>serde_json\<close> and the validation of what it read, the fingerprint over its
    derived debug text, and the network bootstrap of endpoint names.
  \<^item> \<open>querylog/api.rs\<close> and the history files of \<open>querylog/worker.rs\<close>: an HTTP interface and files in
    third-party encodings. \<open>atomic_write\<close> of \<open>persist.rs\<close> and the \<open>inotify\<close> loop of \<open>server.rs\<close>: system calls.
  \<^item> The connection tasks of the transports: TLS, HTTP and QUIC are third-party state machines.
\<close>

end
